(* ===== verification/Prelude.thy ===== *)
theory Prelude
  imports Main "HOL-Library.Word" "HOL-Library.Monad_Syntax"
begin

text \<open>
  Shared vocabulary of the development: the i386 integer types of
  \<^verbatim>\<open>src/kernel/include/kern/types.h\<close> and \<^verbatim>\<open>arch/i386/include/arch/types.h\<close>, the error
  numbers of \<^verbatim>\<open>src/kernel/include/sys/errno.h\<close>, the bit and alignment macros of
  \<^verbatim>\<open>src/include/elos/elos.h\<close> and \<^verbatim>\<open>src/include/elos/bitops.h\<close>, and the generic lemmas on
  lists, words and options that the component theories share.

  Conventions. A C function that can hit an \<^verbatim>\<open>assert\<close>, \<^verbatim>\<open>kassert\<close> or \<^verbatim>\<open>kpanic\<close>
  returns an \<^typ>\<open>'a option\<close>; \<open>None\<close> is the kernel panic. A C function that returns a
  negative error number returns a sum; \<open>Inl e\<close> stands for \<^verbatim>\<open>-e\<close>.
\<close>

unbundle bit_operations_syntax

type_synonym u8 = "8 word"
type_synonym u16 = "16 word"
type_synonym u32 = "32 word"
type_synonym u64 = "64 word"

type_synonym 'a panicking = "'a option"

datatype errno =
    EPERM | ENOENT | ESRCH | EINTR | EIO | ENXIO | E2BIG | ENOEXEC | EBADF | ECHILD
  | EAGAIN | ENOMEM | EACCES | EFAULT | EBUSY | EEXIST | ENODEV | ENOTDIR | EISDIR
  | EINVAL | ENFILE | EMFILE | ENOTTY | EFBIG | ENOSPC | ESPIPE | EROFS | EPIPE
  | ENAMETOOLONG | ENOSYS | ENOTEMPTY | ENOTSUP | ERESTART | ETIMEDOUT

text \<open>\<^verbatim>\<open>#define EWOULDBLOCK EAGAIN\<close>\<close>

abbreviation EWOULDBLOCK :: errno where
  "EWOULDBLOCK \<equiv> EAGAIN"

text \<open>An assertion: execution goes on only when the condition holds.\<close>

definition kassert :: "bool \<Rightarrow> unit panicking" where
  "kassert b = (if b then Some () else None)"

lemma kassert_True [simp]: "kassert True = Some ()"
  by (simp add: kassert_def)

lemma kassert_False [simp]: "kassert False = None"
  by (simp add: kassert_def)

lemma kassert_bind_eq [simp]: "(kassert b \<bind> f = Some y) \<longleftrightarrow> (b \<and> f () = Some y)"
  by (simp add: kassert_def)

lemma if_eq_cases:
  assumes "(if P then a else b) = c"
  obtains (yes) P "a = c" | (no) "\<not> P" "b = c"
  using assms by (cases P) auto

text \<open>
  Reading and writing one element of a C array. \<open>None\<close> is an access outside the array:
  undefined behaviour of the source, never a value of the model.
\<close>

definition nth_opt :: "'a list \<Rightarrow> nat \<Rightarrow> 'a panicking" where
  "nth_opt xs i = (if i < length xs then Some (xs ! i) else None)"

definition upd_opt :: "'a list \<Rightarrow> nat \<Rightarrow> 'a \<Rightarrow> 'a list panicking" where
  "upd_opt xs i v = (if i < length xs then Some (xs[i := v]) else None)"

lemma nth_opt_inside [simp]: "i < length xs \<Longrightarrow> nth_opt xs i = Some (xs ! i)"
  by (simp add: nth_opt_def)

lemma upd_opt_inside [simp]: "i < length xs \<Longrightarrow> upd_opt xs i v = Some (xs[i := v])"
  by (simp add: upd_opt_def)

lemma nth_opt_eq_Some: "nth_opt xs i = Some v \<longleftrightarrow> i < length xs \<and> v = xs ! i"
  by (auto simp: nth_opt_def)

lemma upd_opt_eq_Some: "upd_opt xs i v = Some ys \<longleftrightarrow> i < length xs \<and> ys = xs[i := v]"
  by (auto simp: upd_opt_def)

subsection \<open>Flag and alignment macros\<close>

definition F_ISSET :: "'a::len word \<Rightarrow> 'a word \<Rightarrow> bool" where
  "F_ISSET x f \<longleftrightarrow> x AND f \<noteq> 0"

definition F_SET :: "'a::len word \<Rightarrow> 'a word \<Rightarrow> 'a word" where
  "F_SET x f = x OR f"

definition F_CLR :: "'a::len word \<Rightarrow> 'a word \<Rightarrow> 'a word" where
  "F_CLR x f = x AND NOT f"

definition ALIGN :: "'a::len word \<Rightarrow> 'a word \<Rightarrow> 'a word" where
  "ALIGN x a = (x + (a - 1)) AND NOT (a - 1)"

definition ALIGNED :: "'a::len word \<Rightarrow> 'a word \<Rightarrow> bool" where
  "ALIGNED x a \<longleftrightarrow> x AND (a - 1) = 0"

text \<open>\<^verbatim>\<open>__builtin_ffs\<close>: one plus the index of the least significant set bit, 0 for 0.\<close>

definition ffs :: "'a::len word \<Rightarrow> nat" where
  "ffs w = (case find (bit w) [0..<LENGTH('a)] of None \<Rightarrow> 0 | Some i \<Rightarrow> Suc i)"

subsection \<open>Generic lemmas\<close>

lemma find_upt_None: "find P [m..<n] = None \<longleftrightarrow> (\<forall>i. m \<le> i \<and> i < n \<longrightarrow> \<not> P i)"
  by (auto simp: find_None_iff)

lemma find_upt_Some:
  "find P [m..<n] = Some i \<longleftrightarrow> m \<le> i \<and> i < n \<and> P i \<and> (\<forall>j. m \<le> j \<and> j < i \<longrightarrow> \<not> P j)"
proof (induction "n - m" arbitrary: m)
  case 0
  then show ?case by auto
next
  case (Suc k)
  then have lt: "m < n" by simp
  have IH: "find P [Suc m..<n] = Some i \<longleftrightarrow>
      Suc m \<le> i \<and> i < n \<and> P i \<and> (\<forall>j. Suc m \<le> j \<and> j < i \<longrightarrow> \<not> P j)"
    using Suc by (intro Suc.hyps(1)) simp
  show ?case
  proof (cases "P m")
    case True
    with lt show ?thesis
      by (auto simp: upt_conv_Cons)
  next
    case False
    have first: "m \<le> j \<longleftrightarrow> j = m \<or> Suc m \<le> j" for j by linarith
    have "find P [m..<n] = find P [Suc m..<n]"
      using lt False by (simp add: upt_conv_Cons)
    with IH False show ?thesis unfolding first by auto
  qed
qed

lemma ffs_0_iff: "ffs w = 0 \<longleftrightarrow> w = 0"
  by (auto simp: ffs_def find_upt_None find_upt_Some bit_eq_iff [of w 0]
      split: option.splits dest: bit_imp_le_length)

lemma ffs_Suc_iff:
  "ffs (w :: 'a::len word) = Suc i \<longleftrightarrow> bit w i \<and> (\<forall>j < i. \<not> bit w j)"
  by (auto simp: ffs_def find_upt_Some find_upt_None split: option.splits
      dest: bit_imp_le_length) (metis linorder_neqE_nat)

lemma bit_single: "bit (2 ^ m :: 'a::len word) n \<longleftrightarrow> n = m \<and> n < LENGTH('a)"
  by (auto simp: bit_exp_iff)

lemma and_single_eq_0 [simp]: "(w AND 2 ^ n = 0) \<longleftrightarrow> \<not> bit (w :: 'a::len word) n"
  using bit_eq_iff [of "w AND 2 ^ n" 0]
  by (auto simp: bit_and_iff bit_single dest: bit_imp_le_length)

lemma bit_or_single:
  "n < LENGTH('a) \<Longrightarrow> bit (w OR 2 ^ m :: 'a::len word) n \<longleftrightarrow> bit w n \<or> n = m"
  by (auto simp: bit_or_iff bit_single)

lemma bit_and_not_single:
  "n < LENGTH('a) \<Longrightarrow> bit (w AND NOT (2 ^ m) :: 'a::len word) n \<longleftrightarrow> bit w n \<and> n \<noteq> m"
  by (auto simp: bit_and_iff bit_not_iff bit_single)

lemma not_eq_0_bit: "NOT (w :: 'a::len word) = 0 \<Longrightarrow> n < LENGTH('a) \<Longrightarrow> bit w n"
  using bit_not_iff [of w n] by simp

lemma div_mod_eq_iff: "(m div k = n div k \<and> m mod k = n mod k) \<longleftrightarrow> (m = (n::nat))"
  by (metis div_mult_mod_eq)

lemma and_not_mask: "w AND NOT (mask k) = push_bit k (drop_bit k (w::'a::len word))"
  by (rule bit_word_eqI) (auto simp: bit_simps)

lemma unat_and_not_mask: "unat (w AND NOT (mask k) :: 'a::len word) = unat w div 2 ^ k * 2 ^ k"
proof -
  have "unat (push_bit k (drop_bit k w)) = push_bit k (drop_bit k (unat w))"
    by (rule bit_eqI) (auto simp: bit_simps bit_unsigned_iff dest: bit_imp_le_length)
  then show ?thesis by (simp add: and_not_mask push_bit_eq_mult drop_bit_eq_div)
qed

lemma unat_and_mask: "unat (w AND mask k :: 'a::len word) = unat w mod 2 ^ k"
  by (metis take_bit_eq_mask take_bit_eq_mod unsigned_take_bit_eq)

lemma mask_eq: "(2 ^ k - 1 :: 'a::len word) = mask k"
  by (simp add: mask_eq_exp_minus_1)

lemma ALIGNED_iff: "ALIGNED x (2 ^ k) \<longleftrightarrow> 2 ^ k dvd unat x"
  by (metis ALIGNED_def mask_eq unat_and_mask dvd_eq_mod_eq_0 unat_eq_0)

lemma unat_2p: "n < LENGTH('a) \<Longrightarrow> unat (2 ^ n :: 'a::len word) = 2 ^ n"
proof -
  assume "n < LENGTH('a)"
  then have "(2 ^ n :: nat) < 2 ^ LENGTH('a)" by simp
  then show ?thesis using unat_of_nat [of "2 ^ n", where ?'a='a] by simp
qed

lemma unat_ucast_up:
  assumes "LENGTH('a) \<le> LENGTH('b)"
  shows "unat (ucast (w :: 'a::len word) :: 'b::len word) = unat w"
proof -
  have "unat w < 2 ^ LENGTH('a)" by (rule unsigned_less)
  also have "\<dots> \<le> 2 ^ LENGTH('b)" using assms by (rule power_increasing) simp
  finally show ?thesis by (simp add: unsigned_ucast_eq take_bit_nat_eq_self)
qed

lemma unat_mask: "k < LENGTH('a) \<Longrightarrow> unat (mask k :: 'a::len word) = 2 ^ k - 1"
proof -
  assume "k < LENGTH('a)"
  then have "(mask k :: nat) < 2 ^ LENGTH('a)"
    by (simp add: mask_eq_exp_minus_1 less_imp_diff_less)
  then show ?thesis
    by (metis of_nat_mask_eq unat_of_nat mod_less mask_eq_exp_minus_1)
qed

lemma unat_ALIGN:
  assumes "k < LENGTH('a)" "unat x + (2 ^ k - 1) < 2 ^ LENGTH('a)"
  shows "unat (ALIGN x (2 ^ k) :: 'a::len word) = (unat x + (2 ^ k - 1)) div 2 ^ k * 2 ^ k"
proof -
  have "unat (x + mask k) = unat x + (2 ^ k - 1)"
    using assms by (simp add: unat_add_lem [THEN iffD1] unat_mask)
  then show ?thesis by (simp add: ALIGN_def mask_eq unat_and_not_mask)
qed

text \<open>
  \<^verbatim>\<open>memcpy\<close> of the bytes \<open>bs\<close> to offset \<open>i\<close> of a memory object; \<open>None\<close> when the bytes
  do not fit in the object.
\<close>

definition mem_write :: "'a list \<Rightarrow> nat \<Rightarrow> 'a list \<Rightarrow> 'a list panicking" where
  "mem_write mem i bs =
     (if i + length bs \<le> length mem
      then Some (take i mem @ bs @ drop (i + length bs) mem) else None)"

definition mem_read :: "'a list \<Rightarrow> nat \<Rightarrow> nat \<Rightarrow> 'a list panicking" where
  "mem_read mem i n = (if i + n \<le> length mem then Some (take n (drop i mem)) else None)"

lemma mem_read_inside [simp]:
  "i + n \<le> length mem \<Longrightarrow> mem_read mem i n = Some (take n (drop i mem))"
  by (simp add: mem_read_def)

lemma mem_write_inside:
  assumes "i + length bs \<le> length mem"
  obtains mem' where "mem_write mem i bs = Some mem'" "length mem' = length mem"
    "\<And>j. j < length mem \<Longrightarrow>
       mem' ! j = (if i \<le> j \<and> j < i + length bs then bs ! (j - i) else mem ! j)"
proof
  let ?m = "take i mem @ bs @ drop (i + length bs) mem"
  show "mem_write mem i bs = Some ?m" using assms by (simp add: mem_write_def)
  show "length ?m = length mem" using assms by simp
  show "?m ! j = (if i \<le> j \<and> j < i + length bs then bs ! (j - i) else mem ! j)"
    if "j < length mem" for j
    using assms that by (auto simp: nth_append)
qed

end
