(* ===== verification/Interfaces.thy ===== *)
theory Interfaces
  imports Prelude
begin

text \<open>
  The contracts between components, as locales. Each is interpreted on the model's own
  definitions in the theory of the component that provides it, and its lemmas are what the
  client components use.
\<close>

subsection \<open>Allocators of small numbers\<close>

text \<open>
  Provided by \<^verbatim>\<open>lib/bitset.c\<close>, used for thread ids and by the pseudo terminal driver for its slave
  numbers. A number is the non-negative \<^verbatim>\<open>int\<close> the C function returns.
\<close>

locale id_allocator =
  fixes alloc :: "'s \<Rightarrow> (errno + int \<times> 's) panicking"
    and release :: "'s \<Rightarrow> int \<Rightarrow> 's panicking"
    and used :: "'s \<Rightarrow> int set"
    and cap :: "'s \<Rightarrow> int"
    and inv :: "'s \<Rightarrow> bool"
  assumes alloc_total: "inv s \<Longrightarrow> alloc s \<noteq> None"
    and alloc_fresh: "inv s \<Longrightarrow> alloc s = Some (Inr (n, s')) \<Longrightarrow>
        0 \<le> n \<and> n < cap s \<and> n \<notin> used s \<and> used s' = insert n (used s) \<and> cap s' = cap s \<and> inv s'"
    and alloc_full: "inv s \<Longrightarrow> alloc s = Some (Inl e) \<Longrightarrow> e = ENOSPC \<and> used s = {0..<cap s}"
    and release_used: "inv s \<Longrightarrow> n \<in> used s \<Longrightarrow>
        \<exists>s'. release s n = Some s' \<and> used s' = used s - {n} \<and> cap s' = cap s \<and> inv s'"
    and used_below: "inv s \<Longrightarrow> used s \<subseteq> {0..<cap s}"
begin

lemma alloc_cases:
  assumes "inv s"
  obtains (got) n s' where "alloc s = Some (Inr (n, s'))" "0 \<le> n" "n < cap s" "n \<notin> used s"
      "used s' = insert n (used s)" "cap s' = cap s" "inv s'"
    | (full) "alloc s = Some (Inl ENOSPC)" "used s = {0..<cap s}"
proof (cases "alloc s")
  case None
  with alloc_total [OF assms] show ?thesis by simp
next
  case (Some r)
  show ?thesis
  proof (cases r)
    case (Inl e)
    with Some alloc_full [OF assms, of e] have "alloc s = Some (Inl ENOSPC)" "used s = {0..<cap s}"
      by simp_all
    then show ?thesis by (rule full)
  next
    case (Inr p)
    obtain n s' where "p = (n, s')" by (cases p)
    with Some Inr have a: "alloc s = Some (Inr (n, s'))" by simp
    show ?thesis using alloc_fresh [OF assms a] by (intro got [OF a]) auto
  qed
qed

lemma alloc_succeeds_iff:
  assumes "inv s"
  shows "(\<exists>n s'. alloc s = Some (Inr (n, s'))) \<longleftrightarrow> card (used s) < nat (cap s)"
proof (rule alloc_cases [OF assms])
  fix n s'
  assume got: "alloc s = Some (Inr (n, s'))" "0 \<le> n" "n < cap s" "n \<notin> used s"
  then have "used s \<subset> {0..<cap s}" using used_below [OF assms] by auto
  then have "card (used s) < card {0..<cap s}" by (intro psubset_card_mono) auto
  with got show ?thesis by simp
next
  assume "alloc s = Some (Inl ENOSPC)" "used s = {0..<cap s}"
  then show ?thesis by simp
qed

lemma alloc_release:
  assumes "inv s" "alloc s = Some (Inr (n, s'))"
  shows "\<exists>s''. release s' n = Some s'' \<and> used s'' = used s \<and> cap s'' = cap s \<and> inv s''"
  using alloc_fresh [OF assms] release_used [of s' n] by auto

end

subsection \<open>Bounded byte queues\<close>

text \<open>
  Provided by \<^verbatim>\<open>lib/cbuf.c\<close>; the ring buffer of a pipe and the input and output buffers of
  a terminal rely on it. \<open>rd q n\<close> takes at most \<open>n\<close> bytes from the front, \<open>wr q bs\<close> appends
  what fits and returns how many bytes that was.
\<close>

datatype queue_op = Take nat | Put "u8 list"

datatype queue_out = Taken "u8 list" | Stored nat

text \<open>The abstract queue is a byte list of bounded length; it never fails.\<close>

fun queue_step :: "nat \<Rightarrow> u8 list \<Rightarrow> queue_op \<Rightarrow> queue_out \<times> u8 list" where
  "queue_step cap bs (Take n) = (Taken (take n bs), drop n bs)"
| "queue_step cap bs (Put xs) =
     (Stored (min (cap - length bs) (length xs)), bs @ take (cap - length bs) xs)"

fun queue_run :: "nat \<Rightarrow> u8 list \<Rightarrow> queue_op list \<Rightarrow> queue_out list \<times> u8 list" where
  "queue_run cap bs [] = ([], bs)"
| "queue_run cap bs (x # xs) =
     (let (out, bs') = queue_step cap bs x; (outs, bs'') = queue_run cap bs' xs
      in (out # outs, bs''))"

text \<open>The same sequence of operations on an implementation.\<close>

fun run_ops :: "('q \<Rightarrow> nat \<Rightarrow> (u8 list \<times> 'q) option) \<Rightarrow> ('q \<Rightarrow> u8 list \<Rightarrow> (nat \<times> 'q) option) \<Rightarrow>
    'q \<Rightarrow> queue_op list \<Rightarrow> (queue_out list \<times> 'q) option" where
  "run_ops rd wr q [] = Some ([], q)"
| "run_ops rd wr q (Take n # xs) = do {
     (bs, q') \<leftarrow> rd q n;
     (outs, q'') \<leftarrow> run_ops rd wr q' xs;
     Some (Taken bs # outs, q'')
   }"
| "run_ops rd wr q (Put bs # xs) = do {
     (n, q') \<leftarrow> wr q bs;
     (outs, q'') \<leftarrow> run_ops rd wr q' xs;
     Some (Stored n # outs, q'')
   }"

locale byte_queue =
  fixes rd :: "'q \<Rightarrow> nat \<Rightarrow> (u8 list \<times> 'q) option"
    and wr :: "'q \<Rightarrow> u8 list \<Rightarrow> (nat \<times> 'q) option"
    and bytes :: "'q \<Rightarrow> u8 list"
    and cap :: "'q \<Rightarrow> nat"
    and inv :: "'q \<Rightarrow> bool"
  assumes rd_takes: "inv q \<Longrightarrow>
        \<exists>q'. rd q n = Some (take n (bytes q), q') \<and> bytes q' = drop n (bytes q) \<and>
             cap q' = cap q \<and> inv q'"
    and wr_appends: "inv q \<Longrightarrow>
        \<exists>q'. wr q bs = Some (min (cap q - length (bytes q)) (length bs), q') \<and>
             bytes q' = bytes q @ take (cap q - length (bytes q)) bs \<and> cap q' = cap q \<and> inv q'"
    and bounded: "inv q \<Longrightarrow> length (bytes q) \<le> cap q"
begin

text \<open>Writing and then reading everything back: nothing is lost, reordered or invented.\<close>

lemma write_then_read:
  assumes "inv q" "length (bytes q) + length bs \<le> cap q"
  shows "\<exists>q1 q2. wr q bs = Some (length bs, q1) \<and>
      rd q1 (length (bytes q) + length bs) = Some (bytes q @ bs, q2) \<and> bytes q2 = [] \<and> inv q2"
proof -
  from wr_appends [OF assms(1), of bs] assms(2) obtain q1 where
    q1: "wr q bs = Some (length bs, q1)" "bytes q1 = bytes q @ bs" "inv q1"
    by (auto simp: min_absorb2)
  from rd_takes [OF q1(3), of "length (bytes q) + length bs"] q1 show ?thesis by auto
qed

text \<open>Every sequence of operations returns, with the outputs of the abstract queue.\<close>

lemma run_refines:
  assumes "inv q"
  shows "\<exists>outs q'. run_ops rd wr q xs = Some (outs, q') \<and>
      queue_run (cap q) (bytes q) xs = (outs, bytes q') \<and> cap q' = cap q \<and> inv q'"
  using assms
proof (induction xs arbitrary: q)
  case Nil
  then show ?case by simp
next
  case (Cons x xs)
  show ?case
  proof (cases x)
    case (Take n)
    from rd_takes [OF Cons.prems, of n] obtain q1 where
      q1: "rd q n = Some (take n (bytes q), q1)" "bytes q1 = drop n (bytes q)" "cap q1 = cap q" "inv q1"
      by blast
    from Cons.IH [OF q1(4)] q1 Take show ?thesis by auto
  next
    case (Put bs)
    from wr_appends [OF Cons.prems, of bs] obtain q1 where
      q1: "wr q bs = Some (min (cap q - length (bytes q)) (length bs), q1)"
        "bytes q1 = bytes q @ take (cap q - length (bytes q)) bs" "cap q1 = cap q" "inv q1"
      by blast
    from Cons.IH [OF q1(4)] q1 Put show ?thesis by auto
  qed
qed

text \<open>Two reads in a row return what one read of the joint size returns.\<close>

lemma read_read:
  assumes "inv q"
  shows "\<exists>q1 q2 q3. rd q m = Some (take m (bytes q), q1) \<and>
      rd q1 n = Some (take n (drop m (bytes q)), q2) \<and>
      rd q (m + n) = Some (take m (bytes q) @ take n (drop m (bytes q)), q3) \<and>
      bytes q2 = bytes q3"
proof -
  obtain q1 where q1: "rd q m = Some (take m (bytes q), q1)" "bytes q1 = drop m (bytes q)" "inv q1"
    using rd_takes [OF assms, of m] by auto
  obtain q2 where q2: "rd q1 n = Some (take n (bytes q1), q2)" "bytes q2 = drop n (bytes q1)"
    using rd_takes [OF q1(3), of n] by auto
  obtain q3 where q3: "rd q (m + n) = Some (take (m + n) (bytes q), q3)"
      "bytes q3 = drop (m + n) (bytes q)"
    using rd_takes [OF assms, of "m + n"] by auto
  have "bytes q2 = bytes q3" using q1(2) q2(2) q3(2) by (simp add: add.commute)
  with q1 q2 q3(1) show ?thesis unfolding take_add by (metis (no_types))
qed

end

end
