(* ===== verification/Bitset.thy ===== *)
theory Bitset
  imports Interfaces
begin

text \<open>
  The bit set of \<^verbatim>\<open>src/kernel/lib/bitset.c\<close>. A \<^verbatim>\<open>bset_t\<close> is a byte array and a
  number of bits; \<open>bset_alloc_bit\<close> hands out the least clear bit and is the number
  allocator of threads and of the pseudo terminal driver. Bytes, sizes and positions are
  words: the index of a loop wraps as \<^verbatim>\<open>size_t\<close> does (on a set of more than \<open>2 ^ 32 - 8\<close> bits a
  loop that finds nothing starts again, and \<open>None\<close> is also the loop that never ends), and a bit
  number is returned as the \<^verbatim>\<open>int\<close> with the same 32 bits, so that a bit from \<open>2 ^ 31\<close> on would
  come back negative. \<open>bset_wf\<close> therefore bounds the size by \<open>2 ^ 31\<close>; the sets of the kernel
  have 512 (\<^verbatim>\<open>THREAD_MAX\<close>) and 32 (\<^verbatim>\<open>PTY_MAX\<close>) bits.
\<close>

subsection \<open>Model\<close>

record bset =
  bs_bitset :: "u8 list"
  bs_size :: u32

definition bset_init :: "u8 list \<Rightarrow> u32 \<Rightarrow> bset" where
  "bset_init data sz = \<lparr>bs_bitset = data, bs_size = sz\<rparr>"

text \<open>\<open>kmalloc n\<close> says whether the allocation of \<open>n\<close> bytes succeeds; the memory is zeroed.\<close>

definition bset_alloc :: "(nat \<Rightarrow> bool) \<Rightarrow> u32 \<Rightarrow> errno + bset" where
  "bset_alloc kmalloc sz =
     (let n = unat (drop_bit 3 (ALIGN sz 8))
      in if kmalloc n then Inr (bset_init (replicate n 0) sz) else Inl ENOMEM)"

definition bset_free :: "bset \<Rightarrow> bset" where
  "bset_free s = s\<lparr>bs_bitset := [], bs_size := 0\<rparr>"

definition bset_set :: "bset \<Rightarrow> u32 \<Rightarrow> bset panicking" where
  "bset_set s b = do {
     kassert (b < bs_size s);
     x \<leftarrow> nth_opt (bs_bitset s) (unat (drop_bit 3 b));
     bytes \<leftarrow> upd_opt (bs_bitset s) (unat (drop_bit 3 b)) (x OR push_bit (unat (b AND 7)) 1);
     Some (s\<lparr>bs_bitset := bytes\<rparr>)
   }"

definition bset_clr :: "bset \<Rightarrow> u32 \<Rightarrow> bset panicking" where
  "bset_clr s b = do {
     kassert (b < bs_size s);
     x \<leftarrow> nth_opt (bs_bitset s) (unat (drop_bit 3 b));
     bytes \<leftarrow> upd_opt (bs_bitset s) (unat (drop_bit 3 b)) (x AND NOT (push_bit (unat (b AND 7)) 1));
     Some (s\<lparr>bs_bitset := bytes\<rparr>)
   }"

definition bset_test :: "bset \<Rightarrow> u32 \<Rightarrow> bool panicking" where
  "bset_test s b = do {
     x \<leftarrow> nth_opt (bs_bitset s) (unat (drop_bit 3 b));
     Some (x AND push_bit (unat (b AND 7)) 1 \<noteq> 0)
   }"

text \<open>The result is the return value of the C function: 0, a bit number plus one, or an error.\<close>

partial_function (option) bset_ffs_from :: "bset \<Rightarrow> u32 \<Rightarrow> (errno + int) panicking" where
  [code]: "bset_ffs_from s i =
     (if i < bs_size s then do {
        x \<leftarrow> nth_opt (bs_bitset s) (unat (drop_bit 3 i));
        if ffs x > 0 then
          (let b = of_nat (ffs x) + i
           in if b > bs_size s then Some (Inl ENOSPC) else Some (Inr (sint b)))
        else bset_ffs_from s (i + 8)
      }
      else Some (Inr 0))"

definition bset_ffs :: "bset \<Rightarrow> (errno + int) panicking" where
  "bset_ffs s = bset_ffs_from s 0"

partial_function (option) bset_alloc_bit_from :: "bset \<Rightarrow> u32 \<Rightarrow> (errno + int \<times> bset) panicking" where
  [code]: "bset_alloc_bit_from s i =
     (if i < bs_size s then do {
        x \<leftarrow> nth_opt (bs_bitset s) (unat (drop_bit 3 i));
        if ffs (NOT x) > 0 then
          (let b = of_nat (ffs (NOT x) - 1) + i
           in if b \<ge> bs_size s then Some (Inl ENOSPC)
              else do { s' \<leftarrow> bset_set s b; Some (Inr (sint b, s')) })
        else bset_alloc_bit_from s (i + 8)
      }
      else Some (Inl ENOSPC))"

definition bset_alloc_bit :: "bset \<Rightarrow> (errno + int \<times> bset) panicking" where
  "bset_alloc_bit s = bset_alloc_bit_from s 0"

definition bset_free_bit :: "bset \<Rightarrow> u32 \<Rightarrow> bset panicking" where
  "bset_free_bit s b = bset_clr s b"

subsection \<open>Abstraction: the set of set bits\<close>

abbreviation bset_cap :: "bset \<Rightarrow> nat" where
  "bset_cap s \<equiv> unat (bs_size s)"

definition bset_wf :: "bset \<Rightarrow> bool" where
  "bset_wf s \<longleftrightarrow> bset_cap s \<le> 8 * length (bs_bitset s) \<and> bset_cap s \<le> 2 ^ 31"

definition bset_bit :: "bset \<Rightarrow> nat \<Rightarrow> bool" where
  "bset_bit s n \<longleftrightarrow> bit (bs_bitset s ! (n div 8)) (n mod 8)"

text \<open>The numbers in use, as the \<^verbatim>\<open>int\<close>s the callers have them.\<close>

definition bset_used :: "bset \<Rightarrow> int set" where
  "bset_used s = {n. 0 \<le> n \<and> n < uint (bs_size s) \<and> bset_bit s (nat n)}"

lemma word_index [simp]: "unat (drop_bit 3 (b :: u32)) = unat b div 8"
  by (simp add: drop_bit_eq_div unat_div)

lemma word_bitno [simp]: "unat (b AND 7 :: u32) = unat b mod 8"
  using unat_and_mask [of b 3] by (simp add: mask_eq_exp_minus_1)

lemma bset_index: "bset_wf s \<Longrightarrow> n < bset_cap s \<Longrightarrow> n div 8 < length (bs_bitset s)"
  unfolding bset_wf_def by linarith

lemma bset_test_correct:
  "bset_wf s \<Longrightarrow> n < bs_size s \<Longrightarrow> bset_test s n = Some (bset_bit s (unat n))"
  by (simp add: bset_test_def bset_index bset_bit_def word_less_nat_alt)

text \<open>Writing a byte that differs in one bit.\<close>

lemma upd_byte_bit:
  assumes "bset_wf s" "b < bset_cap s" "n < bset_cap s"
    and "\<And>m. m < 8 \<Longrightarrow> bit y m = (if m = b mod 8 then v else bit (bs_bitset s ! (b div 8)) m)"
  shows "bset_bit (s\<lparr>bs_bitset := (bs_bitset s)[b div 8 := y]\<rparr>) n = (if n = b then v else bset_bit s n)"
proof (cases "n div 8 = b div 8")
  case True
  then have "n = b \<longleftrightarrow> n mod 8 = b mod 8" by (metis div_mod_eq_iff)
  with True assms show ?thesis by (simp add: bset_bit_def bset_index)
qed (auto simp: bset_bit_def)

lemma bset_set_Some:
  assumes "bset_wf s" "b < bs_size s"
  obtains s' where "bset_set s b = Some s'" "bset_wf s'" "bs_size s' = bs_size s"
    "\<And>n. n < bset_cap s \<Longrightarrow> bset_bit s' n \<longleftrightarrow> n = unat b \<or> bset_bit s n"
proof -
  let ?x = "bs_bitset s ! (unat b div 8)"
  let ?s' = "s\<lparr>bs_bitset := (bs_bitset s)[unat b div 8 := ?x OR push_bit (unat b mod 8) 1]\<rparr>"
  have b: "unat b < bset_cap s" using assms(2) by (simp add: word_less_nat_alt)
  have "bset_set s b = Some ?s'"
    using assms b by (simp add: bset_set_def bset_index)
  moreover have "bset_bit ?s' n \<longleftrightarrow> n = unat b \<or> bset_bit s n" if "n < bset_cap s" for n
    by (subst upd_byte_bit [OF assms(1) b that, where v=True]) (auto simp: bit_or_single)
  ultimately show ?thesis
    using that assms(1) by (simp add: bset_wf_def)
qed

lemma bset_clr_Some:
  assumes "bset_wf s" "b < bs_size s"
  obtains s' where "bset_clr s b = Some s'" "bset_wf s'" "bs_size s' = bs_size s"
    "\<And>n. n < bset_cap s \<Longrightarrow> bset_bit s' n \<longleftrightarrow> n \<noteq> unat b \<and> bset_bit s n"
proof -
  let ?x = "bs_bitset s ! (unat b div 8)"
  let ?s' = "s\<lparr>bs_bitset := (bs_bitset s)[unat b div 8 := ?x AND NOT (push_bit (unat b mod 8) 1)]\<rparr>"
  have b: "unat b < bset_cap s" using assms(2) by (simp add: word_less_nat_alt)
  have "bset_clr s b = Some ?s'"
    using assms b by (simp add: bset_clr_def bset_index)
  moreover have "bset_bit ?s' n \<longleftrightarrow> n \<noteq> unat b \<and> bset_bit s n" if "n < bset_cap s" for n
    by (subst upd_byte_bit [OF assms(1) b that, where v=False]) (auto simp: bit_and_not_single)
  ultimately show ?thesis
    using that assms(1) by (simp add: bset_wf_def)
qed

subsection \<open>The allocator finds the least clear bit\<close>

text \<open>One byte of the search, at a multiple of 8 below the size.\<close>

lemma search_position:
  fixes i :: u32
  assumes "bset_wf s" "8 dvd unat i" "i < bs_size s" "j \<le> 8"
  shows "unat i div 8 < length (bs_bitset s)" "unat (of_nat j + i) = unat i + j"
    "unat (i + 8) = unat i + 8"
    "j < 8 \<Longrightarrow> bset_bit s (unat i + j) \<longleftrightarrow> bit (bs_bitset s ! (unat i div 8)) j"
proof -
  obtain k where i: "unat i = 8 * k" using assms(2) by auto
  have lt: "unat i < bset_cap s" "bset_cap s \<le> 2 ^ 31"
    using assms by (simp_all add: word_less_nat_alt bset_wf_def)
  show "unat i div 8 < length (bs_bitset s)" using bset_index [OF assms(1) lt(1)] .
  have j: "unat (of_nat j :: u32) = j" using assms(4) by (simp add: unat_of_nat)
  show "unat (of_nat j + i) = unat i + j"
    using lt j assms(4) by (subst unat_add_lem [THEN iffD1]) auto
  show "unat (i + 8) = unat i + 8"
    using lt by (subst unat_add_lem [THEN iffD1]) auto
  show "j < 8 \<Longrightarrow> bset_bit s (unat i + j) \<longleftrightarrow> bit (bs_bitset s ! (unat i div 8)) j"
    by (simp add: bset_bit_def i)
qed

lemma below_byte:
  assumes "\<And>n. n < i \<Longrightarrow> P n" "\<And>m. m < j \<Longrightarrow> P (i + m)" "n < i + (j :: nat)"
  shows "P n"
proof (cases "n < i")
  case False
  then show ?thesis using assms(2) [of "n - i"] assms(3) by simp
qed (rule assms(1))

text \<open>A bit below the bound on the size is returned as itself.\<close>

lemma sint_small:
  assumes "unat (b :: u32) < 2 ^ 31"
  shows "sint b = int (unat b)"
proof -
  have "int (unat b) < int (2 ^ 31)" using assms by (simp only: of_nat_less_iff)
  then have "uint b < 2 ^ 31" by simp
  moreover have "- (2 ^ 31) \<le> uint b" by (rule order_trans [OF _ uint_ge_0]) simp
  ultimately have "signed_take_bit 31 (uint b) = uint b"
    by (intro signed_take_bit_int_eq_self)
  then show ?thesis by (simp add: sint_uint)
qed

lemma bit_as_int:
  assumes "bset_wf s" "b < bs_size s"
  shows "sint b = int (unat b)"
  using assms by (intro sint_small) (simp add: word_less_nat_alt bset_wf_def)

lemma bset_alloc_bit_from_spec:
  assumes "bset_wf s" "8 dvd unat i" "\<And>n. n < unat i \<Longrightarrow> bset_bit s n"
  shows "(\<exists>b s'. bset_alloc_bit_from s i = Some (Inr (int (unat b), s')) \<and> bset_set s b = Some s' \<and>
            b < bs_size s \<and> \<not> bset_bit s (unat b) \<and> (\<forall>n < unat b. bset_bit s n)) \<or>
         (bset_alloc_bit_from s i = Some (Inl ENOSPC) \<and> (\<forall>n < bset_cap s. bset_bit s n))"
  using assms(2,3)
proof (induction "bset_cap s - unat i" arbitrary: i rule: less_induct)
  case (less i)
  let ?x = "bs_bitset s ! (unat i div 8)"
  note unf = bset_alloc_bit_from.simps [of s i]
  note pos = search_position [OF assms(1) less.prems(1)]
  consider (over) "\<not> i < bs_size s"
    | (full) "i < bs_size s" "ffs (NOT ?x) = 0"
    | (found) j where "i < bs_size s" "ffs (NOT ?x) = Suc j"
    by (metis not0_implies_Suc)
  then show ?case
  proof cases
    case over
    with less.prems(2) show ?thesis unfolding unf by (auto simp: word_less_nat_alt)
  next
    case full
    have "bset_bit s (unat i + j)" if "j < 8" for j
      using pos(4) [OF full(1)] that full(2) unfolding ffs_0_iff by (auto intro: not_eq_0_bit)
    then have upto: "bset_bit s n" if "n < unat (i + 8)" for n
      using less.prems(2) that below_byte [of "unat i" "bset_bit s" 8 n] pos(3) [OF full(1), of 0] by auto
    have "bset_alloc_bit_from s i = bset_alloc_bit_from s (i + 8)"
      using full pos(1) [OF full(1), of 0] by (simp add: unf)
    moreover have "bset_cap s - unat (i + 8) < bset_cap s - unat i"
      using full(1) pos(3) [OF full(1), of 0] by (simp add: word_less_nat_alt)
    ultimately show ?thesis
      using less.hyps [of "i + 8"] upto pos(3) [OF full(1), of 0] less.prems(1) by simp
  next
    case (found j)
    then have j: "\<not> bit ?x j" "j < 8" "\<And>m. m < j \<Longrightarrow> bit ?x m"
      unfolding ffs_Suc_iff by (auto simp: bit_simps)
    let ?b = "of_nat j + i"
    have b: "unat ?b = unat i + j" using pos(2) [OF found(1)] j(2) by simp
    have before: "bset_bit s n" if "n < unat ?b" for n
      using below_byte [of "unat i" "bset_bit s" j n] less.prems(2) pos(4) [OF found(1)] j that
      by (auto simp: b)
    have here: "\<not> bset_bit s (unat ?b)" using pos(4) [OF found(1), of j] j by (simp add: b)
    have step: "bset_alloc_bit_from s i =
        (if ?b \<ge> bs_size s then Some (Inl ENOSPC)
         else do { s' \<leftarrow> bset_set s ?b; Some (Inr (sint ?b, s')) })"
      using found pos(1) [OF found(1), of 0] by (simp add: unf Let_def)
    show ?thesis
    proof (cases "?b \<ge> bs_size s")
      case True
      with step before show ?thesis by (auto simp: word_le_nat_alt)
    next
      case False
      then have lt: "?b < bs_size s" by simp
      obtain s' where "bset_set s ?b = Some s'" using bset_set_Some [OF assms(1) lt] by metis
      with step before here lt bit_as_int [OF assms(1) lt] show ?thesis
        by (intro disjI1 exI [of _ ?b] exI [of _ s']) simp
    qed
  qed
qed

lemma bset_alloc_bit_cases:
  assumes "bset_wf s"
  obtains (got) b s' where "bset_alloc_bit s = Some (Inr (int b, s'))" "bset_wf s'"
      "bs_size s' = bs_size s" "b < bset_cap s" "\<not> bset_bit s b" "\<And>n. n < b \<Longrightarrow> bset_bit s n"
      "\<And>n. n < bset_cap s \<Longrightarrow> bset_bit s' n \<longleftrightarrow> n = b \<or> bset_bit s n"
    | (full) "bset_alloc_bit s = Some (Inl ENOSPC)" "\<And>n. n < bset_cap s \<Longrightarrow> bset_bit s n"
proof -
  consider (a) b s' where "bset_alloc_bit s = Some (Inr (int (unat b), s'))" "bset_set s b = Some s'"
      "b < bs_size s" "\<not> bset_bit s (unat b)" "\<forall>n < unat b. bset_bit s n"
    | (b) "bset_alloc_bit s = Some (Inl ENOSPC)" "\<forall>n < bset_cap s. bset_bit s n"
    using bset_alloc_bit_from_spec [OF assms, of 0] by (auto simp: bset_alloc_bit_def)
  then show ?thesis
  proof cases
    case (a b s')
    show ?thesis
    proof (rule bset_set_Some [OF assms a(3)])
      fix t assume "bset_set s b = Some t" "bset_wf t" "bs_size t = bs_size s"
        "\<And>n. n < bset_cap s \<Longrightarrow> bset_bit t n \<longleftrightarrow> n = unat b \<or> bset_bit s n"
      with a show ?thesis by (intro got [of "unat b" t]) (auto simp: word_less_nat_alt)
    qed
  next
    case b
    then show ?thesis by (intro full) auto
  qed
qed

text \<open>The callers hand a number back as an \<^verbatim>\<open>int\<close>, which the call converts to \<^verbatim>\<open>size_t\<close>.\<close>

lemma less_uint_iff: "int n < uint (w :: u32) \<longleftrightarrow> n < unat w"
  by (metis of_nat_unat of_nat_less_iff)

lemma used_eq: "bset_used s = int ` {n. n < bset_cap s \<and> bset_bit s n}"
proof (intro set_eqI iffI)
  fix n assume n: "n \<in> bset_used s"
  then show "n \<in> int ` {n. n < bset_cap s \<and> bset_bit s n}"
    using less_uint_iff [of "nat n" "bs_size s"]
    by (intro image_eqI [of _ _ "nat n"]) (auto simp: bset_used_def)
qed (auto simp: bset_used_def less_uint_iff)

interpretation bset_ids: id_allocator bset_alloc_bit "\<lambda>s n. bset_free_bit s (of_int n)" bset_used
  "\<lambda>s. uint (bs_size s)" bset_wf
proof unfold_locales
  fix s assume wf: "bset_wf s"
  show "bset_alloc_bit s \<noteq> None"
    by (rule bset_alloc_bit_cases [OF wf]) simp_all
  show "bset_used s \<subseteq> {0..<uint (bs_size s)}"
    by (auto simp: bset_used_def)
  show "\<exists>s'. bset_free_bit s (of_int n) = Some s' \<and> bset_used s' = bset_used s - {n} \<and>
      uint (bs_size s') = uint (bs_size s) \<and> bset_wf s'" if "n \<in> bset_used s" for n
  proof -
    from that obtain m where m: "n = int m" "m < bset_cap s" by (auto simp: used_eq)
    have b: "unat (of_nat m :: u32) = m"
      using m(2) unsigned_less [of "bs_size s", where ?'a=nat] by (simp add: unat_of_nat)
    then have "of_nat m < bs_size s" using m(2) by (simp add: word_less_nat_alt)
    from bset_clr_Some [OF wf this] obtain s' where "bset_clr s (of_nat m) = Some s'" "bset_wf s'"
        "bs_size s' = bs_size s" "\<forall>k < bset_cap s. bset_bit s' k \<longleftrightarrow> k \<noteq> m \<and> bset_bit s k"
      unfolding b by metis
    then show ?thesis by (intro exI [of _ s']) (auto simp: used_eq bset_free_bit_def m)
  qed
  show "0 \<le> n \<and> n < uint (bs_size s) \<and> n \<notin> bset_used s \<and> bset_used s' = insert n (bset_used s) \<and>
      uint (bs_size s') = uint (bs_size s) \<and> bset_wf s'" if "bset_alloc_bit s = Some (Inr (n, s'))" for n s'
  proof (rule bset_alloc_bit_cases [OF wf])
    fix b t
    assume b: "bset_alloc_bit s = Some (Inr (int b, t))" "bset_wf t" "bs_size t = bs_size s"
      "b < bset_cap s" "\<not> bset_bit s b"
      and t: "\<And>n. n < bset_cap s \<Longrightarrow> bset_bit t n \<longleftrightarrow> n = b \<or> bset_bit s n"
    have "bset_used t = insert (int b) (bset_used s)"
      unfolding used_eq using b t by auto
    moreover have "int b < uint (bs_size s)" using b(4) by (simp add: less_uint_iff)
    ultimately show ?thesis using b that by (auto simp: bset_used_def)
  qed (use that in simp)
  show "e = ENOSPC \<and> bset_used s = {0..<uint (bs_size s)}" if "bset_alloc_bit s = Some (Inl e)" for e
  proof (rule bset_alloc_bit_cases [OF wf])
    assume "bset_alloc_bit s = Some (Inl ENOSPC)" "\<And>n. n < bset_cap s \<Longrightarrow> bset_bit s n"
    moreover have "nat n < bset_cap s" if "0 \<le> n" "n < uint (bs_size s)" for n
      using that less_uint_iff [of "nat n" "bs_size s"] by simp
    ultimately show ?thesis using that by (auto simp: bset_used_def)
  qed (use that in simp)
qed

subsection \<open>Construction and the first set bit\<close>

lemma ALIGN_8_unat:
  fixes n :: u32
  assumes "unat n + 7 < 2 ^ 32"
  shows "unat (drop_bit 3 (ALIGN n 8)) = (unat n + 7) div 8"
  using unat_ALIGN [of 3 n] assms by simp

lemma bset_alloc_wf:
  assumes "unat n \<le> 2 ^ 31" "bset_alloc kmalloc n = Inr s"
  shows "bset_wf s" "bs_size s = n" "bset_used s = {}"
proof -
  have s: "s = bset_init (replicate ((unat n + 7) div 8) 0) n"
    using assms ALIGN_8_unat [of n] by (auto simp: bset_alloc_def Let_def split: if_splits)
  show "bset_wf s" "bs_size s = n" using assms(1) by (auto simp: s bset_wf_def bset_init_def)
  have "bset_bit s i = False" if "i < unat n" for i
  proof -
    have "i div 8 < (unat n + 7) div 8" using that by linarith
    then show ?thesis by (simp add: s bset_bit_def bset_init_def)
  qed
  then show "bset_used s = {}" by (auto simp: used_eq s bset_init_def)
qed

lemma bset_ffs_from_spec:
  assumes "bset_wf s" "bset_cap s < 2 ^ 31" "8 dvd unat i" "\<And>n. n < unat i \<Longrightarrow> \<not> bset_bit s n"
  shows "(\<exists>b. bset_ffs_from s i = Some (Inr (int (Suc b))) \<and> b < bset_cap s \<and> bset_bit s b \<and>
            (\<forall>n < b. \<not> bset_bit s n)) \<or>
         (bset_ffs_from s i \<in> {Some (Inr 0), Some (Inl ENOSPC)} \<and> (\<forall>n < bset_cap s. \<not> bset_bit s n))"
  using assms(3,4)
proof (induction "bset_cap s - unat i" arbitrary: i rule: less_induct)
  case (less i)
  let ?x = "bs_bitset s ! (unat i div 8)"
  note unf = bset_ffs_from.simps [of s i]
  note pos = search_position [OF assms(1) less.prems(1)]
  consider (over) "\<not> i < bs_size s"
    | (clear) "i < bs_size s" "ffs ?x = 0"
    | (found) j where "i < bs_size s" "ffs ?x = Suc j"
    by (metis not0_implies_Suc)
  then show ?case
  proof cases
    case over
    with less.prems(2) show ?thesis unfolding unf by (auto simp: word_less_nat_alt)
  next
    case clear
    have "\<not> bset_bit s (unat i + j)" if "j < 8" for j
      using pos(4) [OF clear(1)] that clear(2) unfolding ffs_0_iff by auto
    then have upto: "\<not> bset_bit s n" if "n < unat (i + 8)" for n
      using less.prems(2) that below_byte [of "unat i" "\<lambda>n. \<not> bset_bit s n" 8 n]
        pos(3) [OF clear(1), of 0] by auto
    have "bset_ffs_from s i = bset_ffs_from s (i + 8)"
      using clear pos(1) [OF clear(1), of 0] by (simp add: unf)
    moreover have "bset_cap s - unat (i + 8) < bset_cap s - unat i"
      using clear(1) pos(3) [OF clear(1), of 0] by (simp add: word_less_nat_alt)
    ultimately show ?thesis
      using less.hyps [of "i + 8"] upto pos(3) [OF clear(1), of 0] less.prems(1) by simp
  next
    case (found j)
    then have j: "bit ?x j" "j < 8" "\<And>m. m < j \<Longrightarrow> \<not> bit ?x m"
      unfolding ffs_Suc_iff by (auto dest: bit_imp_le_length)
    let ?b = "of_nat (Suc j) + i"
    have b: "unat ?b = Suc (unat i + j)" using pos(2) [OF found(1), of "Suc j"] j(2) by simp
    have before: "\<not> bset_bit s n" if "n < unat i + j" for n
      using below_byte [of "unat i" "\<lambda>n. \<not> bset_bit s n" j n] less.prems(2)
        pos(4) [OF found(1)] j that by auto
    have here: "bset_bit s (unat i + j)" using pos(4) [OF found(1), of j] j by simp
    have step: "bset_ffs_from s i =
        (if ?b > bs_size s then Some (Inl ENOSPC) else Some (Inr (sint ?b)))"
      using found pos(1) [OF found(1), of 0] by (simp add: unf Let_def del: of_nat_Suc)
    show ?thesis
    proof (cases "?b > bs_size s")
      case True
      with step before b show ?thesis by (auto simp: word_less_nat_alt simp del: of_nat_Suc)
    next
      case False
      then have lt: "unat ?b \<le> bset_cap s" by (simp add: word_le_nat_alt not_less del: of_nat_Suc)
      then have "sint ?b = int (unat ?b)"
        using assms(2) by (intro sint_small) linarith
      with step before here lt b False show ?thesis
        by (intro disjI1 exI [of _ "unat i + j"]) (auto simp del: of_nat_Suc)
    qed
  qed
qed

subsection \<open>Properties\<close>

text \<open>C5. On a bit set of at most \<open>2 ^ 31\<close> bits whose array holds them, \<open>bset_alloc_bit\<close> returns
  without a panic: it returns the least clear bit as a non-negative number and marks exactly
  that bit, or it returns ENOSPC and then every bit is in use.\<close>

theorem bset_alloc_bit_least:
  assumes "bset_wf s"
  shows "case bset_alloc_bit s of
      Some (Inr (b, s')) \<Rightarrow> 0 \<le> b \<and> b < uint (bs_size s) \<and> b \<notin> bset_used s \<and>
        {0..<b} \<subseteq> bset_used s \<and> bset_used s' = insert b (bset_used s) \<and>
        bs_size s' = bs_size s \<and> bset_wf s'
    | Some (Inl e) \<Rightarrow> e = ENOSPC \<and> bset_used s = {0..<uint (bs_size s)}
    | None \<Rightarrow> False"
proof (rule bset_alloc_bit_cases [OF assms])
  fix b s' assume b: "bset_alloc_bit s = Some (Inr (int b, s'))" "bs_size s' = bs_size s"
    "b < bset_cap s" "\<And>n. n < b \<Longrightarrow> bset_bit s n"
  have "{0..<int b} \<subseteq> bset_used s"
    using b(3,4) less_uint_iff [of b "bs_size s"] by (auto simp: bset_used_def nat_less_iff)
  then show ?thesis using bset_ids.alloc_fresh [OF assms b(1)] b(1,2) by simp
next
  assume "bset_alloc_bit s = Some (Inl ENOSPC)"
  then show ?thesis using bset_ids.alloc_full [OF assms, of ENOSPC] by simp
qed

theorem bset_alloc_bit_least_witness:
  "bset_wf \<lparr>bs_bitset = [255, 3], bs_size = 12\<rparr> \<and>
   bset_alloc_bit \<lparr>bs_bitset = [255, 3], bs_size = 12\<rparr> =
     Some (Inr (10, \<lparr>bs_bitset = [255, 7], bs_size = 12\<rparr>)) \<and>
   10 \<notin> bset_used \<lparr>bs_bitset = [255, 3], bs_size = 12\<rparr>"
proof -
  let ?s = "\<lparr>bs_bitset = [255, 3], bs_size = 12\<rparr>"
  have wf: "bset_wf ?s" by (simp add: bset_wf_def)
  have run: "bset_alloc_bit ?s = Some (Inr (10, \<lparr>bs_bitset = [255, 7], bs_size = 12\<rparr>))"
    by code_simp
  from bset_alloc_bit_least [OF wf] wf run show ?thesis by simp
qed

end
