(* ===== verification/Cbuf.thy ===== *)
theory Cbuf
  imports Interfaces
begin

text \<open>
  The circular byte buffer of \<^verbatim>\<open>src/kernel/lib/cbuf.c\<close> and
  \<^verbatim>\<open>src/kernel/include/lib/cbuf.h\<close>. The memory between \<^verbatim>\<open>first\<close> and \<^verbatim>\<open>last\<close> is a byte
  list; the read and write pointers are offsets from \<^verbatim>\<open>first\<close>. The copy loops of
  \<^verbatim>\<open>cbuf_read\<close> and \<^verbatim>\<open>cbuf_write\<close> do not end when a pointer sits on \<^verbatim>\<open>last\<close>, so they are
  partial functions; \<open>None\<close> also stands for not returning.
\<close>

subsection \<open>Model\<close>

record cbuf =
  cb_mem :: "u8 list"
  cb_rptr :: nat
  cb_wptr :: nat
  cb_data :: nat

text \<open>\<open>mem\<close> is what \<^verbatim>\<open>kmalloc\<close> returns, \<open>None\<close> for a failed allocation.\<close>

definition cbuf_alloc :: "u8 list option \<Rightarrow> errno + cbuf" where
  "cbuf_alloc mem = (case mem of
       None \<Rightarrow> Inl ENOMEM
     | Some m \<Rightarrow> Inr \<lparr>cb_mem = m, cb_rptr = 0, cb_wptr = 0, cb_data = 0\<rparr>)"

definition cbuf_size :: "cbuf \<Rightarrow> nat" where
  "cbuf_size c = length (cb_mem c)"

definition cbuf_is_full :: "cbuf \<Rightarrow> bool" where
  "cbuf_is_full c \<longleftrightarrow> cb_data c = cbuf_size c"

definition cbuf_is_empty :: "cbuf \<Rightarrow> bool" where
  "cbuf_is_empty c \<longleftrightarrow> cb_data c = 0"

definition cbuf_available :: "cbuf \<Rightarrow> nat" where
  "cbuf_available c = cb_data c"

definition cbuf_iter_max :: "u8 list \<Rightarrow> nat \<Rightarrow> nat \<Rightarrow> nat" where
  "cbuf_iter_max mem ptr sz = min (length mem - ptr) sz"

partial_function (option) cbuf_read_loop ::
    "u8 list \<Rightarrow> nat \<Rightarrow> nat \<Rightarrow> u8 list \<Rightarrow> (nat \<times> u8 list) option" where
  "cbuf_read_loop mem rptr sz buf =
     (if sz = 0 then Some (rptr, buf)
      else let cur = cbuf_iter_max mem rptr sz in do {
        bs \<leftarrow> mem_read mem rptr cur;
        cbuf_read_loop mem (if rptr + cur = length mem then 0 else rptr + cur)
          (sz - cur) (buf @ bs)
      })"

text \<open>The result holds the bytes copied to \<^verbatim>\<open>buf\<close>; their number is the C return value.\<close>

definition cbuf_read :: "cbuf \<Rightarrow> nat \<Rightarrow> (u8 list \<times> cbuf) option" where
  "cbuf_read c sz = do {
     let total = min (cb_data c) sz;
     (rptr, buf) \<leftarrow> cbuf_read_loop (cb_mem c) (cb_rptr c) total [];
     Some (buf, c\<lparr>cb_data := cb_data c - total, cb_rptr := rptr\<rparr>)
   }"

partial_function (option) cbuf_write_loop ::
    "u8 list \<Rightarrow> nat \<Rightarrow> u8 list \<Rightarrow> (u8 list \<times> nat) option" where
  "cbuf_write_loop mem wptr buf =
     (if buf = [] then Some (mem, wptr)
      else let cur = cbuf_iter_max mem wptr (length buf) in do {
        mem' \<leftarrow> mem_write mem wptr (take cur buf);
        cbuf_write_loop mem' (if wptr + cur = length mem then 0 else wptr + cur)
          (drop cur buf)
      })"

text \<open>\<open>buf\<close> holds the \<^verbatim>\<open>size\<close> bytes to write; the number written comes back.\<close>

definition cbuf_write :: "cbuf \<Rightarrow> u8 list \<Rightarrow> (nat \<times> cbuf) option" where
  "cbuf_write c buf = do {
     let total = min (cbuf_size c - cb_data c) (length buf);
     (mem, wptr) \<leftarrow> cbuf_write_loop (cb_mem c) (cb_wptr c) (take total buf);
     Some (total, c\<lparr>cb_data := cb_data c + total, cb_mem := mem, cb_wptr := wptr\<rparr>)
   }"

definition cbuf_getc :: "cbuf \<Rightarrow> (u8 option \<times> cbuf) option" where
  "cbuf_getc c = do {
     (bs, c') \<leftarrow> cbuf_read c 1;
     Some (if length bs = 1 then Some (hd bs) else None, c')
   }"

definition cbuf_putc :: "cbuf \<Rightarrow> u8 \<Rightarrow> (bool \<times> cbuf) option" where
  "cbuf_putc c x = do {
     (n, c') \<leftarrow> cbuf_write c [x];
     Some (n = 1, c')
   }"

definition cbuf_discard :: "cbuf \<Rightarrow> cbuf" where
  "cbuf_discard c = c\<lparr>cb_rptr := 0, cb_wptr := 0, cb_data := 0\<rparr>"

subsection \<open>Well-formedness and the bytes a buffer holds\<close>

definition cbuf_wf :: "cbuf \<Rightarrow> bool" where
  "cbuf_wf c \<longleftrightarrow>
     cb_rptr c < cbuf_size c \<and> cb_data c \<le> cbuf_size c \<and>
     cb_wptr c = (cb_rptr c + cb_data c) mod cbuf_size c"

definition cbuf_bytes :: "cbuf \<Rightarrow> u8 list" where
  "cbuf_bytes c = map (\<lambda>i. cb_mem c ! ((cb_rptr c + i) mod cbuf_size c)) [0..<cb_data c]"

lemma length_cbuf_bytes [simp]: "length (cbuf_bytes c) = cb_data c"
  by (simp add: cbuf_bytes_def)

lemma ring_wrap:
  "p < (m::nat) \<Longrightarrow> n \<le> m - p \<Longrightarrow> (if p + n = m then 0 else p + n) = (p + n) mod m"
  by auto

lemma ring_advance:
  "k \<le> n \<Longrightarrow> ((w + k) mod m + (n - k)) mod m = (w + n) mod (m::nat)"
  by (metis add.assoc le_add_diff_inverse mod_add_left_eq)

subsection \<open>The copy loops\<close>

lemma ring_segment:
  assumes "r + n \<le> length mem"
  shows "take n (drop r mem) = map (\<lambda>i. mem ! ((r + i) mod length mem)) [0..<n]"
  using assms by (intro nth_equalityI) auto

lemma ring_map_split:
  fixes f :: "nat \<Rightarrow> 'a"
  assumes "k \<le> n"
  shows "map (\<lambda>i. f ((r + i) mod m)) [0..<n] =
    map (\<lambda>i. f ((r + i) mod m)) [0..<k] @ map (\<lambda>i. f (((r + k) mod m + i) mod m)) [0..<n - k]"
  using assms by (intro nth_equalityI) (auto simp: nth_append mod_simps add.assoc)

lemma cbuf_read_loop_eq:
  "rptr < length mem \<Longrightarrow>
   cbuf_read_loop mem rptr n buf =
     Some ((rptr + n) mod length mem, buf @ map (\<lambda>i. mem ! ((rptr + i) mod length mem)) [0..<n])"
proof (induction n arbitrary: rptr buf rule: less_induct)
  case (less n)
  show ?case
  proof (cases "n = 0")
    case True
    with less.prems show ?thesis by (simp add: cbuf_read_loop.simps)
  next
    case False
    let ?m = "length mem"
    define cur where "cur = cbuf_iter_max mem rptr n"
    have cur: "0 < cur" "cur \<le> n" "rptr + cur \<le> ?m"
      using False less.prems by (auto simp: cur_def cbuf_iter_max_def)
    have "cbuf_read_loop mem rptr n buf =
        cbuf_read_loop mem ((rptr + cur) mod ?m) (n - cur) (buf @ take cur (drop rptr mem))"
      using False cur less.prems ring_wrap [of rptr ?m cur]
      by (subst cbuf_read_loop.simps) (simp add: cur_def [symmetric] Let_def)
    also have "\<dots> = Some (((rptr + cur) mod ?m + (n - cur)) mod ?m,
        (buf @ take cur (drop rptr mem)) @
        map (\<lambda>i. mem ! (((rptr + cur) mod ?m + i) mod ?m)) [0..<n - cur])"
      using cur less.prems by (intro less.IH) (auto intro: mod_less_divisor)
    also have "((rptr + cur) mod ?m + (n - cur)) mod ?m = (rptr + n) mod ?m"
      using cur(2) by (rule ring_advance)
    also have "(buf @ take cur (drop rptr mem)) @
        map (\<lambda>i. mem ! (((rptr + cur) mod ?m + i) mod ?m)) [0..<n - cur] =
        buf @ map (\<lambda>i. mem ! ((rptr + i) mod ?m)) [0..<n]"
      using cur by (simp add: ring_segment ring_map_split [of cur n])
    finally show ?thesis .
  qed
qed

lemma ring_inj:
  assumes "a < m" "b < m" "(w + a) mod m = (w + b) mod (m::nat)"
  shows "a = b"
proof -
  have "m dvd (w + max a b) - (w + min a b)"
    using assms(3) by (subst mod_eq_dvd_iff_nat [symmetric]) (auto simp: max_def min_def)
  then have "m dvd max a b - min a b" by simp
  moreover have "max a b - min a b < m" using assms(1,2) by auto
  ultimately have "max a b - min a b = 0" by (meson gr0I nat_dvd_not_less)
  then show ?thesis by auto
qed

text \<open>
  What a wrapped write of \<open>buf\<close> at offset \<open>w\<close> makes of the memory.
\<close>

definition ring_written :: "'a list \<Rightarrow> nat \<Rightarrow> 'a list \<Rightarrow> 'a list \<Rightarrow> bool" where
  "ring_written mem w buf mem' \<longleftrightarrow>
     length mem' = length mem \<and>
     (\<forall>i < length buf. mem' ! ((w + i) mod length mem) = buf ! i) \<and>
     (\<forall>j < length mem. (\<forall>i < length buf. j \<noteq> (w + i) mod length mem) \<longrightarrow> mem' ! j = mem ! j)"

lemma ring_written_old:
  "ring_written mem w buf mem' \<Longrightarrow> j < length mem \<Longrightarrow>
   (\<And>i. i < length buf \<Longrightarrow> j \<noteq> (w + i) mod length mem) \<Longrightarrow> mem' ! j = mem ! j"
  by (auto simp: ring_written_def)

lemma ring_written_Cons_segment:
  assumes len: "length buf \<le> length mem" and w: "w < length mem"
    and cur: "cur \<le> length buf" "w + cur \<le> length mem"
    and mem1: "length mem1 = length mem"
      "\<And>j. j < length mem \<Longrightarrow> mem1 ! j = (if w \<le> j \<and> j < w + cur then buf ! (j - w) else mem ! j)"
    and rest: "ring_written mem1 ((w + cur) mod length mem) (drop cur buf) mem'"
  shows "ring_written mem w buf mem'"
proof -
  let ?m = "length mem"
  have pos: "((w + cur) mod ?m + i) mod ?m = (w + (cur + i)) mod ?m" for i
    by (simp add: mod_simps add.assoc)
  have l: "length mem' = ?m" using rest mem1(1) by (simp add: ring_written_def)
  have new: "mem' ! ((w + (cur + i)) mod ?m) = buf ! (cur + i)" if "cur + i < length buf" for i
    using rest mem1(1) that cur(1) by (auto simp: ring_written_def pos)
  have old: "mem' ! j = mem1 ! j"
    if j: "j < ?m" and ne: "\<And>i. cur + i < length buf \<Longrightarrow> j \<noteq> (w + (cur + i)) mod ?m" for j
  proof -
    have "j \<noteq> ((w + cur) mod ?m + i) mod ?m" if "i < length (drop cur buf)" for i
      unfolding pos using that by (intro ne) simp
    with rest mem1(1) j show ?thesis by (auto simp: ring_written_def)
  qed
  have "mem' ! ((w + i) mod ?m) = buf ! i" if i: "i < length buf" for i
  proof (cases "i < cur")
    case True
    then have wi: "(w + i) mod ?m = w + i" using cur by simp
    have "mem' ! ((w + i) mod ?m) = mem1 ! ((w + i) mod ?m)"
    proof (rule old)
      show "(w + i) mod ?m \<noteq> (w + (cur + k)) mod ?m" if "cur + k < length buf" for k
        using ring_inj [of i ?m "cur + k" w] i that len True by auto
    qed (use w in \<open>auto intro: mod_less_divisor\<close>)
    also have "\<dots> = buf ! i" using wi mem1(2) [of "w + i"] True cur by simp
    finally show ?thesis .
  next
    case False
    with new [of "i - cur"] i show ?thesis by simp
  qed
  moreover have "mem' ! j = mem ! j"
    if j: "j < ?m" "\<And>i. i < length buf \<Longrightarrow> j \<noteq> (w + i) mod ?m" for j
  proof -
    have "mem' ! j = mem1 ! j" using j by (intro old) auto
    moreover have "\<not> (w \<le> j \<and> j < w + cur)"
    proof
      assume a: "w \<le> j \<and> j < w + cur"
      then have "j - w < length buf" using cur by linarith
      from j(2) [OF this] a j(1) show False by simp
    qed
    ultimately show ?thesis using mem1(2) j(1) by auto
  qed
  ultimately show ?thesis by (simp add: ring_written_def l)
qed

lemma cbuf_write_loop_eq:
  "wptr < length mem \<Longrightarrow> length buf \<le> length mem \<Longrightarrow>
   \<exists>mem'. cbuf_write_loop mem wptr buf = Some (mem', (wptr + length buf) mod length mem) \<and>
     ring_written mem wptr buf mem'"
proof (induction buf arbitrary: mem wptr rule: length_induct)
  case (1 buf)
  show ?case
  proof (cases "buf = []")
    case True
    with "1.prems" show ?thesis by (simp add: cbuf_write_loop.simps ring_written_def)
  next
    case False
    let ?m = "length mem"
    define cur where "cur = cbuf_iter_max mem wptr (length buf)"
    have cur: "0 < cur" "cur \<le> length buf" "wptr + cur \<le> ?m"
      using False "1.prems" by (auto simp: cur_def cbuf_iter_max_def)
    obtain mem1 where w: "mem_write mem wptr (take cur buf) = Some mem1" "length mem1 = ?m"
      and m1: "\<And>j. j < ?m \<Longrightarrow>
        mem1 ! j = (if wptr \<le> j \<and> j < wptr + cur then buf ! (j - wptr) else mem ! j)"
    proof (rule mem_write_inside [of wptr "take cur buf" mem])
      fix m assume m: "mem_write mem wptr (take cur buf) = Some m" "length m = ?m"
        "\<And>j. j < ?m \<Longrightarrow> m ! j = (if wptr \<le> j \<and> j < wptr + length (take cur buf)
           then take cur buf ! (j - wptr) else mem ! j)"
      show thesis
      proof (rule that [OF m(1,2)])
        show "m ! j = (if wptr \<le> j \<and> j < wptr + cur then buf ! (j - wptr) else mem ! j)"
          if "j < ?m" for j
          using m(3) [OF that] cur(2) by (auto simp: min_absorb2)
      qed
    qed (use cur in simp)
    have step: "cbuf_write_loop mem wptr buf =
        cbuf_write_loop mem1 ((wptr + cur) mod ?m) (drop cur buf)"
      using False cur "1.prems" ring_wrap [of wptr ?m cur] w(1)
      by (subst cbuf_write_loop.simps) (simp add: cur_def [symmetric] Let_def)
    have "\<exists>mem'. cbuf_write_loop mem1 ((wptr + cur) mod ?m) (drop cur buf) =
          Some (mem', ((wptr + cur) mod ?m + length (drop cur buf)) mod length mem1) \<and>
        ring_written mem1 ((wptr + cur) mod ?m) (drop cur buf) mem'"
      by (rule "1.IH" [rule_format])
        (use w(2) "1.prems" cur in \<open>auto intro: mod_less_divisor\<close>)
    then obtain mem' where "cbuf_write_loop mem1 ((wptr + cur) mod ?m) (drop cur buf) =
          Some (mem', ((wptr + cur) mod ?m + length (drop cur buf)) mod length mem1)"
      and wr: "ring_written mem1 ((wptr + cur) mod ?m) (drop cur buf) mem'"
      by blast
    then have "cbuf_write_loop mem wptr buf = Some (mem', (wptr + length buf) mod ?m)"
      using step cur w(2) ring_advance [of cur "length buf" wptr ?m] by simp
    moreover have "ring_written mem wptr buf mem'"
      by (rule ring_written_Cons_segment [OF _ _ cur(2,3) w(2) m1 wr]) (use "1.prems" in auto)
    ultimately show ?thesis by blast
  qed
qed

subsection \<open>Reading and writing\<close>

lemma cbuf_read_eq:
  assumes "cbuf_wf c"
  obtains c' where "cbuf_read c n = Some (take n (cbuf_bytes c), c')"
    "cbuf_bytes c' = drop n (cbuf_bytes c)" "cbuf_wf c'" "cbuf_size c' = cbuf_size c"
proof
  let ?k = "min (cb_data c) n" and ?m = "cbuf_size c"
  let ?c' = "c\<lparr>cb_data := cb_data c - ?k, cb_rptr := (cb_rptr c + ?k) mod ?m\<rparr>"
  have r: "cb_rptr c < length (cb_mem c)" using assms by (simp add: cbuf_wf_def cbuf_size_def)
  have "map f [0..<min d n] = take n (map f [0..<d])" for f :: "nat \<Rightarrow> u8" and d
    by (simp add: take_map min_def)
  then show "cbuf_read c n = Some (take n (cbuf_bytes c), ?c')"
    by (simp add: cbuf_read_def cbuf_read_loop_eq [OF r] Let_def cbuf_bytes_def cbuf_size_def)
  have split: "cbuf_bytes c =
      map (\<lambda>i. cb_mem c ! ((cb_rptr c + i) mod ?m)) [0..<?k] @ cbuf_bytes ?c'"
    using ring_map_split [of ?k "cb_data c" "nth (cb_mem c)" "cb_rptr c" ?m]
    by (simp add: cbuf_bytes_def cbuf_size_def)
  show "cbuf_bytes ?c' = drop n (cbuf_bytes c)"
  proof (cases "n \<le> cb_data c")
    case True
    then show ?thesis by (subst split) (simp add: min_absorb2)
  next
    case False
    then show ?thesis by (simp add: cbuf_bytes_def min_absorb1)
  qed
  show "cbuf_wf ?c'"
    using assms ring_advance [of ?k "cb_data c" "cb_rptr c" ?m]
    by (auto simp: cbuf_wf_def cbuf_size_def intro: mod_less_divisor)
  show "cbuf_size ?c' = ?m" by (simp add: cbuf_size_def)
qed

lemma cbuf_write_eq:
  assumes "cbuf_wf c"
  obtains c' where
    "cbuf_write c buf = Some (min (cbuf_size c - cb_data c) (length buf), c')"
    "cbuf_bytes c' = cbuf_bytes c @ take (cbuf_size c - cb_data c) buf"
    "cbuf_wf c'" "cbuf_size c' = cbuf_size c"
proof -
  let ?m = "cbuf_size c" and ?d = "cb_data c" and ?r = "cb_rptr c"
  let ?k = "min (?m - ?d) (length buf)"
  have wf: "?r < ?m" "?d \<le> ?m" "cb_wptr c = (?r + ?d) mod ?m"
    using assms by (simp_all add: cbuf_wf_def)
  have m: "?m = length (cb_mem c)" by (simp add: cbuf_size_def)
  have "cb_wptr c < length (cb_mem c)" "length (take ?k buf) \<le> length (cb_mem c)"
    using wf m by (auto intro: mod_less_divisor)
  from cbuf_write_loop_eq [OF this]
  obtain mem where w: "cbuf_write_loop (cb_mem c) (cb_wptr c) (take ?k buf) =
        Some (mem, (cb_wptr c + ?k) mod ?m)"
      and wr: "ring_written (cb_mem c) (cb_wptr c) (take ?k buf) mem"
    by (auto simp: m)
  let ?c' = "c\<lparr>cb_data := ?d + ?k, cb_mem := mem, cb_wptr := (cb_wptr c + ?k) mod ?m\<rparr>"
  have len: "length mem = ?m" using wr m by (simp add: ring_written_def)
  have at: "(cb_wptr c + i) mod ?m = (?r + (?d + i)) mod ?m" for i
    by (simp add: wf(3) mod_simps add.assoc)
  have old: "mem ! ((?r + i) mod ?m) = cb_mem c ! ((?r + i) mod ?m)" if i: "i < ?d" for i
  proof -
    have "(?r + i) mod ?m \<noteq> (cb_wptr c + j) mod ?m" if "j < ?k" for j
    proof -
      have "?d + j < ?m" using that by linarith
      with ring_inj [of i ?m "?d + j" ?r] i show ?thesis unfolding at by auto
    qed
    with wf(1) show ?thesis
      by (intro ring_written_old [OF wr]) (auto simp: m intro: mod_less_divisor)
  qed
  have new: "mem ! ((?r + (?d + i)) mod ?m) = buf ! i" if "i < ?k" for i
    using wr that by (simp add: ring_written_def m [symmetric] at [symmetric])
  show ?thesis
  proof (rule that [of ?c'])
    show "cbuf_write c buf = Some (?k, ?c')"
      using w by (simp add: cbuf_write_def Let_def)
    show "cbuf_bytes ?c' = cbuf_bytes c @ take (?m - ?d) buf"
    proof (intro nth_equalityI)
      fix i assume "i < length (cbuf_bytes ?c')"
      then have i: "i < ?d + ?k" by simp
      show "cbuf_bytes ?c' ! i = (cbuf_bytes c @ take (?m - ?d) buf) ! i"
      proof (cases "i < ?d")
        case True
        with i old show ?thesis by (simp add: cbuf_bytes_def nth_append cbuf_size_def len)
      next
        case False
        then have "i - ?d < ?k" using i by linarith
        from new [OF this] False i show ?thesis
          by (simp add: cbuf_bytes_def nth_append cbuf_size_def len)
      qed
    qed (simp add: min.commute)
    show sz: "cbuf_size ?c' = ?m" by (simp add: cbuf_size_def len)
    have "?d + ?k \<le> ?m" using wf(2) by linarith
    then show "cbuf_wf ?c'" using wf(1) at [of ?k] unfolding cbuf_wf_def sz by simp
  qed
qed

lemma cbuf_alloc_wf:
  "m \<noteq> [] \<Longrightarrow> cbuf_alloc (Some m) = Inr c \<Longrightarrow>
   cbuf_wf c \<and> cbuf_bytes c = [] \<and> cbuf_size c = length m"
  by (auto simp: cbuf_alloc_def cbuf_wf_def cbuf_bytes_def cbuf_size_def)

lemma cbuf_discard_wf:
  "cbuf_wf c \<Longrightarrow>
   cbuf_wf (cbuf_discard c) \<and> cbuf_bytes (cbuf_discard c) = [] \<and>
   cbuf_size (cbuf_discard c) = cbuf_size c"
  by (auto simp: cbuf_discard_def cbuf_wf_def cbuf_bytes_def cbuf_size_def)

interpretation cbuf_q: byte_queue cbuf_read cbuf_write cbuf_bytes cbuf_size cbuf_wf
proof unfold_locales
  fix c n assume wf: "cbuf_wf c"
  show "\<exists>c'. cbuf_read c n = Some (take n (cbuf_bytes c), c') \<and>
      cbuf_bytes c' = drop n (cbuf_bytes c) \<and> cbuf_size c' = cbuf_size c \<and> cbuf_wf c'"
    by (rule cbuf_read_eq [OF wf, of n]) (intro exI conjI, assumption+)
next
  fix c buf assume wf: "cbuf_wf c"
  show "\<exists>c'. cbuf_write c buf =
        Some (min (cbuf_size c - length (cbuf_bytes c)) (length buf), c') \<and>
      cbuf_bytes c' = cbuf_bytes c @ take (cbuf_size c - length (cbuf_bytes c)) buf \<and>
      cbuf_size c' = cbuf_size c \<and> cbuf_wf c'"
    unfolding length_cbuf_bytes
    by (rule cbuf_write_eq [OF wf, of buf]) (intro exI conjI, assumption+)
qed (simp add: cbuf_wf_def)

text \<open>The predicates and the byte operations of the header in terms of the bytes held.\<close>

lemma cbuf_is_empty_iff: "cbuf_is_empty c \<longleftrightarrow> cbuf_bytes c = []"
  by (simp add: cbuf_is_empty_def cbuf_bytes_def)

lemma cbuf_is_full_iff: "cbuf_is_full c \<longleftrightarrow> length (cbuf_bytes c) = cbuf_size c"
  by (simp add: cbuf_is_full_def)

lemma cbuf_getc_eq:
  assumes "cbuf_wf c"
  obtains (byte) b bs c' where "cbuf_bytes c = b # bs" "cbuf_getc c = Some (Some b, c')"
      "cbuf_bytes c' = bs" "cbuf_wf c'" "cbuf_size c' = cbuf_size c"
    | (empty) c' where "cbuf_bytes c = []" "cbuf_getc c = Some (None, c')"
      "cbuf_bytes c' = []" "cbuf_wf c'" "cbuf_size c' = cbuf_size c"
proof (rule cbuf_read_eq [OF assms, of 1])
  fix c' assume c': "cbuf_read c 1 = Some (take 1 (cbuf_bytes c), c')"
    "cbuf_bytes c' = drop 1 (cbuf_bytes c)" "cbuf_wf c'" "cbuf_size c' = cbuf_size c"
  show thesis
  proof (cases "cbuf_bytes c")
    case Nil
    with c' show ?thesis by (intro empty [of c']) (auto simp: cbuf_getc_def)
  next
    case (Cons b bs)
    with c' show ?thesis by (intro byte [of b bs c']) (auto simp: cbuf_getc_def)
  qed
qed

lemma cbuf_putc_eq:
  assumes "cbuf_wf c"
  obtains (room) c' where "length (cbuf_bytes c) < cbuf_size c" "cbuf_putc c x = Some (True, c')"
      "cbuf_bytes c' = cbuf_bytes c @ [x]" "cbuf_wf c'" "cbuf_size c' = cbuf_size c"
    | (no_room) c' where "length (cbuf_bytes c) = cbuf_size c" "cbuf_putc c x = Some (False, c')"
      "cbuf_bytes c' = cbuf_bytes c" "cbuf_wf c'" "cbuf_size c' = cbuf_size c"
proof (rule cbuf_write_eq [OF assms, of "[x]"])
  fix c' assume c': "cbuf_write c [x] = Some (min (cbuf_size c - cb_data c) (length [x]), c')"
    "cbuf_bytes c' = cbuf_bytes c @ take (cbuf_size c - cb_data c) [x]"
    "cbuf_wf c'" "cbuf_size c' = cbuf_size c"
  have d: "cb_data c \<le> cbuf_size c" using assms by (simp add: cbuf_wf_def)
  show thesis
  proof (cases "cb_data c = cbuf_size c")
    case True
    with c' show ?thesis by (intro no_room [of c']) (auto simp: cbuf_putc_def)
  next
    case False
    with c' d show ?thesis by (intro room [of c']) (auto simp: cbuf_putc_def)
  qed
qed

subsection \<open>Properties\<close>

text \<open>C6. Refinement: any sequence of reads and writes on a well-formed circular buffer returns
  (the copy loops end) with exactly the outputs of a bounded first-in first-out byte queue, and
  leaves a well-formed buffer that holds the bytes of that queue.\<close>

theorem cbuf_refines_queue:
  assumes "cbuf_wf c"
  shows "\<exists>outs c'. run_ops cbuf_read cbuf_write c xs = Some (outs, c') \<and>
      queue_run (cbuf_size c) (cbuf_bytes c) xs = (outs, cbuf_bytes c') \<and> cbuf_wf c'"
  using cbuf_q.run_refines [OF assms] by blast

theorem cbuf_refines_queue_witness:
  "\<exists>outs c'. run_ops cbuf_read cbuf_write
        \<lparr>cb_mem = [0, 0, 7, 8], cb_rptr = 2, cb_wptr = 0, cb_data = 2\<rparr>
        [Put [1, 2, 3], Take 3] = Some (outs, c') \<and>
     outs = [Stored 2, Taken [7, 8, 1]] \<and> cbuf_bytes c' = [2] \<and> cbuf_wf c'"
proof -
  let ?c = "\<lparr>cb_mem = [0, 0, 7, 8], cb_rptr = 2, cb_wptr = 0, cb_data = 2\<rparr>"
  have "cbuf_wf ?c" by (simp add: cbuf_wf_def cbuf_size_def)
  moreover have "queue_run (cbuf_size ?c) (cbuf_bytes ?c) [Put [1, 2, 3], Take 3] =
      ([Stored 2, Taken [7, 8, 1]], [2])"
    by code_simp
  ultimately show ?thesis using cbuf_refines_queue [of ?c "[Put [1, 2, 3], Take 3]"] by auto
qed

end
