(* ===== verification/Pressure.thy ===== *)
theory Pressure
  imports Prelude
begin

text \<open>
  Memory pressure accounting, \<^verbatim>\<open>src/kernel/vm/pressure.c\<close>. Two kinds of memory are tracked,
  kernel virtual memory and physical memory; each has a 64-bit free counter that every
  allocation and release goes through. A sleeping thread is a number on a wait queue, and the
  calls of \<^verbatim>\<open>wakeup_waiter\<close> and \<^verbatim>\<open>wakeup\<close> are recorded in \<open>woken\<close>. The operations are
  composed of the pieces their locks make indivisible, and \<open>pr_step\<close> interleaves these pieces;
  in \<open>vm_mem_wait\<close> what other threads do while the caller sleeps is an argument (the states it
  finds when it is woken).
\<close>

subsection \<open>Model\<close>

datatype vm_pressure_t = VM_PR_LOW | VM_PR_MODERATE | VM_PR_HIGH

text \<open>The enumeration constants, in order; pressures are compared as numbers.\<close>

fun pr_num :: "vm_pressure_t \<Rightarrow> nat" where
  "pr_num VM_PR_LOW = 0"
| "pr_num VM_PR_MODERATE = 1"
| "pr_num VM_PR_HIGH = 2"

instantiation vm_pressure_t :: linorder
begin

definition less_eq_vm_pressure_t :: "vm_pressure_t \<Rightarrow> vm_pressure_t \<Rightarrow> bool" where
  "less_eq_vm_pressure_t p q \<longleftrightarrow> pr_num p \<le> pr_num q"

definition less_vm_pressure_t :: "vm_pressure_t \<Rightarrow> vm_pressure_t \<Rightarrow> bool" where
  "less_vm_pressure_t p q \<longleftrightarrow> pr_num p < pr_num q"

instance
proof
  fix p q :: vm_pressure_t
  show "p = q" if "p \<le> q" "q \<le> p"
    using that by (cases p; cases q) (auto simp: less_eq_vm_pressure_t_def)
qed (auto simp: less_eq_vm_pressure_t_def less_vm_pressure_t_def)

end

datatype vm_pr_mem_type = VM_PR_MEM_KERN | VM_PR_MEM_PHYS

fun pr_bit :: "vm_pr_mem_type \<Rightarrow> u8" where
  "pr_bit VM_PR_MEM_KERN = 1"
| "pr_bit VM_PR_MEM_PHYS = 2"

datatype wake_prio = WAKE_KERNEL | WAKE_NORMAL

record vm_pr_mem =
  waitq :: "nat list"
  pr :: vm_pressure_t
  total :: u64
  free :: u64
  threshold :: u64

record vm_pr_wait =
  prw_waiter :: nat
  prw_flags :: u8
  prw_pr :: vm_pressure_t

record pressure_state =
  vm_pr_mem :: "vm_pr_mem_type \<Rightarrow> vm_pr_mem"
  vm_pr_wq :: "vm_pr_wait list"
  woken :: "(nat \<times> wake_prio) list"

definition VM_PR_LOW_PCT :: u64 where "VM_PR_LOW_PCT = 50"
definition VM_PR_MOD_PCT :: u64 where "VM_PR_MOD_PCT = 30"

text \<open>\<open>None\<close> is the division by zero.\<close>

definition vm_calc_pressure :: "u64 \<Rightarrow> u64 \<Rightarrow> vm_pressure_t panicking" where
  "vm_calc_pressure tot fr =
     (if tot = 0 then None
      else let d = (fr * 100) div tot in
        Some (if d \<ge> VM_PR_LOW_PCT then VM_PR_LOW
              else if d \<ge> VM_PR_MOD_PCT then VM_PR_MODERATE
              else VM_PR_HIGH))"

definition vm_pr_wait_done :: "vm_pr_mem_type \<Rightarrow> vm_pr_mem \<Rightarrow> vm_pr_wait \<Rightarrow> bool" where
  "vm_pr_wait_done t mem w \<longleftrightarrow> pr_bit t AND prw_flags w \<noteq> 0 \<and> pr mem \<ge> prw_pr w"

text \<open>
  The part of \<^verbatim>\<open>vm_pressure_wait\<close> under \<^verbatim>\<open>vm_pr_lock\<close>, in its two pieces: the check of the
  levels already reached, and \<^verbatim>\<open>wait_prep\<close>, which takes the lock of the wait queue. Together
  they return at once (\<open>False\<close>) or put the thread on the queue (\<open>True\<close>), where it sleeps
  until it is woken.
\<close>

definition vm_pressure_wait_check :: "vm_pr_wait \<Rightarrow> pressure_state \<Rightarrow> bool panicking" where
  "vm_pressure_wait_check w s = do {
     kassert (prw_flags w \<noteq> 0);
     kassert (prw_pr w > VM_PR_LOW);
     Some (\<exists>t \<in> set [VM_PR_MEM_KERN, VM_PR_MEM_PHYS]. vm_pr_wait_done t (vm_pr_mem s t) w)
   }"

definition vm_pressure_wait_prep :: "vm_pr_wait \<Rightarrow> pressure_state \<Rightarrow> pressure_state" where
  "vm_pressure_wait_prep w s = s\<lparr>vm_pr_wq := vm_pr_wq s @ [w]\<rparr>"

definition vm_pressure_wait ::
    "nat \<Rightarrow> u8 \<Rightarrow> vm_pressure_t \<Rightarrow> pressure_state \<Rightarrow> (bool \<times> pressure_state) panicking" where
  "vm_pressure_wait thr flags p s = do {
     let w = \<lparr>prw_waiter = thr, prw_flags = flags, prw_pr = p\<rparr>;
     reached \<leftarrow> vm_pressure_wait_check w s;
     Some (if reached then (False, s) else (True, vm_pressure_wait_prep w s))
   }"

text \<open>
  \<^verbatim>\<open>vm_pressure_add\<close> in the three pieces between which other threads run: what it computes
  from the counters (the caller holds the lock of the allocator the memory belongs to), the
  update under \<^verbatim>\<open>vm_pr_lock\<close>, and, with \<^verbatim>\<open>vm_pr_lock\<close> released, the scan of the wait queue,
  which \<^verbatim>\<open>waitq_foreach\<close> makes under the queue's own lock.
\<close>

definition vm_pressure_calc ::
    "vm_pr_mem_type \<Rightarrow> u64 \<Rightarrow> pressure_state \<Rightarrow> (vm_pressure_t \<times> bool) panicking" where
  "vm_pressure_calc t d s = do {
     let mem = vm_pr_mem s t;
     kassert (if d <s 0 then free mem \<ge> - d else free mem + d \<le> total mem);
     p \<leftarrow> vm_calc_pressure (total mem) (free mem + d);
     Some (p, p > pr mem)
   }"

definition vm_pressure_update ::
    "vm_pr_mem_type \<Rightarrow> u64 \<Rightarrow> vm_pressure_t \<Rightarrow> pressure_state \<Rightarrow> pressure_state" where
  "vm_pressure_update t d p s =
     (let mem = vm_pr_mem s t
      in s\<lparr>vm_pr_mem := (vm_pr_mem s)(t := mem\<lparr>free := free mem + d, pr := p\<rparr>)\<rparr>)"

definition vm_pressure_wake :: "vm_pr_mem_type \<Rightarrow> bool \<Rightarrow> pressure_state \<Rightarrow> pressure_state" where
  "vm_pressure_wake t incr s =
     (let mem = vm_pr_mem s t in
      if incr then
        s\<lparr>vm_pr_wq := filter (\<lambda>w. \<not> vm_pr_wait_done t mem w) (vm_pr_wq s),
          woken := woken s @ map (\<lambda>w. (prw_waiter w, WAKE_KERNEL))
                     (filter (vm_pr_wait_done t mem) (vm_pr_wq s))\<rparr>
      else if free mem \<ge> threshold mem then
        s\<lparr>vm_pr_mem := (vm_pr_mem s)(t := mem\<lparr>waitq := []\<rparr>),
          woken := woken s @ map (\<lambda>w. (w, WAKE_NORMAL)) (waitq mem)\<rparr>
      else s)"

definition vm_pressure_add :: "vm_pr_mem_type \<Rightarrow> u64 \<Rightarrow> pressure_state \<Rightarrow> pressure_state panicking" where
  "vm_pressure_add t d s = do {
     (p, incr) \<leftarrow> vm_pressure_calc t d s;
     Some (vm_pressure_wake t incr (vm_pressure_update t d p s))
   }"

definition INT64_MAX :: u64 where "INT64_MAX = 0x7FFFFFFFFFFFFFFF"

definition vm_pressure_inc :: "vm_pr_mem_type \<Rightarrow> u64 \<Rightarrow> pressure_state \<Rightarrow> pressure_state panicking" where
  "vm_pressure_inc t n s = do { kassert (n < INT64_MAX); vm_pressure_add t (- n) s }"

definition vm_pressure_dec :: "vm_pr_mem_type \<Rightarrow> u64 \<Rightarrow> pressure_state \<Rightarrow> pressure_state panicking" where
  "vm_pressure_dec t n s = do { kassert (n < INT64_MAX); vm_pressure_add t n s }"

definition vm_mem_get_free :: "vm_pr_mem_type \<Rightarrow> pressure_state \<Rightarrow> u64" where
  "vm_mem_get_free t s = free (vm_pr_mem s t)"

definition vm_mem_wait_p :: "vm_pr_mem_type \<Rightarrow> u64 \<Rightarrow> pressure_state \<Rightarrow> bool" where
  "vm_mem_wait_p t n s \<longleftrightarrow> free (vm_pr_mem s t) < n + threshold (vm_pr_mem s t)"

definition wait_on_mem :: "vm_pr_mem_type \<Rightarrow> nat \<Rightarrow> pressure_state \<Rightarrow> pressure_state" where
  "wait_on_mem t thr s =
     s\<lparr>vm_pr_mem := (vm_pr_mem s)(t := (vm_pr_mem s t)\<lparr>waitq := waitq (vm_pr_mem s t) @ [thr]\<rparr>)\<rparr>"

text \<open>
  \<open>ws\<close> holds, for each sleep, what the rest of the system turns the state into until this
  thread is woken; \<open>None\<close> is a thread that is still asleep when \<open>ws\<close> is used up.
\<close>

fun vm_mem_wait :: "vm_pr_mem_type \<Rightarrow> u64 \<Rightarrow> nat \<Rightarrow> (pressure_state \<Rightarrow> pressure_state) list \<Rightarrow>
    pressure_state \<Rightarrow> pressure_state option" where
  "vm_mem_wait t n thr [] s = (if vm_mem_wait_p t n s then None else Some s)"
| "vm_mem_wait t n thr (w # ws) s =
     (if vm_mem_wait_p t n s then vm_mem_wait t n thr ws (w (wait_on_mem t thr s)) else Some s)"

definition vm_mem_wait_free :: "vm_pr_mem_type \<Rightarrow> nat \<Rightarrow> (pressure_state \<Rightarrow> pressure_state) \<Rightarrow>
    pressure_state \<Rightarrow> pressure_state" where
  "vm_mem_wait_free t thr w s = w (wait_on_mem t thr s)"

definition vm_pressure :: "u8 \<Rightarrow> pressure_state \<Rightarrow> vm_pressure_t panicking" where
  "vm_pressure flags s =
     fold (\<lambda>t acc. do {
         m \<leftarrow> acc;
         if flags AND pr_bit t \<noteq> 0 then do {
           p \<leftarrow> vm_calc_pressure (total (vm_pr_mem s t)) (free (vm_pr_mem s t));
           Some (max m p)
         } else Some m
       }) [VM_PR_MEM_KERN, VM_PR_MEM_PHYS] (Some VM_PR_LOW)"

definition vm_pr_mem_init :: "vm_pr_mem_type \<Rightarrow> u64 \<Rightarrow> u64 \<Rightarrow> pressure_state \<Rightarrow> pressure_state panicking" where
  "vm_pr_mem_init t tot fr s = do {
     p \<leftarrow> vm_calc_pressure tot fr;
     Some (s\<lparr>vm_pr_mem := (vm_pr_mem s)(t :=
       \<lparr>waitq = [], pr = p, total = tot, free = fr, threshold = 0\<rparr>)\<rparr>)
   }"

subsection \<open>Invariant\<close>

text \<open>
  The recorded pressure is the one computed from the counters, the counters are in range, and
  nobody sleeps for a pressure that has been reached.
\<close>

definition pr_mem_ok :: "vm_pr_mem \<Rightarrow> bool" where
  "pr_mem_ok m \<longleftrightarrow> vm_calc_pressure (total m) (free m) = Some (pr m) \<and> free m \<le> total m"

definition no_lost_waiter :: "pressure_state \<Rightarrow> bool" where
  "no_lost_waiter s \<longleftrightarrow> (\<forall>w \<in> set (vm_pr_wq s). \<forall>t. \<not> vm_pr_wait_done t (vm_pr_mem s t) w)"

definition pressure_inv :: "pressure_state \<Rightarrow> bool" where
  "pressure_inv s \<longleftrightarrow> (\<forall>t. pr_mem_ok (vm_pr_mem s t)) \<and> no_lost_waiter s"

lemma vm_calc_pressure_total: "tot \<noteq> 0 \<Longrightarrow> \<exists>p. vm_calc_pressure tot fr = Some p"
  by (simp add: vm_calc_pressure_def Let_def)

lemma calc_pressure_cases:
  "vm_calc_pressure tot fr = Some p \<Longrightarrow> tot \<noteq> 0"
  by (auto simp: vm_calc_pressure_def split: if_splits)

text \<open>What one accounting step does to the counters and to the queues.\<close>

lemmas pressure_add_defs =
  vm_pressure_add_def vm_pressure_calc_def vm_pressure_update_def vm_pressure_wake_def

lemma vm_pressure_add_cases:
  assumes "vm_pressure_add t d s = Some s'"
  obtains p where
    "vm_calc_pressure (total (vm_pr_mem s t)) (free (vm_pr_mem s t) + d) = Some p"
    "free (vm_pr_mem s' t) = free (vm_pr_mem s t) + d" "pr (vm_pr_mem s' t) = p"
    "total (vm_pr_mem s' t) = total (vm_pr_mem s t)"
    "threshold (vm_pr_mem s' t) = threshold (vm_pr_mem s t)"
    "\<And>u. u \<noteq> t \<Longrightarrow> vm_pr_mem s' u = vm_pr_mem s u"
    "if d <s 0 then free (vm_pr_mem s t) \<ge> - d
     else free (vm_pr_mem s t) + d \<le> total (vm_pr_mem s t)"
    "if p > pr (vm_pr_mem s t)
     then vm_pr_wq s' = filter (\<lambda>w. \<not> vm_pr_wait_done t (vm_pr_mem s' t) w) (vm_pr_wq s)
     else vm_pr_wq s' = vm_pr_wq s"
proof -
  from assms obtain p where
    p: "vm_calc_pressure (total (vm_pr_mem s t)) (free (vm_pr_mem s t) + d) = Some p"
    by (auto simp: pressure_add_defs Let_def bind_eq_Some_conv)
  show ?thesis
    using assms p
    by (intro that [of p])
      (auto simp: pressure_add_defs Let_def vm_pr_wait_done_def split: if_splits)
qed

lemma vm_pressure_add_frame:
  assumes "vm_pressure_add t d s = Some s'"
  shows "free (vm_pr_mem s' t) = free (vm_pr_mem s t) + d"
    "total (vm_pr_mem s' t) = total (vm_pr_mem s t)"
    "threshold (vm_pr_mem s' t) = threshold (vm_pr_mem s t)"
    "u \<noteq> t \<Longrightarrow> vm_pr_mem s' u = vm_pr_mem s u"
  by (rule vm_pressure_add_cases [OF assms]; simp)+

lemma wait_done_mono:
  "pr m \<le> pr m' \<Longrightarrow> vm_pr_wait_done t m w \<Longrightarrow> vm_pr_wait_done t m' w"
  by (auto simp: vm_pr_wait_done_def)

lemma word_neg_sub_le: "(a::u64) \<ge> - d \<Longrightarrow> a + d \<le> a"
  by (metis add.commute diff_minus_eq_add word_sub_le)

lemma vm_pressure_add_inv:
  assumes "pressure_inv s" "vm_pressure_add t d s = Some s'"
  shows "pressure_inv s'"
proof (rule vm_pressure_add_cases [OF assms(2)])
  fix p
  assume p: "vm_calc_pressure (total (vm_pr_mem s t)) (free (vm_pr_mem s t) + d) = Some p"
    and new: "free (vm_pr_mem s' t) = free (vm_pr_mem s t) + d" "pr (vm_pr_mem s' t) = p"
      "total (vm_pr_mem s' t) = total (vm_pr_mem s t)"
    and other: "\<And>u. u \<noteq> t \<Longrightarrow> vm_pr_mem s' u = vm_pr_mem s u"
    and guard: "if d <s 0 then free (vm_pr_mem s t) \<ge> - d
      else free (vm_pr_mem s t) + d \<le> total (vm_pr_mem s t)"
    and wq: "if p > pr (vm_pr_mem s t)
      then vm_pr_wq s' = filter (\<lambda>w. \<not> vm_pr_wait_done t (vm_pr_mem s' t) w) (vm_pr_wq s)
      else vm_pr_wq s' = vm_pr_wq s"
  have "free (vm_pr_mem s t) \<le> total (vm_pr_mem s t)"
    using assms(1) by (simp add: pressure_inv_def pr_mem_ok_def)
  then have "free (vm_pr_mem s t) + d \<le> total (vm_pr_mem s t)"
    using guard word_neg_sub_le [of d "free (vm_pr_mem s t)"] by (auto split: if_splits)
  then have "pr_mem_ok (vm_pr_mem s' u)" for u
    using assms(1) other [of u] new p by (cases "u = t") (auto simp: pressure_inv_def pr_mem_ok_def)
  moreover have "no_lost_waiter s'"
    unfolding no_lost_waiter_def
  proof (intro ballI allI)
    fix w u assume w: "w \<in> set (vm_pr_wq s')"
    have old: "\<not> vm_pr_wait_done u (vm_pr_mem s u) w"
      using assms(1) w wq by (auto simp: pressure_inv_def no_lost_waiter_def split: if_splits)
    show "\<not> vm_pr_wait_done u (vm_pr_mem s' u) w"
    proof (cases "u = t \<and> p \<le> pr (vm_pr_mem s t)")
      case True
      with old new(2) show ?thesis by (auto dest: wait_done_mono)
    next
      case False
      with old other [of u] w wq show ?thesis by (cases "u = t") (auto simp: not_le)
    qed
  qed
  ultimately show ?thesis by (simp add: pressure_inv_def)
qed

text \<open>Counters as numbers: an allocation subtracts, a release adds, and neither wraps.\<close>

lemma sless_0_iff: "(x :: 64 word) <s 0 \<longleftrightarrow> 2 ^ 63 \<le> unat x"
proof -
  have "x <s 0 \<longleftrightarrow> bit x 63"
    by (simp add: word_sless_alt sint_uint bit_uint_iff)
  also have "\<dots> \<longleftrightarrow> bit (unat x) 63" by (simp add: bit_unsigned_iff)
  also have "\<dots> \<longleftrightarrow> odd (unat x div 2 ^ 63)" by (simp add: bit_iff_odd)
  also have "\<dots> \<longleftrightarrow> 2 ^ 63 \<le> unat x"
  proof -
    have "unat x < 2 ^ 64" using unsigned_less [of x, where ?'a=nat] by simp
    then have "unat x div 2 ^ 63 < 2" by (simp add: less_mult_imp_div_less)
    then have "unat x div 2 ^ 63 = 0 \<or> unat x div 2 ^ 63 = 1" by linarith
    then show ?thesis by (auto simp: div_eq_0_iff)
  qed
  finally show ?thesis .
qed

lemma neg_sless_0:
  assumes "n \<noteq> 0" "n < INT64_MAX"
  shows "- n <s (0 :: u64)"
proof -
  have n: "unat n < 2 ^ 63" "unat n \<noteq> 0"
    using assms by (auto simp: INT64_MAX_def word_less_nat_alt unat_eq_0)
  then have "unat (0 - n) = 2 ^ 64 - unat n"
    by (subst unat_sub_if') auto
  then show ?thesis using n by (simp add: sless_0_iff)
qed

lemma pos_not_sless_0: "n < INT64_MAX \<Longrightarrow> \<not> (n :: u64) <s 0"
  by (simp add: sless_0_iff INT64_MAX_def word_less_nat_alt)

lemma vm_pressure_add_run:
  assumes "pressure_inv s"
    "if d <s 0 then free (vm_pr_mem s t) \<ge> - d
     else free (vm_pr_mem s t) + d \<le> total (vm_pr_mem s t)"
  shows "\<exists>s'. vm_pressure_add t d s = Some s'"
proof -
  have "total (vm_pr_mem s t) \<noteq> 0"
    using assms(1) calc_pressure_cases by (auto simp: pressure_inv_def pr_mem_ok_def)
  from vm_calc_pressure_total [OF this] obtain p where
    p: "vm_calc_pressure (total (vm_pr_mem s t)) (free (vm_pr_mem s t) + d) = Some p" ..
  have "kassert (if d <s 0 then free (vm_pr_mem s t) \<ge> - d
      else free (vm_pr_mem s t) + d \<le> total (vm_pr_mem s t)) = Some ()"
    unfolding kassert_def using assms(2) by (rule if_P)
  with p show ?thesis unfolding pressure_add_defs Let_def by simp
qed

lemma vm_pressure_inc_ok:
  assumes inv: "pressure_inv s" and n: "n \<le> free (vm_pr_mem s t)" "n < INT64_MAX"
  obtains s' where "vm_pressure_inc t n s = Some s'" "pressure_inv s'"
    "unat (free (vm_pr_mem s' t)) = unat (free (vm_pr_mem s t)) - unat n"
    "total (vm_pr_mem s' t) = total (vm_pr_mem s t)"
    "threshold (vm_pr_mem s' t) = threshold (vm_pr_mem s t)"
    "\<And>u. u \<noteq> t \<Longrightarrow> vm_pr_mem s' u = vm_pr_mem s u"
proof -
  have "if - n <s 0 then free (vm_pr_mem s t) \<ge> - (- n)
      else free (vm_pr_mem s t) + - n \<le> total (vm_pr_mem s t)"
    using n neg_sless_0 [OF _ n(2)] inv
    by (cases "n = 0") (auto simp: pressure_inv_def pr_mem_ok_def)
  from vm_pressure_add_run [OF inv this] obtain s' where s': "vm_pressure_add t (- n) s = Some s'" ..
  show ?thesis
    using s' n unat_sub [OF n(1)] vm_pressure_add_inv [OF inv s']
    by (intro that [of s']) (simp_all add: vm_pressure_inc_def vm_pressure_add_frame [OF s'])
qed

lemma vm_pressure_dec_ok:
  assumes inv: "pressure_inv s" and n: "n < INT64_MAX"
    and room: "unat (free (vm_pr_mem s t)) + unat n \<le> unat (total (vm_pr_mem s t))"
  obtains s' where "vm_pressure_dec t n s = Some s'" "pressure_inv s'"
    "unat (free (vm_pr_mem s' t)) = unat (free (vm_pr_mem s t)) + unat n"
    "total (vm_pr_mem s' t) = total (vm_pr_mem s t)"
    "threshold (vm_pr_mem s' t) = threshold (vm_pr_mem s t)"
    "\<And>u. u \<noteq> t \<Longrightarrow> vm_pr_mem s' u = vm_pr_mem s u"
proof -
  have u: "unat (free (vm_pr_mem s t) + n) = unat (free (vm_pr_mem s t)) + unat n"
    using room unsigned_less [of "total (vm_pr_mem s t)", where ?'a=nat]
    by (subst unat_add_lem [THEN iffD1]) auto
  then have "free (vm_pr_mem s t) + n \<le> total (vm_pr_mem s t)"
    using room by (simp add: word_le_nat_alt)
  then have "if n <s 0 then free (vm_pr_mem s t) \<ge> - n
      else free (vm_pr_mem s t) + n \<le> total (vm_pr_mem s t)"
    using pos_not_sless_0 [OF n] by simp
  from vm_pressure_add_run [OF inv this] obtain s' where s': "vm_pressure_add t n s = Some s'" ..
  show ?thesis
    using s' n u vm_pressure_add_inv [OF inv s']
    by (intro that [of s']) (simp_all add: vm_pressure_dec_def vm_pressure_add_frame [OF s'])
qed

subsection \<open>Interleavings\<close>

text \<open>
  Where a call of \<^verbatim>\<open>vm_pressure_add\<close> stands. There is at most one per kind of memory, because
  its callers hold \<^verbatim>\<open>vmem_lock\<close> or \<^verbatim>\<open>vm_phylock\<close>.
\<close>

datatype add_phase = Idle | Computed u64 vm_pressure_t bool | Updated bool

text \<open>
  \<open>adding\<close> holds the calls of \<^verbatim>\<open>vm_pressure_add\<close> that are under way, \<open>checked\<close> the thread that
  holds \<^verbatim>\<open>vm_pr_lock\<close> between the two pieces of \<^verbatim>\<open>vm_pressure_wait\<close>.
\<close>

record pr_system =
  pr_st :: pressure_state
  adding :: "vm_pr_mem_type \<Rightarrow> add_phase"
  checked :: "vm_pr_wait option"

definition pr_system_start :: "pressure_state \<Rightarrow> pr_system" where
  "pr_system_start s = \<lparr>pr_st = s, adding = (\<lambda>_. Idle), checked = None\<rparr>"

inductive pr_step :: "pr_system \<Rightarrow> pr_system \<Rightarrow> bool" where
  calc: "adding c t = Idle \<Longrightarrow> vm_pressure_calc t d (pr_st c) = Some (p, incr) \<Longrightarrow>
    pr_step c (c\<lparr>adding := (adding c)(t := Computed d p incr)\<rparr>)"
| update: "adding c t = Computed d p incr \<Longrightarrow> checked c = None \<Longrightarrow>
    pr_step c (c\<lparr>pr_st := vm_pressure_update t d p (pr_st c),
                 adding := (adding c)(t := Updated incr)\<rparr>)"
| wake: "adding c t = Updated incr \<Longrightarrow>
    pr_step c (c\<lparr>pr_st := vm_pressure_wake t incr (pr_st c), adding := (adding c)(t := Idle)\<rparr>)"
| check: "checked c = None \<Longrightarrow> vm_pressure_wait_check w (pr_st c) = Some False \<Longrightarrow>
    pr_step c (c\<lparr>checked := Some w\<rparr>)"
| prep: "checked c = Some w \<Longrightarrow>
    pr_step c (c\<lparr>pr_st := vm_pressure_wait_prep w (pr_st c), checked := None\<rparr>)"
| mem_wait: "pr_step c (c\<lparr>pr_st := wait_on_mem t thr (pr_st c)\<rparr>)"

fun phase_ok :: "vm_pr_mem \<Rightarrow> add_phase \<Rightarrow> bool" where
  "phase_ok m (Computed d p incr) \<longleftrightarrow> vm_calc_pressure (total m) (free m + d) = Some p \<and>
     incr = (p > pr m) \<and> free m + d \<le> total m"
| "phase_ok m _ \<longleftrightarrow> True"

definition pr_system_inv :: "pr_system \<Rightarrow> bool" where
  "pr_system_inv c \<longleftrightarrow>
     (\<forall>t. pr_mem_ok (vm_pr_mem (pr_st c) t) \<and> phase_ok (vm_pr_mem (pr_st c) t) (adding c t)) \<and>
     (\<forall>w \<in> set (vm_pr_wq (pr_st c)). \<forall>t.
        vm_pr_wait_done t (vm_pr_mem (pr_st c) t) w \<longrightarrow> adding c t = Updated True) \<and>
     (\<forall>w t. checked c = Some w \<longrightarrow> \<not> vm_pr_wait_done t (vm_pr_mem (pr_st c) t) w)"

lemma pr_system_start_inv: "pressure_inv s \<Longrightarrow> pr_system_inv (pr_system_start s)"
  by (simp add: pressure_inv_def pr_system_inv_def pr_system_start_def no_lost_waiter_def)

lemma calc_phase_ok:
  assumes "pr_mem_ok (vm_pr_mem s t)" "vm_pressure_calc t d s = Some (p, incr)"
  shows "phase_ok (vm_pr_mem s t) (Computed d p incr)"
  using assms word_neg_sub_le [of d "free (vm_pr_mem s t)"]
  by (auto simp: vm_pressure_calc_def Let_def pr_mem_ok_def bind_eq_Some_conv kassert_def
      split: if_splits)

text \<open>The update keeps a waiter that is not served in reach of the scan that follows it.\<close>

lemma update_inv:
  assumes inv: "pr_system_inv c" and ph: "adding c t = Computed d p incr" and ck: "checked c = None"
  shows "pr_system_inv (c\<lparr>pr_st := vm_pressure_update t d p (pr_st c),
      adding := (adding c)(t := Updated incr)\<rparr>)"
proof -
  let ?m = "vm_pr_mem (pr_st c) t"
  have ok: "phase_ok ?m (Computed d p incr)" using inv ph by (metis pr_system_inv_def)
  have "incr" if "w \<in> set (vm_pr_wq (pr_st c))" "vm_pr_wait_done t (?m\<lparr>free := f, pr := p\<rparr>) w" for w f
  proof -
    have "\<not> vm_pr_wait_done t ?m w" using inv ph that(1) by (auto simp: pr_system_inv_def)
    with that(2) ok show ?thesis by (auto simp: vm_pr_wait_done_def)
  qed
  with inv ok ck show ?thesis
    by (auto simp: pr_system_inv_def vm_pressure_update_def Let_def pr_mem_ok_def)
qed

lemma wake_inv:
  assumes inv: "pr_system_inv c" and ph: "adding c t = Updated incr"
  shows "pr_system_inv (c\<lparr>pr_st := vm_pressure_wake t incr (pr_st c), adding := (adding c)(t := Idle)\<rparr>)"
proof (cases incr)
  case True
  with inv show ?thesis by (auto simp: pr_system_inv_def vm_pressure_wake_def Let_def)
next
  case False
  let ?m = "vm_pr_mem (pr_st c) t"
  have "\<not> vm_pr_wait_done t ?m w" if "w \<in> set (vm_pr_wq (pr_st c))" for w
    using inv ph that False by (auto simp: pr_system_inv_def)
  moreover have "vm_pr_wait_done t (?m\<lparr>waitq := q\<rparr>) w = vm_pr_wait_done t ?m w" for q w
    by (simp add: vm_pr_wait_done_def)
  ultimately show ?thesis
    using inv False
    by (auto simp: pr_system_inv_def vm_pressure_wake_def Let_def pr_mem_ok_def)
qed

lemma check_not_done:
  assumes "vm_pressure_wait_check w s = Some False"
  shows "\<not> vm_pr_wait_done t (vm_pr_mem s t) w"
  using assms by (cases t) (auto simp: vm_pressure_wait_check_def kassert_def split: if_splits)

lemma mem_wait_inv:
  assumes "pr_system_inv c"
  shows "pr_system_inv (c\<lparr>pr_st := wait_on_mem t thr (pr_st c)\<rparr>)"
proof -
  let ?s = "wait_on_mem t thr (pr_st c)"
  have "vm_pr_wait_done u (vm_pr_mem ?s u) w = vm_pr_wait_done u (vm_pr_mem (pr_st c) u) w"
    "pr_mem_ok (vm_pr_mem ?s u) = pr_mem_ok (vm_pr_mem (pr_st c) u)"
    "phase_ok (vm_pr_mem ?s u) ph = phase_ok (vm_pr_mem (pr_st c) u) ph" for u w ph
    by (cases ph; simp add: wait_on_mem_def vm_pr_wait_done_def pr_mem_ok_def)+
  with assms show ?thesis by (simp add: pr_system_inv_def) (simp add: wait_on_mem_def)
qed

lemma pr_step_inv: "pr_step c c' \<Longrightarrow> pr_system_inv c \<Longrightarrow> pr_system_inv c'"
proof (induction rule: pr_step.induct)
  case (calc c t d p incr)
  have "phase_ok (vm_pr_mem (pr_st c) t) (Computed d p incr)"
    using calc by (intro calc_phase_ok) (auto simp: pr_system_inv_def)
  with calc show ?case by (auto simp: pr_system_inv_def)
next
  case (check c w)
  then show ?case by (auto simp: pr_system_inv_def dest: check_not_done)
next
  case (prep c w)
  then show ?case by (auto simp: pr_system_inv_def vm_pressure_wait_prep_def)
qed (auto intro: update_inv wake_inv mem_wait_inv)

lemma pr_steps_inv: "pr_step\<^sup>*\<^sup>* c c' \<Longrightarrow> pr_system_inv c \<Longrightarrow> pr_system_inv c'"
  by (induction rule: rtranclp_induct) (auto intro: pr_step_inv)

lemma wake_serves:
  assumes "w \<in> set (vm_pr_wq s)" "vm_pr_wait_done t (vm_pr_mem s t) w"
  shows "(prw_waiter w, WAKE_KERNEL) \<in> set (woken (vm_pressure_wake t True s)) \<and>
    w \<notin> set (vm_pr_wq (vm_pressure_wake t True s))"
  using assms by (auto simp: vm_pressure_wake_def Let_def)

subsection \<open>Properties\<close>

text \<open>C7. In every interleaving of the pieces of \<^verbatim>\<open>vm_pressure_add\<close> (one call per kind of memory at
  a time, as the locks of its callers have it), of \<^verbatim>\<open>vm_pressure_wait\<close> and of the waits for
  memory, the pressure on record is the one the free counter stands for, and a thread is on the
  wait queue for a pressure level that has been reached only as long as the call that raised
  the pressure has released \<^verbatim>\<open>vm_pr_lock\<close> and not yet scanned the queue; that scan then wakes
  the thread and takes it off the queue. So no wakeup is lost.\<close>

theorem pressure_no_lost_wakeup:
  assumes "pressure_inv s" "pr_step\<^sup>*\<^sup>* (pr_system_start s) c"
  shows "vm_calc_pressure (total (vm_pr_mem (pr_st c) t)) (free (vm_pr_mem (pr_st c) t)) =
      Some (pr (vm_pr_mem (pr_st c) t)) \<and>
    (\<forall>w \<in> set (vm_pr_wq (pr_st c)).
       pr_bit t AND prw_flags w \<noteq> 0 \<and> prw_pr w \<le> pr (vm_pr_mem (pr_st c) t) \<longrightarrow>
       adding c t = Updated True \<and>
       (prw_waiter w, WAKE_KERNEL) \<in> set (woken (vm_pressure_wake t True (pr_st c))) \<and>
       w \<notin> set (vm_pr_wq (vm_pressure_wake t True (pr_st c))))"
proof -
  have inv: "pr_system_inv c"
    using pr_steps_inv [OF assms(2)] pr_system_start_inv [OF assms(1)] by blast
  then have "adding c t = Updated True"
    if "w \<in> set (vm_pr_wq (pr_st c))" "vm_pr_wait_done t (vm_pr_mem (pr_st c) t) w" for w
    using that by (auto simp: pr_system_inv_def)
  with inv wake_serves [of _ "pr_st c" t] show ?thesis
    by (auto simp: pr_system_inv_def pr_mem_ok_def vm_pr_wait_done_def)
qed

definition pressure_example :: pressure_state where
  "pressure_example =
     \<lparr>vm_pr_mem = (\<lambda>_. \<lparr>waitq = [], pr = VM_PR_LOW, total = 100, free = 60, threshold = 0\<rparr>),
      vm_pr_wq = [\<lparr>prw_waiter = 7, prw_flags = 2, prw_pr = VM_PR_HIGH\<rparr>,
                  \<lparr>prw_waiter = 8, prw_flags = 2, prw_pr = VM_PR_MODERATE\<rparr>],
      woken = []\<rparr>"

theorem pressure_no_lost_wakeup_witness:
  "\<exists>c. pr_step\<^sup>*\<^sup>* (pr_system_start pressure_example) c \<and>
     adding c VM_PR_MEM_PHYS = Updated True \<and>
     pr (vm_pr_mem (pr_st c) VM_PR_MEM_PHYS) = VM_PR_MODERATE \<and>
     \<lparr>prw_waiter = 8, prw_flags = 2, prw_pr = VM_PR_MODERATE\<rparr> \<in> set (vm_pr_wq (pr_st c)) \<and>
     (8, WAKE_KERNEL) \<in> set (woken (vm_pressure_wake VM_PR_MEM_PHYS True (pr_st c)))"
proof -
  let ?c = "pr_system_start pressure_example"
  let ?c1 = "?c\<lparr>adding := (adding ?c)(VM_PR_MEM_PHYS := Computed (- 20) VM_PR_MODERATE True)\<rparr>"
  let ?c2 = "?c1\<lparr>pr_st := vm_pressure_update VM_PR_MEM_PHYS (- 20) VM_PR_MODERATE (pr_st ?c1),
      adding := (adding ?c1)(VM_PR_MEM_PHYS := Updated True)\<rparr>"
  have inv: "pressure_inv pressure_example"
    by (simp add: pressure_inv_def pr_mem_ok_def no_lost_waiter_def pressure_example_def
        vm_pr_wait_done_def vm_calc_pressure_def VM_PR_LOW_PCT_def less_eq_vm_pressure_t_def)
  have calc: "vm_pressure_calc VM_PR_MEM_PHYS (- 20) pressure_example = Some (VM_PR_MODERATE, True)"
    by (simp add: vm_pressure_calc_def Let_def pressure_example_def vm_calc_pressure_def
        VM_PR_LOW_PCT_def VM_PR_MOD_PCT_def less_vm_pressure_t_def kassert_def word_sless_alt)
  have "pr_step ?c ?c1"
    by (rule pr_step.calc) (simp_all add: pr_system_start_def calc)
  moreover have "pr_step ?c1 ?c2"
    by (rule pr_step.update) (simp_all add: pr_system_start_def)
  ultimately have steps: "pr_step\<^sup>*\<^sup>* ?c ?c2"
    by (meson converse_rtranclp_into_rtranclp r_into_rtranclp)
  have q: "\<lparr>prw_waiter = 8, prw_flags = 2, prw_pr = VM_PR_MODERATE\<rparr> \<in> set (vm_pr_wq (pr_st ?c2))"
    "pr (vm_pr_mem (pr_st ?c2) VM_PR_MEM_PHYS) = VM_PR_MODERATE"
    by (simp_all add: pr_system_start_def pressure_example_def vm_pressure_update_def Let_def)
  have "(8, WAKE_KERNEL) \<in> set (woken (vm_pressure_wake VM_PR_MEM_PHYS True (pr_st ?c2)))"
    using pressure_no_lost_wakeup [OF inv steps, of VM_PR_MEM_PHYS] q by fastforce
  with steps q show ?thesis by (intro exI [of _ ?c2]) simp
qed

end
