(* ===== verification/Buddy.thy ===== *)
theory Buddy
  imports Prelude
begin

text \<open>
  The block structure a buddy allocator keeps, independent of how pages and free lists are
  represented. \<open>D\<close> is the set of pages, a page is a segment number and an index, \<open>start sg\<close>
  is the first frame of a segment, \<open>o r\<close> is the order of the page (255 inside a block) and
  \<open>f r\<close> says that the block of \<open>r\<close> is free. The four steps (take, split, merge, release) are
  the steps of \<^verbatim>\<open>vm_page_alloc_order\<close> and \<^verbatim>\<open>vm_page_free\<close>.
\<close>

datatype pgref = PgRef (pseg: nat) (pidx: nat)

definition blk :: "pgref \<Rightarrow> nat \<Rightarrow> pgref set" where
  "blk r k = PgRef (pseg r) ` {pidx r ..< pidx r + 2 ^ k}"

definition frame_of :: "(nat \<Rightarrow> nat) \<Rightarrow> pgref \<Rightarrow> nat" where
  "frame_of start r = start (pseg r) + pidx r"

definition buddy_of :: "nat \<Rightarrow> nat \<Rightarrow> nat" where
  "buddy_of k a = (if even (a div 2 ^ k) then a + 2 ^ k else a - 2 ^ k)"

definition upper :: "pgref \<Rightarrow> nat \<Rightarrow> pgref" where
  "upper r k = PgRef (pseg r) (pidx r + 2 ^ k)"

definition blocks_wf :: "(nat \<Rightarrow> nat) \<Rightarrow> pgref set \<Rightarrow> (pgref \<Rightarrow> nat) \<Rightarrow> bool" where
  "blocks_wf start D ord \<longleftrightarrow>
     (\<forall>r. ord r \<le> 10 \<or> ord r = 255) \<and>
     (\<forall>r. ord r \<le> 10 \<longrightarrow> 2 ^ ord r dvd frame_of start r \<and> blk r (ord r) \<subseteq> D \<and>
        (\<forall>r' \<in> blk r (ord r). r' \<noteq> r \<longrightarrow> ord r' = 255)) \<and>
     (\<forall>r \<in> D. \<exists>h. ord h \<le> 10 \<and> r \<in> blk h (ord h))"

text \<open>No two buddies of the same order are both free: blocks are merged as far as possible.\<close>

definition coalesced :: "(nat \<Rightarrow> nat) \<Rightarrow> (pgref \<Rightarrow> nat) \<Rightarrow> (pgref \<Rightarrow> bool) \<Rightarrow> bool" where
  "coalesced start ord f \<longleftrightarrow>
     (\<forall>r b. f r \<and> f b \<and> ord b = ord r \<and> ord r < 10 \<and> pseg b = pseg r \<longrightarrow>
        frame_of start b \<noteq> buddy_of (ord r) (frame_of start r))"

definition buddy_wf :: "(nat \<Rightarrow> nat) \<Rightarrow> pgref set \<Rightarrow> (pgref \<Rightarrow> nat) \<Rightarrow> (pgref \<Rightarrow> bool) \<Rightarrow> bool" where
  "buddy_wf start D ord f \<longleftrightarrow>
     blocks_wf start D ord \<and> (\<forall>r. f r \<longrightarrow> ord r \<le> 10) \<and> coalesced start ord f"

definition free_frames :: "(pgref \<Rightarrow> nat) \<Rightarrow> (pgref \<Rightarrow> bool) \<Rightarrow> pgref set" where
  "free_frames ord f = (\<Union>r \<in> {r. f r}. blk r (ord r))"

subsection \<open>Arithmetic of buddies\<close>

lemma mem_blk: "x \<in> blk r k \<longleftrightarrow> pseg x = pseg r \<and> pidx r \<le> pidx x \<and> pidx x < pidx r + 2 ^ k"
  by (cases x) (auto simp: blk_def)

lemma pgref_eq_iff: "r = r' \<longleftrightarrow> pseg r = pseg r' \<and> pidx r = pidx r'"
  by (cases r; cases r') simp

lemma blk_self [simp]: "r \<in> blk r k"
  by (simp add: mem_blk)

lemma finite_blk [simp]: "finite (blk r k)"
  by (simp add: blk_def)

lemma card_blk [simp]: "card (blk r k) = 2 ^ k"
  by (simp add: blk_def card_image inj_on_def)

lemma upper_simps [simp]: "pseg (upper r k) = pseg r" "pidx (upper r k) = pidx r + 2 ^ k"
  by (simp_all add: upper_def)

lemma upper_neq [simp]: "upper r k \<noteq> r" "r \<noteq> upper r k"
  by (simp_all add: upper_def pgref_eq_iff)

lemma blk_Suc: "blk r (Suc k) = blk r k \<union> blk (upper r k) k"
  by (auto simp: mem_blk upper_def)

lemma blk_upper_disjoint: "blk r k \<inter> blk (upper r k) k = {}"
  by (auto simp: mem_blk upper_def)

lemma upper_notin [simp]: "r \<notin> blk (upper r k) k" "upper r k \<notin> blk r k"
  by (simp_all add: mem_blk)

lemma frame_upper [simp]: "frame_of start (upper r k) = frame_of start r + 2 ^ k"
  by (simp add: frame_of_def)

lemma frame_inj: "pseg r = pseg r' \<Longrightarrow> frame_of start r = frame_of start r' \<Longrightarrow> r = r'"
  by (simp add: frame_of_def pgref_eq_iff)

lemma buddy_even: "2 ^ Suc k dvd a \<Longrightarrow> buddy_of k a = a + 2 ^ k"
  by (auto simp: buddy_of_def elim!: dvdE)

lemma buddy_odd:
  assumes "2 ^ Suc k dvd a"
  shows "buddy_of k (a + 2 ^ k) = a"
proof -
  from assms obtain q where "a = 2 ^ k * (2 * q)" by (auto elim!: dvdE)
  then have "(a + 2 ^ k) div 2 ^ k = 2 * q + 1" by simp
  then show ?thesis by (simp add: buddy_of_def)
qed

lemma buddy_cases:
  assumes "2 ^ k dvd (a::nat)"
  obtains "2 ^ Suc k dvd a" | a' where "a = a' + 2 ^ k" "2 ^ Suc k dvd a'"
proof -
  from assms obtain q where q: "a = 2 ^ k * q" by (auto elim: dvdE)
  show ?thesis
  proof (cases "even q")
    case True
    with q that(1) show ?thesis by (auto elim!: evenE)
  next
    case False
    then obtain m where "q = 2 * m + 1" by (auto elim: oddE)
    with q that(2) [of "2 ^ Suc k * m"] show ?thesis by (simp add: algebra_simps)
  qed
qed

lemma buddy_involution: "2 ^ k dvd a \<Longrightarrow> buddy_of k (buddy_of k a) = a"
  by (erule buddy_cases) (simp_all add: buddy_even buddy_odd)

lemma buddy_dvd: "2 ^ k dvd a \<Longrightarrow> 2 ^ k dvd buddy_of k a"
  by (erule buddy_cases) (auto simp: buddy_even buddy_odd intro: dvd_add dest: dvd_mult_left)

text \<open>The first frame of a pair of buddies is the frame with the low bits cleared.\<close>

lemma buddy_parent:
  assumes "2 ^ k dvd a"
  shows "buddy_of k a div 2 ^ Suc k * 2 ^ Suc k = min a (buddy_of k a)"
  using assms
proof (cases rule: buddy_cases)
  case 1
  then obtain q where "a = 2 ^ Suc k * q" by (auto elim: dvdE)
  moreover have "(2 ^ Suc k * q + 2 ^ k) div 2 ^ Suc k = q"
    by (simp add: div_nat_eqI)
  ultimately show ?thesis using 1 by (simp add: buddy_even mult.commute)
next
  case (2 a')
  then show ?thesis by (simp add: buddy_odd dvd_div_mult_self)
qed

subsection \<open>Blocks are disjoint and cover the pages\<close>

lemma blocks_wfD:
  assumes "blocks_wf start D ord"
  shows "ord r \<le> 10 \<or> ord r = 255"
    and "ord r \<le> 10 \<Longrightarrow> 2 ^ ord r dvd frame_of start r"
    and "ord r \<le> 10 \<Longrightarrow> blk r (ord r) \<subseteq> D"
    and "ord r \<le> 10 \<Longrightarrow> r' \<in> blk r (ord r) \<Longrightarrow> r' \<noteq> r \<Longrightarrow> ord r' = 255"
    and "r \<in> D \<Longrightarrow> \<exists>h. ord h \<le> 10 \<and> r \<in> blk h (ord h)"
  using assms unfolding blocks_wf_def by blast+

lemma head_in_D: "blocks_wf start D ord \<Longrightarrow> ord r \<le> 10 \<Longrightarrow> r \<in> D"
  using blocks_wfD(3) blk_self by blast

lemma blocks_disjoint:
  assumes "blocks_wf start D ord" "ord r \<le> 10" "ord r' \<le> 10" "r \<noteq> r'"
  shows "blk r (ord r) \<inter> blk r' (ord r') = {}"
proof (rule ccontr)
  assume "blk r (ord r) \<inter> blk r' (ord r') \<noteq> {}"
  then obtain x where x: "x \<in> blk r (ord r)" "x \<in> blk r' (ord r')" by blast
  then have "pseg r = pseg r'" "pidx r \<le> pidx x" "pidx x < pidx r + 2 ^ ord r"
      "pidx r' \<le> pidx x" "pidx x < pidx r' + 2 ^ ord r'"
    by (simp_all add: mem_blk)
  then have "r' \<in> blk r (ord r) \<or> r \<in> blk r' (ord r')"
    unfolding mem_blk by (simp, linarith)
  then have "ord r = 255 \<or> ord r' = 255"
    using blocks_wfD(4) [OF assms(1,2), of r'] blocks_wfD(4) [OF assms(1,3), of r] assms(4) by metis
  with assms(2,3) show False by presburger
qed

lemma free_frames_subset:
  "buddy_wf start D ord f \<Longrightarrow> free_frames ord f \<subseteq> D"
  by (auto simp: free_frames_def buddy_wf_def dest: blocks_wfD(3))

lemma free_frames_outside:
  assumes "buddy_wf start D ord f" "ord r \<le> 10" "\<not> f r"
  shows "blk r (ord r) \<inter> free_frames ord f = {}"
proof -
  have "blk r (ord r) \<inter> blk x (ord x) = {}" if "f x" for x
    using assms that by (intro blocks_disjoint) (auto simp: buddy_wf_def)
  then show ?thesis by (auto simp: free_frames_def)
qed

subsection \<open>The steps\<close>

text \<open>Take a free block from its list.\<close>

lemma take_wf: "buddy_wf start D ord f \<Longrightarrow> buddy_wf start D ord (f(r := False))"
  by (auto simp: buddy_wf_def coalesced_def)

lemma take_frames:
  assumes "buddy_wf start D ord f" "f r"
  shows "free_frames ord (f(r := False)) = free_frames ord f - blk r (ord r)"
proof -
  have "blk r' (ord r') \<inter> blk r (ord r) = {}" if "f r'" "r' \<noteq> r" for r'
    using assms that by (intro blocks_disjoint) (auto simp: buddy_wf_def)
  moreover have "free_frames ord f = blk r (ord r) \<union> free_frames ord (f(r := False))"
    using assms(2) by (auto simp: free_frames_def split: if_splits)
  ultimately show ?thesis by (auto simp: free_frames_def split: if_splits)
qed

text \<open>Split an allocated block; its upper half becomes free.\<close>

lemma split_blocks:
  assumes wf: "blocks_wf start D ord" and r: "ord r = Suc k" "Suc k \<le> 10"
  shows "blocks_wf start D (ord(r := k, upper r k := k))"
proof -
  let ?b = "upper r k" and ?ord = "ord(r := k, upper r k := k)"
  note W = blocks_wfD [OF wf]
  have b: "ord ?b = 255" "?b \<in> blk r (Suc k)"
    using W(4) [of r ?b] r by (auto simp: blk_Suc)
  have al: "2 ^ Suc k dvd frame_of start r" using W(2) [of r] r by simp
  have sub: "blk r k \<subseteq> D" "blk ?b k \<subseteq> D" using W(3) [of r] r by (auto simp: blk_Suc)
  have inner: "ord x = 255" if "x \<in> blk r k \<union> blk ?b k" "x \<noteq> r" for x
    using W(4) [of r x] r that by (auto simp: blk_Suc)
  have not_in: "?b \<notin> blk x (ord x)" "r \<notin> blk x (ord x)" if "ord x \<le> 10" "x \<noteq> r" for x
    using blocks_disjoint [OF wf that(1), of r] that r b(2) by auto
  have "2 ^ ?ord x dvd frame_of start x \<and> blk x (?ord x) \<subseteq> D \<and>
      (\<forall>y \<in> blk x (?ord x). y \<noteq> x \<longrightarrow> ?ord y = 255)" if "?ord x \<le> 10" for x
  proof -
    consider "x = r" | "x = ?b" | "x \<noteq> r" "x \<noteq> ?b" by blast
    then show ?thesis
    proof cases
      case 1
      with al sub inner blk_upper_disjoint [of r k] blk_self [of ?b k] show ?thesis
        by (auto dest: dvd_mult_left)
    next
      case 2
      with al sub inner blk_upper_disjoint [of r k] blk_self [of r k] show ?thesis
        by (auto intro: dvd_add dest: dvd_mult_left)
    next
      case 3
      then have x: "?ord x = ord x" "ord x \<le> 10" using that by auto
      have "?ord y = 255" if y: "y \<in> blk x (ord x)" "y \<noteq> x" for y
      proof -
        have "y \<noteq> r" "y \<noteq> ?b" using y(1) not_in [OF x(2) 3(1)] by auto
        then show ?thesis using W(4) [OF x(2) y] by simp
      qed
      then show ?thesis unfolding x(1) using W(2,3) [OF x(2)] by blast
    qed
  qed
  moreover have "\<exists>h. ?ord h \<le> 10 \<and> x \<in> blk h (?ord h)" if x: "x \<in> D" for x
  proof -
    obtain h where h: "ord h \<le> 10" "x \<in> blk h (ord h)" using W(5) [OF x] by blast
    show ?thesis
    proof (cases "h = r")
      case True
      with h r have "x \<in> blk r k \<or> x \<in> blk ?b k" by (auto simp: blk_Suc)
      with r show ?thesis by (elim disjE) (auto intro: exI [of _ r] exI [of _ ?b])
    next
      case False
      with h b show ?thesis by (intro exI [of _ h]) auto
    qed
  qed
  moreover have "?ord x \<le> 10 \<or> ?ord x = 255" for x
    using W(1) [of x] r by auto
  ultimately show ?thesis
    unfolding blocks_wf_def by blast
qed

lemma upper_of_block:
  assumes "blocks_wf start D ord" "ord r = Suc k" "Suc k \<le> 10"
  shows "ord (upper r k) = 255"
  using blocks_wfD(4) [OF assms(1), of r "upper r k"] assms(2,3) by (simp add: blk_Suc)

lemma split_wf:
  assumes wf: "buddy_wf start D ord f" and r: "ord r = Suc k" "Suc k \<le> 10" "\<not> f r"
  shows "buddy_wf start D (ord(r := k, upper r k := k)) (f(upper r k := True))"
proof -
  let ?b = "upper r k" and ?ord = "ord(r := k, upper r k := k)" and ?f = "f(upper r k := True)"
  have blocks: "blocks_wf start D ord" using wf by (simp add: buddy_wf_def)
  note b = upper_of_block [OF blocks r(1,2)]
  have al: "2 ^ Suc k dvd frame_of start r" using blocks_wfD(2) [OF blocks, of r] r by simp
  have fb: "\<not> f ?b" using wf b by (auto simp: buddy_wf_def)
  have "coalesced start ?ord ?f"
    unfolding coalesced_def
  proof (intro allI impI)
    fix x y
    assume xy: "?f x \<and> ?f y \<and> ?ord y = ?ord x \<and> ?ord x < 10 \<and> pseg y = pseg x"
    then have ne: "x \<noteq> r" "y \<noteq> r" using r(3) by (auto split: if_splits)
    consider "x = ?b" | "y = ?b" "x \<noteq> ?b" | "x \<noteq> ?b" "y \<noteq> ?b" by blast
    then show "frame_of start y \<noteq> buddy_of (?ord x) (frame_of start x)"
    proof cases
      case 1
      then show ?thesis using al ne xy by (auto simp: buddy_odd dest: frame_inj)
    next
      case 2
      show ?thesis
      proof
        assume "frame_of start y = buddy_of (?ord x) (frame_of start x)"
        moreover have "2 ^ k dvd frame_of start x"
          using xy 2 ne wf blocks_wfD(2) [OF blocks, of x] by (auto simp: buddy_wf_def)
        ultimately have "frame_of start x = buddy_of k (frame_of start y)"
          using xy 2 ne by (simp add: buddy_involution)
        then show False using al ne xy 2 frame_inj [of x r start] by (auto simp: buddy_odd)
      qed
    next
      case 3
      with xy ne wf show ?thesis by (simp add: buddy_wf_def coalesced_def)
    qed
  qed
  with split_blocks [OF blocks r(1,2)] wf r show ?thesis
    by (auto simp: buddy_wf_def)
qed

lemma split_frames:
  assumes wf: "buddy_wf start D ord f" and r: "ord r = Suc k" "Suc k \<le> 10" "\<not> f r"
  shows "free_frames (ord(r := k, upper r k := k)) (f(upper r k := True)) =
    free_frames ord f \<union> blk (upper r k) k"
proof -
  have "\<not> f (upper r k)"
    using wf upper_of_block [of start D ord r k] r by (auto simp: buddy_wf_def)
  then have "{x. (f(upper r k := True)) x} = insert (upper r k) {x. f x}"
    "\<And>x. f x \<Longrightarrow> (ord(r := k, upper r k := k)) x = ord x"
    using r(3) by auto
  then show ?thesis by (auto simp: free_frames_def)
qed

text \<open>Merge two buddies, both of them taken; \<open>r\<close> is the lower one.\<close>

lemma merge_blocks:
  assumes wf: "blocks_wf start D ord" and k: "k < 10" "ord r = k" "ord (upper r k) = k"
    and al: "2 ^ Suc k dvd frame_of start r"
  shows "blocks_wf start D (ord(upper r k := 255, r := Suc k))"
proof -
  let ?b = "upper r k" and ?ord = "ord(upper r k := 255, r := Suc k)"
  note W = blocks_wfD [OF wf]
  have sub: "blk r (Suc k) \<subseteq> D"
    using W(3) [of r] W(3) [of ?b] k by (auto simp: blk_Suc)
  have inner: "?ord x = 255" if "x \<in> blk r (Suc k)" "x \<noteq> r" for x
    using W(4) [of r x] W(4) [of ?b x] k that by (auto simp: blk_Suc)
  have not_r: "r \<notin> blk x (ord x)" if "ord x \<le> 10" "x \<noteq> r" for x
    using blocks_disjoint [OF wf that(1), of r] that k by auto
  have "2 ^ ?ord x dvd frame_of start x \<and> blk x (?ord x) \<subseteq> D \<and>
      (\<forall>y \<in> blk x (?ord x). y \<noteq> x \<longrightarrow> ?ord y = 255)" if "?ord x \<le> 10" for x
  proof (cases "x = r")
    case True
    with al sub inner show ?thesis by simp
  next
    case False
    with that have x: "ord x \<le> 10" "x \<noteq> ?b" by (auto split: if_splits)
    have "?ord y = 255" if y: "y \<in> blk x (ord x)" "y \<noteq> x" for y
      using W(4) [OF x(1) y] y(1) not_r [OF x(1) False] by auto
    moreover have "?ord x = ord x" using x False by simp
    ultimately show ?thesis using W(2,3) [OF x(1)] by simp
  qed
  moreover have "\<exists>h. ?ord h \<le> 10 \<and> x \<in> blk h (?ord h)" if x: "x \<in> D" for x
  proof -
    obtain h where h: "ord h \<le> 10" "x \<in> blk h (ord h)" using W(5) [OF x] by blast
    show ?thesis
    proof (cases "h = r \<or> h = ?b")
      case True
      with h k have "x \<in> blk r (Suc k)" by (auto simp: blk_Suc)
      with k show ?thesis by (intro exI [of _ r]) auto
    next
      case False
      with h show ?thesis by (intro exI [of _ h]) auto
    qed
  qed
  moreover have "?ord x \<le> 10 \<or> ?ord x = 255" for x
    using W(1) [of x] k by auto
  ultimately show ?thesis
    unfolding blocks_wf_def by blast
qed

lemma merge_wf:
  assumes wf: "buddy_wf start D ord f" and k: "k < 10" "ord r = k" "ord (upper r k) = k"
    and al: "2 ^ Suc k dvd frame_of start r" and f: "\<not> f r" "\<not> f (upper r k)"
  shows "buddy_wf start D (ord(upper r k := 255, r := Suc k)) f"
proof -
  have "coalesced start (ord(upper r k := 255, r := Suc k)) f"
    unfolding coalesced_def
  proof (intro allI impI)
    fix x y
    assume xy: "f x \<and> f y \<and> (ord(upper r k := 255, r := Suc k)) y =
      (ord(upper r k := 255, r := Suc k)) x \<and> (ord(upper r k := 255, r := Suc k)) x < 10 \<and>
      pseg y = pseg x"
    then have "x \<noteq> r" "y \<noteq> r" "x \<noteq> upper r k" "y \<noteq> upper r k" using f by auto
    with xy wf show "frame_of start y \<noteq>
        buddy_of ((ord(upper r k := 255, r := Suc k)) x) (frame_of start x)"
      by (simp add: buddy_wf_def coalesced_def)
  qed
  moreover have "blocks_wf start D (ord(upper r k := 255, r := Suc k))"
    using wf k al by (intro merge_blocks) (auto simp: buddy_wf_def)
  ultimately show ?thesis using wf f by (auto simp: buddy_wf_def)
qed

lemma merge_frames:
  "\<not> f r \<Longrightarrow> \<not> f (upper r k) \<Longrightarrow>
   free_frames (ord(upper r k := 255, r := n)) f = free_frames ord f"
  by (auto simp: free_frames_def split: if_splits)

text \<open>Release a taken block whose buddy is not a free block of the same order.\<close>

lemma release_wf:
  assumes wf: "buddy_wf start D ord f" and r: "ord r \<le> 10"
    and no_buddy: "ord r = 10 \<or> (\<forall>b. f b \<and> ord b = ord r \<and> pseg b = pseg r \<longrightarrow>
      frame_of start b \<noteq> buddy_of (ord r) (frame_of start r))"
  shows "buddy_wf start D ord (f(r := True))"
proof -
  have al: "2 ^ ord x dvd frame_of start x" if "ord x \<le> 10" for x
    using wf that blocks_wfD(2) by (auto simp: buddy_wf_def)
  have "coalesced start ord (f(r := True))"
    unfolding coalesced_def
  proof (intro allI impI)
    fix x y
    assume xy: "(f(r := True)) x \<and> (f(r := True)) y \<and> ord y = ord x \<and> ord x < 10 \<and> pseg y = pseg x"
    have self: "buddy_of k a \<noteq> a" if "2 ^ k dvd a" for k a :: nat
      using that by (cases rule: buddy_cases) (auto simp: buddy_even buddy_odd)
    consider "x = r" "y = r" | "x = r" "y \<noteq> r" | "x \<noteq> r" "y = r" | "x \<noteq> r" "y \<noteq> r" by blast
    then show "frame_of start y \<noteq> buddy_of (ord x) (frame_of start x)"
    proof cases
      case 1
      with self [OF al [OF r]] show ?thesis by simp
    next
      case 2
      with no_buddy xy show ?thesis by auto
    next
      case 3
      have "frame_of start x \<noteq> buddy_of (ord r) (frame_of start r)"
        using no_buddy xy 3 by auto
      moreover have "2 ^ ord r dvd frame_of start x" using al [of x] xy 3 by simp
      ultimately show ?thesis using 3 xy by (auto simp: buddy_involution)
    next
      case 4
      with wf xy show ?thesis by (simp add: buddy_wf_def coalesced_def)
    qed
  qed
  with wf r show ?thesis by (auto simp: buddy_wf_def)
qed

lemma release_frames:
  "free_frames ord (f(r := True)) = free_frames ord f \<union> blk r (ord r)"
  by (auto simp: free_frames_def split: if_splits)

text \<open>Pages of a new segment enter the structure as allocated blocks of one frame.\<close>

lemma blocks_extend:
  assumes wf: "blocks_wf start D ord" and N: "N \<inter> D = {}"
    and ord': "\<And>r. r \<in> N \<Longrightarrow> ord' r = 0" "\<And>r. r \<notin> N \<Longrightarrow> ord' r = ord r"
  shows "blocks_wf start (D \<union> N) ord'"
proof -
  note W = blocks_wfD [OF wf]
  have one: "blk r 0 = {r}" for r by (auto simp: mem_blk pgref_eq_iff)
  have "2 ^ ord' r dvd frame_of start r \<and> blk r (ord' r) \<subseteq> D \<union> N \<and>
      (\<forall>x \<in> blk r (ord' r). x \<noteq> r \<longrightarrow> ord' x = 255)" if "ord' r \<le> 10" for r
  proof (cases "r \<in> N")
    case True
    then show ?thesis using one ord' by auto
  next
    case False
    then have r: "ord' r = ord r" "ord r \<le> 10" using ord'(2) that by auto
    have "ord' x = 255" if x: "x \<in> blk r (ord r)" "x \<noteq> r" for x
    proof -
      have "x \<notin> N" using W(3) [OF r(2)] x(1) N by blast
      then show ?thesis using ord'(2) W(4) [OF r(2) x] by simp
    qed
    then show ?thesis unfolding r(1) using W(2,3) [OF r(2)] by blast
  qed
  moreover have "\<exists>h. ord' h \<le> 10 \<and> r \<in> blk h (ord' h)" if "r \<in> D \<union> N" for r
  proof (cases "r \<in> N")
    case True
    then show ?thesis using ord'(1) by (intro exI [of _ r]) simp
  next
    case False
    with that obtain h where h: "ord h \<le> 10" "r \<in> blk h (ord h)" using W(5) by blast
    then have "h \<notin> N" using W(3) [OF h(1)] N blk_self by blast
    with h ord'(2) show ?thesis by (intro exI [of _ h]) simp
  qed
  moreover have "ord' r \<le> 10 \<or> ord' r = 255" for r
    using W(1) [of r] ord'(1,2) [of r] by (cases "r \<in> N") auto
  ultimately show ?thesis unfolding blocks_wf_def by blast
qed

lemma buddy_extend:
  assumes wf: "buddy_wf start D ord f" and N: "N \<inter> D = {}"
    and ord': "\<And>r. r \<in> N \<Longrightarrow> ord' r = 0" "\<And>r. r \<notin> N \<Longrightarrow> ord' r = ord r"
  shows "buddy_wf start (D \<union> N) ord' f"
proof -
  have blocks: "blocks_wf start D ord" using wf by (simp add: buddy_wf_def)
  have f: "r \<notin> N" if "f r" for r
  proof -
    have "ord r \<le> 10" using wf that by (simp add: buddy_wf_def)
    then show ?thesis using head_in_D [OF blocks] N by blast
  qed
  have "ord' r = ord r" if "f r" for r using f [OF that] ord'(2) by simp
  then have "coalesced start ord' f"
    using wf unfolding buddy_wf_def coalesced_def by metis
  moreover have "blocks_wf start (D \<union> N) ord'"
    using blocks_extend [OF blocks N ord'] .
  ultimately show ?thesis using wf f ord'(2) by (simp add: buddy_wf_def)
qed

subsection \<open>Free memory is never split without need\<close>

text \<open>
  An aligned region of free frames always lies in one free block: merging on every release
  leaves no fragmentation that the buddy scheme could avoid.
\<close>

lemma aligned_nested:
  assumes "2 ^ j dvd frame_of start r" "2 ^ k dvd frame_of start h" "j \<le> k" "x \<in> blk r j" "x \<in> blk h k"
  shows "blk r j \<subseteq> blk h k"
proof -
  have seg: "pseg r = pseg h" using assms(4,5) by (simp add: mem_blk)
  have "(2::nat) ^ j dvd 2 ^ k" using assms(3) by (rule le_imp_power_dvd)
  then have "2 ^ j dvd frame_of start h" using assms(2) by (rule dvd_trans)
  then obtain a b c where abc: "frame_of start r = 2 ^ j * a" "frame_of start h = 2 ^ j * b"
      "(2::nat) ^ k = 2 ^ j * c"
    using assms(1) \<open>2 ^ j dvd 2 ^ k\<close> by (metis dvdE)
  have x: "2 ^ j * a \<le> start (pseg h) + pidx x" "start (pseg h) + pidx x < 2 ^ j * (a + 1)"
      "2 ^ j * b \<le> start (pseg h) + pidx x" "start (pseg h) + pidx x < 2 ^ j * (b + c)"
    using assms(4,5) abc seg by (auto simp: mem_blk frame_of_def algebra_simps)
  have "2 ^ j * b < 2 ^ j * (a + 1)" "2 ^ j * a < 2 ^ j * (b + c)" using x by linarith+
  then have "b < a + 1" "a < b + c" unfolding mult_less_cancel1 by blast+
  then have "2 ^ j * b \<le> 2 ^ j * a" "2 ^ j * (a + 1) \<le> 2 ^ j * (b + c)"
    by (intro mult_le_mono2; simp)+
  then have "frame_of start h \<le> frame_of start r" "frame_of start r + 2 ^ j \<le> frame_of start h + 2 ^ k"
    unfolding abc by (simp_all only: distrib_left mult_1_right)
  then have "pidx h \<le> pidx r" "pidx r + 2 ^ j \<le> pidx h + 2 ^ k"
    using seg by (simp_all add: frame_of_def)
  then show ?thesis using seg by (auto simp: mem_blk)
qed

lemma free_region_block:
  assumes wf: "buddy_wf start D ord f"
  shows "j \<le> 10 \<Longrightarrow> 2 ^ j dvd frame_of start r \<Longrightarrow> blk r j \<subseteq> free_frames ord f \<Longrightarrow>
    \<exists>h. f h \<and> j \<le> ord h \<and> blk r j \<subseteq> blk h (ord h)"
proof (induction j arbitrary: r)
  case 0
  then have "r \<in> free_frames ord f" using blk_self by blast
  then obtain h where "f h" "r \<in> blk h (ord h)" by (auto simp: free_frames_def)
  moreover have "blk r 0 = {r}" by (auto simp: mem_blk pgref_eq_iff)
  ultimately show ?case by auto
next
  case (Suc j)
  have blocks: "blocks_wf start D ord" using wf by (simp add: buddy_wf_def)
  have al: "2 ^ ord h dvd frame_of start h" if "f h" for h
    using wf that blocks_wfD(2) [OF blocks] by (simp add: buddy_wf_def)
  have d: "2 ^ j dvd frame_of start r" using Suc.prems(2) by (auto dest: dvd_mult_left)
  have "2 ^ j dvd frame_of start (upper r j)" using d by simp
  then obtain h1 h2 where h: "f h1" "j \<le> ord h1" "blk r j \<subseteq> blk h1 (ord h1)"
      "f h2" "j \<le> ord h2" "blk (upper r j) j \<subseteq> blk h2 (ord h2)"
    using Suc.IH [of r] Suc.IH [of "upper r j"] Suc.prems d by (auto simp: blk_Suc)
  have grow: ?case if "f h" "Suc j \<le> ord h" "x \<in> blk r (Suc j)" "x \<in> blk h (ord h)" for h x
    using aligned_nested [OF Suc.prems(2) al [OF that(1)] that(2-4)] that(1,2) by blast
  show ?case
  proof (cases "Suc j \<le> ord h1 \<or> Suc j \<le> ord h2")
    case True
    have "r \<in> blk h1 (ord h1)" "upper r j \<in> blk h2 (ord h2)"
      using h(3,6) blk_self by blast+
    moreover have "upper r j \<in> blk r (Suc j)" by (simp add: blk_Suc)
    ultimately show ?thesis
      using True grow [OF h(1), of r] grow [OF h(4), of "upper r j"] blk_self by metis
  next
    case False
    then have o: "ord h1 = j" "ord h2 = j" using h by auto
    have eq: "h = q" if "blk q j \<subseteq> blk h j" "2 ^ j dvd frame_of start h" "2 ^ j dvd frame_of start q" for h q
    proof -
      have "q \<in> blk h j" using that(1) blk_self by blast
      with aligned_nested [OF that(2,3), of q] have "blk h j \<subseteq> blk q j" by simp
      then have "h \<in> blk q j" using blk_self by blast
      with \<open>q \<in> blk h j\<close> show ?thesis by (simp add: mem_blk pgref_eq_iff)
    qed
    have "h1 = r" "h2 = upper r j"
      using eq [of r h1] eq [of "upper r j" h2] h o d al [OF h(1)] al [OF h(4)] by auto
    then have "frame_of start (upper r j) \<noteq> buddy_of j (frame_of start r)"
      using wf h(1,4) o Suc.prems(1) unfolding buddy_wf_def coalesced_def
      by (metis Suc_le_lessD upper_simps(1))
    then show ?thesis using buddy_even [OF Suc.prems(2)] by simp
  qed
qed

end
