(* ===== verification/Phys.thy ===== *)
theory Phys
  imports Pressure Buddy
begin

text \<open>
  The physical memory manager, \<^verbatim>\<open>src/kernel/vm/phys.c\<close>: a buddy allocator over segments of
  page frames. A \<^verbatim>\<open>vm_page_t *\<close> is a segment number and an index into the page array of
  that segment (\<open>pgref\<close>); \<^verbatim>\<open>ps_pages = None\<close> is the null pointer before the segment is
  initialised. The active part of \<^verbatim>\<open>vm_physegs\<close> and of \<^verbatim>\<open>vm_phys_rsv\<close> is a list, whose
  length is \<^verbatim>\<open>vm_nphyseg\<close> and \<^verbatim>\<open>vm_phys_nrsv\<close>. Frame numbers, sizes and physical addresses
  are 32-bit words, the order of a page is a byte. A shift by 32 or more, an access outside an
  array, a removal from a list that does not hold the node and a failed assertion are \<open>None\<close>.
  The lock \<^verbatim>\<open>vm_phylock\<close> makes every operation one step.
\<close>

subsection \<open>Pages\<close>

definition VM_PHYS_ORDER_NUM :: nat where "VM_PHYS_ORDER_NUM = 11"
definition VM_PHYS_ORDER_MAX :: nat where "VM_PHYS_ORDER_MAX = 10"
definition VM_PHYS_ORDER_NONE :: u8 where "VM_PHYS_ORDER_NONE = 255"
definition VM_PHYSEG_NUM :: nat where "VM_PHYSEG_NUM = 8"
definition VM_PHYSRSV_NUM :: nat where "VM_PHYSRSV_NUM = 64"
definition VM_PHYS_MAX :: u32 where "VM_PHYS_MAX = 0xFFFFFFFF"
definition PAGE_SHIFT :: nat where "PAGE_SHIFT = 12"
definition PAGE_SZ :: u32 where "PAGE_SZ = 4096"

definition VM_PG_STATE_MASK :: u16 where "VM_PG_STATE_MASK = 0xF"
definition VM_PG_FREE :: u16 where "VM_PG_FREE = 0"
definition VM_PG_NORMAL :: u16 where "VM_PG_NORMAL = 1"

definition atop :: "u32 \<Rightarrow> u32" where "atop a = drop_bit PAGE_SHIFT a"
definition ptoa :: "u32 \<Rightarrow> u32" where "ptoa p = push_bit PAGE_SHIFT p"

record vm_page =
  pg_flags :: u16
  pg_order :: u8
  pg_pincnt :: u16
  pg_seg :: u8

definition vm_page_init :: "nat \<Rightarrow> vm_page" where
  "vm_page_init segid =
     \<lparr>pg_flags = VM_PG_NORMAL, pg_order = 0, pg_pincnt = 0, pg_seg = of_nat segid\<rparr>"

definition vm_page_set_state :: "u16 \<Rightarrow> vm_page \<Rightarrow> vm_page panicking" where
  "vm_page_set_state st p = do {
     kassert (st AND NOT VM_PG_STATE_MASK = 0);
     Some (p\<lparr>pg_flags := (pg_flags p AND NOT VM_PG_STATE_MASK) OR st\<rparr>)
   }"

definition vm_page_state :: "vm_page \<Rightarrow> u16" where
  "vm_page_state p = pg_flags p AND VM_PG_STATE_MASK"

definition vm_page_is_free :: "vm_page \<Rightarrow> bool" where
  "vm_page_is_free p \<longleftrightarrow> vm_page_state p = VM_PG_FREE"

definition shl_1U :: "nat \<Rightarrow> u32 panicking" where
  "shl_1U n = (if n < 32 then Some (push_bit n 1) else None)"

definition vm_page_num :: "vm_page \<Rightarrow> u32 panicking" where
  "vm_page_num p = shl_1U (unat (pg_order p))"

definition vm_page_size :: "vm_page \<Rightarrow> u32 panicking" where
  "vm_page_size p = shl_1U (PAGE_SHIFT + unat (pg_order p))"

subsection \<open>State\<close>

record vm_physeg =
  ps_start :: u32
  ps_size :: u32
  ps_pages :: "vm_page list option"

record vm_phys_rsv =
  rsv_addr :: u32
  rsv_size :: u32

record phys_state =
  vm_freelist :: "pgref list list"
  vm_physegs :: "vm_physeg list"
  vm_phys_total :: u32
  vm_phys_rsv :: "vm_phys_rsv list"
  vm_init :: u8
  phys_pr :: pressure_state

definition VM_INIT_PHYS_EARLY :: u8 where "VM_INIT_PHYS_EARLY = 1"
definition VM_INIT_PHYS :: u8 where "VM_INIT_PHYS = 16"

definition VM_INIT_P :: "u8 \<Rightarrow> phys_state \<Rightarrow> bool" where
  "VM_INIT_P x s \<longleftrightarrow> vm_init s AND x = x"

definition vm_init_done :: "u8 \<Rightarrow> phys_state \<Rightarrow> phys_state" where
  "vm_init_done x s = s\<lparr>vm_init := vm_init s OR x\<rparr>"

text \<open>Memory access through a page pointer.\<close>

definition page_at :: "phys_state \<Rightarrow> pgref \<Rightarrow> vm_page panicking" where
  "page_at s r = do {
     seg \<leftarrow> nth_opt (vm_physegs s) (pseg r);
     pages \<leftarrow> ps_pages seg;
     nth_opt pages (pidx r)
   }"

definition page_put :: "phys_state \<Rightarrow> pgref \<Rightarrow> vm_page \<Rightarrow> phys_state panicking" where
  "page_put s r p = do {
     seg \<leftarrow> nth_opt (vm_physegs s) (pseg r);
     pages \<leftarrow> ps_pages seg;
     pages' \<leftarrow> upd_opt pages (pidx r) p;
     Some (s\<lparr>vm_physegs := (vm_physegs s)[pseg r := seg\<lparr>ps_pages := Some pages'\<rparr>]\<rparr>)
   }"

definition set_order :: "phys_state \<Rightarrow> pgref \<Rightarrow> u8 \<Rightarrow> phys_state panicking" where
  "set_order s r k = do { p \<leftarrow> page_at s r; page_put s r (p\<lparr>pg_order := k\<rparr>) }"

subsection \<open>Free lists and addresses\<close>

text \<open>The number of the first segment that holds the frame.\<close>

definition vm_physeg_get :: "phys_state \<Rightarrow> u32 \<Rightarrow> nat option" where
  "vm_physeg_get s addr =
     find (\<lambda>i. let seg = vm_physegs s ! i in
             addr \<ge> ps_start seg \<and> addr < ps_start seg + ps_size seg)
       [0..<length (vm_physegs s)]"

definition vm_page_addr :: "phys_state \<Rightarrow> pgref \<Rightarrow> u32 panicking" where
  "vm_page_addr s r = do {
     p \<leftarrow> page_at s r;
     kassert (unat (pg_seg p) < VM_PHYSEG_NUM);
     seg \<leftarrow> nth_opt (vm_physegs s) (unat (pg_seg p));
     kassert (ps_pages seg \<noteq> None);
     if unat (pg_seg p) = pseg r then Some (ps_start seg + of_nat (pidx r)) else None
   }"

definition vm_page_phys :: "phys_state \<Rightarrow> pgref \<Rightarrow> u32 panicking" where
  "vm_page_phys s r = map_option ptoa (vm_page_addr s r)"

definition vm_freelist_add :: "phys_state \<Rightarrow> pgref \<Rightarrow> phys_state panicking" where
  "vm_freelist_add s r = do {
     p \<leftarrow> page_at s r;
     let k = unat (pg_order p);
     kassert (k < VM_PHYS_ORDER_NUM);
     l \<leftarrow> nth_opt (vm_freelist s) k;
     p' \<leftarrow> vm_page_set_state VM_PG_FREE p;
     page_put (s\<lparr>vm_freelist := (vm_freelist s)[k := l @ [r]]\<rparr>) r p'
   }"

definition vm_freelist_rem :: "phys_state \<Rightarrow> pgref \<Rightarrow> phys_state panicking" where
  "vm_freelist_rem s r = do {
     p \<leftarrow> page_at s r;
     let k = unat (pg_order p);
     kassert (k < VM_PHYS_ORDER_NUM);
     l \<leftarrow> nth_opt (vm_freelist s) k;
     kassert (r \<in> set l);
     p' \<leftarrow> vm_page_set_state VM_PG_NORMAL p;
     page_put (s\<lparr>vm_freelist := (vm_freelist s)[k := remove1 r l]\<rparr>) r p'
   }"

definition vm_freelist_pop :: "phys_state \<Rightarrow> nat \<Rightarrow> (pgref option \<times> phys_state) panicking" where
  "vm_freelist_pop s k = do {
     kassert (k < VM_PHYS_ORDER_NUM);
     l \<leftarrow> nth_opt (vm_freelist s) k;
     case l of
       [] \<Rightarrow> Some (None, s)
     | r # rs \<Rightarrow> Some (Some r, s\<lparr>vm_freelist := (vm_freelist s)[k := rs]\<rparr>)
   }"

subsection \<open>Reservations and segments\<close>

text \<open>The loop over the recorded reservations; \<open>None\<close> when none of them absorbs the range.\<close>

fun rsv_merge :: "u32 \<Rightarrow> u32 \<Rightarrow> vm_phys_rsv list \<Rightarrow> vm_phys_rsv list option" where
  "rsv_merge addr sz [] = None"
| "rsv_merge addr sz (r # rs) =
     (if rsv_addr r + rsv_size r = addr then Some (r\<lparr>rsv_size := rsv_size r + sz\<rparr> # rs)
      else if rsv_addr r = addr + sz then Some (r\<lparr>rsv_addr := addr, rsv_size := rsv_size r + sz\<rparr> # rs)
      else if addr \<ge> rsv_addr r \<and> addr + sz \<le> rsv_addr r + rsv_size r then Some (r # rs)
      else map_option ((#) r) (rsv_merge addr sz rs))"

definition vm_phys_reserve :: "u32 \<Rightarrow> u32 \<Rightarrow> phys_state \<Rightarrow> phys_state panicking" where
  "vm_phys_reserve addr sz s = do {
     kassert (\<not> VM_INIT_P VM_INIT_PHYS s);
     case rsv_merge addr sz (vm_phys_rsv s) of
       Some rsvs \<Rightarrow> Some (s\<lparr>vm_phys_rsv := rsvs\<rparr>)
     | None \<Rightarrow>
         if length (vm_phys_rsv s) = VM_PHYSRSV_NUM then None
         else Some (s\<lparr>vm_phys_rsv := vm_phys_rsv s @ [\<lparr>rsv_addr = addr, rsv_size = sz\<rparr>]\<rparr>)
   }"

definition vm_page_reserved :: "phys_state \<Rightarrow> u32 \<Rightarrow> bool" where
  "vm_page_reserved s addr =
     list_ex (\<lambda>r. ptoa addr \<ge> rsv_addr r \<and> ptoa addr < rsv_addr r + rsv_size r) (vm_phys_rsv s)"

definition vm_physeg_add :: "u32 \<Rightarrow> u32 \<Rightarrow> phys_state \<Rightarrow> phys_state panicking" where
  "vm_physeg_add addr sz s = do {
     kassert (\<not> VM_INIT_P VM_INIT_PHYS_EARLY s);
     kassert (ALIGNED addr PAGE_SZ \<and> ALIGNED sz PAGE_SZ);
     kassert (addr < VM_PHYS_MAX);
     kassert (VM_PHYS_MAX - addr \<ge> sz - 1);
     if length (vm_physegs s) = VM_PHYSEG_NUM then Some s
     else Some (s\<lparr>vm_physegs := vm_physegs s @
                   [\<lparr>ps_start = atop addr, ps_size = atop sz, ps_pages = None\<rparr>],
                  vm_phys_total := vm_phys_total s + atop sz\<rparr>)
   }"

subsection \<open>Allocation\<close>

text \<open>The search for a block of at least the requested order, from order \<open>i\<close> on.\<close>

function vm_page_alloc_find :: "phys_state \<Rightarrow> nat \<Rightarrow> (pgref option \<times> phys_state) panicking" where
  "vm_page_alloc_find s i =
     (if i < VM_PHYS_ORDER_NUM then do {
        (r, s1) \<leftarrow> vm_freelist_pop s i;
        case r of
          None \<Rightarrow> vm_page_alloc_find s1 (i + 1)
        | Some r \<Rightarrow> do {
            p \<leftarrow> page_at s1 r;
            kassert (vm_page_is_free p);
            p' \<leftarrow> vm_page_set_state VM_PG_NORMAL p;
            s2 \<leftarrow> page_put s1 r p';
            Some (Some r, s2)
          }
      }
      else Some (None, s))"
  by pat_completeness auto
termination
  by (relation "measure (\<lambda>(s, i). VM_PHYS_ORDER_NUM - i)") auto

declare vm_page_alloc_find.simps [simp del]

text \<open>The loop that splits the block down to the requested order.\<close>

partial_function (option) vm_page_split :: "phys_state \<Rightarrow> pgref \<Rightarrow> u8 \<Rightarrow> phys_state option" where
  "vm_page_split s r ord = do {
     p \<leftarrow> page_at s r;
     if pg_order p > ord then do {
       s1 \<leftarrow> set_order s r (pg_order p - 1);
       p1 \<leftarrow> page_at s1 r;
       n \<leftarrow> vm_page_num p1;
       let b = PgRef (pseg r) (pidx r + unat n);
       bp \<leftarrow> page_at s1 b;
       kassert (\<not> vm_page_is_free bp);
       s2 \<leftarrow> set_order s1 b (pg_order p1);
       s3 \<leftarrow> vm_freelist_add s2 b;
       vm_page_split s3 r ord
     }
     else Some s
   }"

definition vm_page_alloc_order :: "u8 \<Rightarrow> phys_state \<Rightarrow> (pgref option \<times> phys_state) panicking" where
  "vm_page_alloc_order ord s = do {
     sz \<leftarrow> shl_1U (unat ord + PAGE_SHIFT);
     if vm_mem_wait_p VM_PR_MEM_PHYS (ucast sz) (phys_pr s) then Some (None, s)
     else do {
       (r, s1) \<leftarrow> vm_page_alloc_find s (unat ord);
       case r of
         None \<Rightarrow> None
       | Some r \<Rightarrow> do {
           s2 \<leftarrow> vm_page_split s1 r ord;
           pr \<leftarrow> vm_pressure_inc VM_PR_MEM_PHYS (ucast sz) (phys_pr s2);
           Some (Some r, s2\<lparr>phys_pr := pr\<rparr>)
         }
     }
   }"

definition VM_WAIT :: u16 where "VM_WAIT = 32"

text \<open>
  \<open>ws\<close> holds what the rest of the system does during each \<^verbatim>\<open>vm_mem_wait\<close>; the result
  \<open>Inl\<close> is a thread that is still waiting when \<open>ws\<close> is used up.
\<close>

fun vm_page_alloc_loop :: "u16 \<Rightarrow> (phys_state \<Rightarrow> phys_state) list \<Rightarrow> phys_state \<Rightarrow>
    (phys_state + pgref option \<times> phys_state) panicking" where
  "vm_page_alloc_loop flags ws s = do {
     (r, s1) \<leftarrow> vm_page_alloc_order 0 s;
     if r = None \<and> F_ISSET flags VM_WAIT then
       (case ws of [] \<Rightarrow> Some (Inl s1) | w # ws' \<Rightarrow> vm_page_alloc_loop flags ws' (w s1))
     else Some (Inr (r, s1))
   }"

definition vm_page_alloc :: "u16 \<Rightarrow> (phys_state \<Rightarrow> phys_state) list \<Rightarrow> phys_state \<Rightarrow>
    (phys_state + pgref option \<times> phys_state) panicking" where
  "vm_page_alloc flags ws s = do {
     kassert (VM_INIT_P VM_INIT_PHYS s);
     kassert (flags AND NOT VM_WAIT = 0);
     vm_page_alloc_loop flags ws s
   }"

subsection \<open>Release\<close>

text \<open>The loop that merges the page with its buddy while the buddy is free.\<close>

partial_function (option) vm_page_merge ::
    "nat \<Rightarrow> phys_state \<Rightarrow> pgref \<Rightarrow> (phys_state \<times> pgref) option" where
  "vm_page_merge sg s r = do {
     p \<leftarrow> page_at s r;
     if unat (pg_order p) < VM_PHYS_ORDER_MAX then do {
       addr \<leftarrow> vm_page_addr s r;
       n \<leftarrow> vm_page_num p;
       seg \<leftarrow> nth_opt (vm_physegs s) sg;
       let baddr = addr XOR n;
       if baddr < ps_start seg \<or> baddr \<ge> ps_start seg + ps_size seg then Some (s, r)
       else do {
         let b = PgRef sg (unat (baddr - ps_start seg));
         bp \<leftarrow> page_at s b;
         if pg_order bp \<noteq> pg_order p \<or> \<not> vm_page_is_free bp then Some (s, r)
         else do {
           s1 \<leftarrow> vm_freelist_rem s b;
           s2 \<leftarrow> set_order s1 b VM_PHYS_ORDER_NONE;
           s3 \<leftarrow> set_order s2 r VM_PHYS_ORDER_NONE;
           let h = PgRef sg (unat ((baddr AND NOT (push_bit 1 n - 1)) - ps_start seg));
           s4 \<leftarrow> set_order s3 h (pg_order p + 1);
           vm_page_merge sg s4 h
         }
       }
     }
     else Some (s, r)
   }"

definition vm_page_free :: "pgref \<Rightarrow> phys_state \<Rightarrow> phys_state panicking" where
  "vm_page_free r s = do {
     p \<leftarrow> page_at s r;
     kassert (\<not> vm_page_is_free p);
     kassert (pg_pincnt p = 0);
     kassert (pg_flags p AND NOT VM_PG_STATE_MASK = 0);
     sz \<leftarrow> vm_page_size p;
     pr \<leftarrow> vm_pressure_dec VM_PR_MEM_PHYS (ucast sz) (phys_pr s);
     (s1, r1) \<leftarrow> vm_page_merge (unat (pg_seg p)) (s\<lparr>phys_pr := pr\<rparr>) r;
     vm_freelist_add s1 r1
   }"

definition vm_phys_to_page :: "u32 \<Rightarrow> phys_state \<Rightarrow> pgref panicking" where
  "vm_phys_to_page addr s = do {
     kassert (VM_INIT_P VM_INIT_PHYS s);
     sg \<leftarrow> vm_physeg_get s (atop addr);
     seg \<leftarrow> nth_opt (vm_physegs s) sg;
     let r = PgRef sg (unat (atop addr - ps_start seg));
     p \<leftarrow> page_at s r;
     kassert (\<not> vm_page_is_free p);
     Some r
   }"

definition vm_free_phys :: "u32 \<Rightarrow> phys_state \<Rightarrow> phys_state panicking" where
  "vm_free_phys phys s = do {
     kassert (ALIGNED phys PAGE_SZ);
     kassert (VM_INIT_P VM_INIT_PHYS s);
     r \<leftarrow> vm_phys_to_page phys s;
     vm_page_free r s
   }"

subsection \<open>Bootstrap\<close>

definition vm_seg_overlap :: "u32 \<Rightarrow> u32 \<Rightarrow> u32 \<Rightarrow> u32 \<Rightarrow> bool" where
  "vm_seg_overlap a1 s1 a2 s2 \<longleftrightarrow> \<not> (a2 \<ge> a1 + s1 \<or> a1 \<ge> a2 + s2)"

text \<open>The search in one segment that ends at \<open>e\<close>; it may run forever when an end wraps.\<close>

partial_function (option) early_scan ::
    "vm_phys_rsv list \<Rightarrow> u32 \<Rightarrow> u32 \<Rightarrow> u32 \<Rightarrow> u32 option option" where
  "early_scan rsvs e sz phys =
     (if phys + sz \<le> e then
        (case find (\<lambda>r. vm_seg_overlap phys sz (rsv_addr r) (rsv_size r)) rsvs of
           None \<Rightarrow> Some (Some phys)
         | Some r \<Rightarrow> early_scan rsvs e sz (rsv_addr r + rsv_size r))
      else Some None)"

fun early_search :: "vm_phys_rsv list \<Rightarrow> u32 \<Rightarrow> vm_physeg list \<Rightarrow> u32 option option" where
  "early_search rsvs sz [] = Some None"
| "early_search rsvs sz (seg # segs) =
     (if ps_pages seg \<noteq> None then early_search rsvs sz segs
      else do {
        let phys = ptoa (ps_start seg);
        x \<leftarrow> early_scan rsvs (phys + ptoa (ps_size seg)) sz phys;
        case x of Some a \<Rightarrow> Some (Some a) | None \<Rightarrow> early_search rsvs sz segs
      })"

definition vm_phys_early_alloc :: "u32 \<Rightarrow> phys_state \<Rightarrow> (u32 \<times> phys_state) panicking" where
  "vm_phys_early_alloc sz s = do {
     kassert (VM_INIT_P VM_INIT_PHYS_EARLY s);
     (r, s1) \<leftarrow> vm_page_alloc_order 0 s;
     case r of
       Some r \<Rightarrow> do { a \<leftarrow> vm_page_phys s1 r; Some (a, s1) }
     | None \<Rightarrow> do {
         x \<leftarrow> early_search (vm_phys_rsv s1) sz (vm_physegs s1);
         case x of
           None \<Rightarrow> None
         | Some a \<Rightarrow> do { s2 \<leftarrow> vm_phys_reserve a sz s1; Some (a, s2) }
       }
   }"

definition vm_alloc_phys :: "u16 \<Rightarrow> (phys_state \<Rightarrow> phys_state) list \<Rightarrow> phys_state \<Rightarrow>
    (phys_state + u32 \<times> phys_state) panicking" where
  "vm_alloc_phys flags ws s = do {
     kassert (flags AND NOT VM_WAIT = 0);
     if VM_INIT_P VM_INIT_PHYS s then do {
       x \<leftarrow> vm_page_alloc flags ws s;
       case x of
         Inl s1 \<Rightarrow> Some (Inl s1)
       | Inr (Some r, s1) \<Rightarrow> do { a \<leftarrow> vm_page_phys s1 r; Some (Inr (a, s1)) }
       | Inr (None, s1) \<Rightarrow> Some (Inr (VM_PHYS_MAX, s1))
     }
     else map_option Inr (vm_phys_early_alloc PAGE_SZ s)
   }"

definition vm_phys_get_total :: "phys_state \<Rightarrow> u32" where
  "vm_phys_get_total s = ptoa (vm_phys_total s)"

definition vm_phys_get_free :: "phys_state \<Rightarrow> u32" where
  "vm_phys_get_free s = ucast (vm_mem_get_free VM_PR_MEM_PHYS (phys_pr s))"

text \<open>The second loop of \<^verbatim>\<open>vm_physeg_init\<close>, over the page indexes that remain.\<close>

fun vm_physeg_free_pages :: "nat \<Rightarrow> u32 \<Rightarrow> nat list \<Rightarrow> phys_state \<Rightarrow> phys_state panicking" where
  "vm_physeg_free_pages sg start [] s = Some s"
| "vm_physeg_free_pages sg start (i # is) s = do {
     s1 \<leftarrow> (if vm_page_reserved s (start + of_nat i) then Some s
            else vm_page_free (PgRef sg i) s);
     vm_physeg_free_pages sg start is s1
   }"

definition vm_physeg_init :: "nat \<Rightarrow> phys_state \<Rightarrow> phys_state panicking" where
  "vm_physeg_init sg s = do {
     seg \<leftarrow> nth_opt (vm_physegs s) sg;
     pages \<leftarrow> ps_pages seg;
     pages' \<leftarrow> mem_write pages 0 (replicate (unat (ps_size seg)) (vm_page_init sg));
     vm_physeg_free_pages sg (ps_start seg) [0..<unat (ps_size seg)]
       (s\<lparr>vm_physegs := (vm_physegs s)[sg := seg\<lparr>ps_pages := Some pages'\<rparr>]\<rparr>)
   }"

definition vm_phys_init_early :: "phys_state \<Rightarrow> phys_state panicking" where
  "vm_phys_init_early s = do {
     let s1 = vm_init_done VM_INIT_PHYS_EARLY s;
     pr \<leftarrow> vm_pr_mem_init VM_PR_MEM_PHYS (ucast (ptoa (vm_phys_total s1))) 0 (phys_pr s1);
     Some (s1\<lparr>phys_pr := pr\<rparr>)
   }"

text \<open>The loop equations are the executable definitions.\<close>

declare vm_page_split.simps [code] vm_page_merge.simps [code] early_scan.simps [code]

end
