(* ===== verification/Phys_Inv.thy ===== *)
theory Phys_Inv
  imports Phys
begin

text \<open>
  The invariant of the physical memory manager and the proofs that allocation and release keep
  it. A state is abstracted to the block structure of theory \<open>Buddy\<close>: the order of every page
  and which blocks are free. Each loop iteration of the source is one step there.
\<close>

subsection \<open>Abstraction and invariant\<close>

definition page_ord :: "phys_state \<Rightarrow> pgref \<Rightarrow> nat" where
  "page_ord s r = (case page_at s r of None \<Rightarrow> 255 | Some p \<Rightarrow> unat (pg_order p))"

definition page_free :: "phys_state \<Rightarrow> pgref \<Rightarrow> bool" where
  "page_free s r = (case page_at s r of None \<Rightarrow> False | Some p \<Rightarrow> vm_page_is_free p)"

definition pages :: "phys_state \<Rightarrow> pgref set" where
  "pages s = {r. page_at s r \<noteq> None}"

definition seg_start :: "phys_state \<Rightarrow> nat \<Rightarrow> nat" where
  "seg_start s sg = (if sg < length (vm_physegs s) then unat (ps_start (vm_physegs s ! sg)) else 0)"

definition seg_geo :: "phys_state \<Rightarrow> (u32 \<times> u32 \<times> nat option) list" where
  "seg_geo s = map (\<lambda>seg. (ps_start seg, ps_size seg, map_option length (ps_pages seg))) (vm_physegs s)"

definition geo_ok :: "phys_state \<Rightarrow> bool" where
  "geo_ok s \<longleftrightarrow> length (seg_geo s) \<le> 8 \<and>
     (\<forall>(start, sz, len) \<in> set (seg_geo s).
        unat start + unat sz \<le> 2 ^ 20 \<and> (\<forall>n. len = Some n \<longrightarrow> n = unat sz))"

definition plain_page :: "vm_page \<Rightarrow> bool" where
  "plain_page p \<longleftrightarrow> pg_flags p AND NOT VM_PG_STATE_MASK = 0 \<and> pg_pincnt p = 0"

definition pages_ok :: "(pgref \<Rightarrow> vm_page option) \<Rightarrow> bool" where
  "pages_ok m \<longleftrightarrow> (\<forall>r p. m r = Some p \<longrightarrow> unat (pg_seg p) = pseg r \<and>
     (vm_page_is_free p \<or> pg_order p = VM_PHYS_ORDER_NONE \<longrightarrow> plain_page p))"

definition lists_ok :: "pgref list list \<Rightarrow> (pgref \<Rightarrow> nat) \<Rightarrow> (pgref \<Rightarrow> bool) \<Rightarrow> bool" where
  "lists_ok F ord f \<longleftrightarrow> length F = 11 \<and>
     (\<forall>k < 11. distinct (F ! k) \<and> set (F ! k) = {r. f r \<and> ord r = k})"

definition phys_inv :: "phys_state \<Rightarrow> bool" where
  "phys_inv s \<longleftrightarrow> geo_ok s \<and> pages_ok (page_at s) \<and>
     lists_ok (vm_freelist s) (page_ord s) (page_free s) \<and>
     buddy_wf (seg_start s) (pages s) (page_ord s) (page_free s)"

text \<open>The frames of all free blocks, and the accounting of physical memory.\<close>

definition free_set :: "phys_state \<Rightarrow> pgref set" where
  "free_set s = free_frames (page_ord s) (page_free s)"

definition phys_acct :: "phys_state \<Rightarrow> bool" where
  "phys_acct s \<longleftrightarrow> pressure_inv (phys_pr s) \<and>
     unat (free (vm_pr_mem (phys_pr s) VM_PR_MEM_PHYS)) = 4096 * card (free_set s) \<and>
     4096 * card (pages s) \<le> unat (total (vm_pr_mem (phys_pr s) VM_PR_MEM_PHYS)) \<and>
     threshold (vm_pr_mem (phys_pr s) VM_PR_MEM_PHYS) = 0"

text \<open>Nothing but pages and free lists differs.\<close>

definition same_rest :: "phys_state \<Rightarrow> phys_state \<Rightarrow> bool" where
  "same_rest s s' \<longleftrightarrow> seg_geo s' = seg_geo s \<and> vm_phys_total s' = vm_phys_total s \<and>
     vm_phys_rsv s' = vm_phys_rsv s \<and> vm_init s' = vm_init s \<and> phys_pr s' = phys_pr s"

lemma same_rest_refl [simp]: "same_rest s s"
  by (simp add: same_rest_def)

lemma same_rest_trans [trans]: "same_rest s s' \<Longrightarrow> same_rest s' s'' \<Longrightarrow> same_rest s s''"
  by (simp add: same_rest_def)

lemma geo_length: "seg_geo s' = seg_geo s \<Longrightarrow> length (vm_physegs s') = length (vm_physegs s)"
  unfolding seg_geo_def by (rule map_eq_imp_length_eq)

lemma geo_nth:
  assumes "seg_geo s' = seg_geo s" "i < length (vm_physegs s)"
  shows "ps_start (vm_physegs s' ! i) = ps_start (vm_physegs s ! i)"
    "ps_size (vm_physegs s' ! i) = ps_size (vm_physegs s ! i)"
    "map_option length (ps_pages (vm_physegs s' ! i)) = map_option length (ps_pages (vm_physegs s ! i))"
proof -
  have "seg_geo s' ! i = seg_geo s ! i" using assms(1) by simp
  with assms(2) geo_length [OF assms(1)] show
    "ps_start (vm_physegs s' ! i) = ps_start (vm_physegs s ! i)"
    "ps_size (vm_physegs s' ! i) = ps_size (vm_physegs s ! i)"
    "map_option length (ps_pages (vm_physegs s' ! i)) = map_option length (ps_pages (vm_physegs s ! i))"
    by (simp_all add: seg_geo_def)
qed

lemma seg_start_cong:
  assumes "seg_geo s' = seg_geo s"
  shows "seg_start s' = seg_start s"
  by (rule ext) (simp only: seg_start_def geo_length [OF assms] geo_nth(1) [OF assms] cong: if_cong)

lemma geo_ok_cong: "same_rest s s' \<Longrightarrow> geo_ok s \<Longrightarrow> geo_ok s'"
  by (simp add: geo_ok_def same_rest_def)

subsection \<open>Reading and writing pages\<close>

lemma page_at_Some:
  "page_at s r = Some p \<longleftrightarrow> pseg r < length (vm_physegs s) \<and>
     (\<exists>ps. ps_pages (vm_physegs s ! pseg r) = Some ps \<and> pidx r < length ps \<and> p = ps ! pidx r)"
  by (auto simp: page_at_def nth_opt_def bind_eq_Some_conv split: if_splits)

lemma page_at_dom:
  "page_at s r \<noteq> None \<longleftrightarrow> pseg r < length (vm_physegs s) \<and>
     (\<exists>n. map_option length (ps_pages (vm_physegs s ! pseg r)) = Some n \<and> pidx r < n)"
  using page_at_Some [of s r] by auto

lemma pages_cong:
  assumes "seg_geo s' = seg_geo s"
  shows "pages s' = pages s"
  unfolding pages_def page_at_dom geo_length [OF assms]
  by (intro Collect_cong conj_cong) (simp_all only: geo_nth(3) [OF assms])

lemma page_put_run:
  assumes "page_at s r \<noteq> None"
  obtains s' where "page_put s r p = Some s'" "page_at s' = (page_at s)(r := Some p)"
    "vm_freelist s' = vm_freelist s" "same_rest s s'"
proof -
  from assms obtain ps where ps: "pseg r < length (vm_physegs s)"
      "ps_pages (vm_physegs s ! pseg r) = Some ps" "pidx r < length ps"
    by (auto simp: page_at_Some)
  let ?seg = "(vm_physegs s ! pseg r)\<lparr>ps_pages := Some (ps[pidx r := p])\<rparr>"
  let ?s' = "s\<lparr>vm_physegs := (vm_physegs s)[pseg r := ?seg]\<rparr>"
  have put: "page_put s r p = Some ?s'" using ps by (simp add: page_put_def)
  have at: "page_at ?s' x = ((page_at s)(r := Some p)) x" for x
    using ps by (cases "pseg x = pseg r"; cases "pidx x = pidx r")
      (auto simp: page_at_def nth_opt_def pgref_eq_iff [of x r] nth_list_update)
  have "seg_geo ?s' = seg_geo s"
    unfolding seg_geo_def using ps
    by (auto intro!: nth_equalityI simp: nth_list_update)
  then have "same_rest s ?s'" by (simp add: same_rest_def)
  with put at show ?thesis by (intro that [of ?s']) auto
qed

lemma set_order_run:
  assumes "page_at s r = Some p"
  obtains s' where "set_order s r k = Some s'" "page_at s' = (page_at s)(r := Some (p\<lparr>pg_order := k\<rparr>))"
    "vm_freelist s' = vm_freelist s" "same_rest s s'"
  by (rule page_put_run [of s r "p\<lparr>pg_order := k\<rparr>"]) (simp_all add: set_order_def assms)

lemma page_ord_upd:
  "page_at s' = (page_at s)(r := Some p) \<Longrightarrow> page_ord s' = (page_ord s)(r := unat (pg_order p))"
  by (auto simp: page_ord_def)

lemma page_free_upd:
  "page_at s' = (page_at s)(r := Some p) \<Longrightarrow> page_free s' = (page_free s)(r := vm_page_is_free p)"
  by (rule ext) (simp add: page_free_def)

subsection \<open>Page state\<close>

lemma state_bits:
  fixes x st m :: "'a::len word"
  assumes "st AND NOT m = 0"
  shows "((x AND NOT m) OR st) AND m = st" "((x AND NOT m) OR st) AND NOT m = x AND NOT m"
proof -
  have "bit (st AND NOT m) n = bit (0 :: 'a word) n" for n using assms by simp
  then have st: "bit st n \<Longrightarrow> bit m n" for n
    by (auto simp: bit_and_iff bit_not_iff dest: bit_imp_le_length)
  show "((x AND NOT m) OR st) AND m = st"
    by (rule bit_word_eqI) (auto simp: bit_simps dest: st)
  show "((x AND NOT m) OR st) AND NOT m = x AND NOT m"
    by (rule bit_word_eqI) (auto simp: bit_simps dest: st)
qed

lemma set_state_free:
  obtains p' where "vm_page_set_state VM_PG_FREE p = Some p'" "vm_page_is_free p'"
    "pg_order p' = pg_order p" "pg_seg p' = pg_seg p" "plain_page p' = plain_page p"
  using that [of "p\<lparr>pg_flags := (pg_flags p AND NOT VM_PG_STATE_MASK) OR VM_PG_FREE\<rparr>"]
  by (simp add: vm_page_set_state_def vm_page_is_free_def vm_page_state_def VM_PG_FREE_def
      plain_page_def state_bits [of 0, simplified])

lemma set_state_normal:
  obtains p' where "vm_page_set_state VM_PG_NORMAL p = Some p'" "\<not> vm_page_is_free p'"
    "pg_order p' = pg_order p" "pg_seg p' = pg_seg p" "plain_page p' = plain_page p"
    "vm_page_state p' = VM_PG_NORMAL"
proof -
  have n: "VM_PG_NORMAL AND NOT VM_PG_STATE_MASK = 0"
    by (simp add: VM_PG_NORMAL_def VM_PG_STATE_MASK_def)
  show ?thesis
    using that [of "p\<lparr>pg_flags := (pg_flags p AND NOT VM_PG_STATE_MASK) OR VM_PG_NORMAL\<rparr>"]
    by (simp add: vm_page_set_state_def vm_page_is_free_def vm_page_state_def
        plain_page_def state_bits [OF n] n) (simp add: VM_PG_FREE_def VM_PG_NORMAL_def)
qed

subsection \<open>Free lists\<close>

lemma lists_add:
  assumes "lists_ok F ord f" "\<not> f b" "k < 11" "\<And>x. f x \<Longrightarrow> ord' x = ord x" "ord' b = k"
  shows "lists_ok (F[k := F ! k @ [b]]) ord' (f(b := True))"
proof -
  have "distinct (F[k := F ! k @ [b]] ! j) \<and>
      set (F[k := F ! k @ [b]] ! j) = {r. (f(b := True)) r \<and> ord' r = j}" if "j < 11" for j
    using assms that by (cases "j = k") (auto simp: lists_ok_def)
  with assms(1) show ?thesis by (simp add: lists_ok_def)
qed

lemma lists_rem:
  assumes "lists_ok F ord f" "f b" "ord b = k" "k < 11" "\<And>x. f x \<Longrightarrow> x \<noteq> b \<Longrightarrow> ord' x = ord x"
  shows "lists_ok (F[k := remove1 b (F ! k)]) ord' (f(b := False))"
proof -
  have "distinct (F[k := remove1 b (F ! k)] ! j) \<and>
      set (F[k := remove1 b (F ! k)] ! j) = {r. (f(b := False)) r \<and> ord' r = j}" if "j < 11" for j
    using assms that by (cases "j = k") (auto simp: lists_ok_def)
  with assms(1) show ?thesis by (simp add: lists_ok_def)
qed

lemma pages_ok_upd:
  assumes "pages_ok m" "unat (pg_seg p) = pseg r"
    "vm_page_is_free p \<or> pg_order p = VM_PHYS_ORDER_NONE \<Longrightarrow> plain_page p"
  shows "pages_ok (m(r := Some p))"
  using assms by (auto simp: pages_ok_def)

lemma phys_inv_intro:
  assumes "phys_inv s" "same_rest s s'" "pages_ok (page_at s')"
    "lists_ok (vm_freelist s') (page_ord s') (page_free s')"
    "buddy_wf (seg_start s) (pages s) (page_ord s') (page_free s')"
  shows "phys_inv s'"
proof -
  have geo: "seg_geo s' = seg_geo s" using assms(2) by (simp add: same_rest_def)
  show ?thesis
    using assms geo_ok_cong [OF assms(2)]
    by (simp add: phys_inv_def pages_cong [OF geo] seg_start_cong [OF geo])
qed

lemma phys_invD:
  assumes "phys_inv s"
  shows "geo_ok s" "pages_ok (page_at s)" "lists_ok (vm_freelist s) (page_ord s) (page_free s)"
    "buddy_wf (seg_start s) (pages s) (page_ord s) (page_free s)"
    "blocks_wf (seg_start s) (pages s) (page_ord s)"
    "page_free s r \<Longrightarrow> page_ord s r \<le> 10"
  using assms by (auto simp: phys_inv_def buddy_wf_def)

lemma page_ord_Some: "page_at s r = Some p \<Longrightarrow> page_ord s r = unat (pg_order p)"
  by (simp add: page_ord_def)

lemma page_free_Some: "page_at s r = Some p \<Longrightarrow> page_free s r = vm_page_is_free p"
  by (simp add: page_free_def)

lemma pages_okD:
  assumes "pages_ok m" "m r = Some p"
  shows "unat (pg_seg p) = pseg r"
    "vm_page_is_free p \<or> pg_order p = VM_PHYS_ORDER_NONE \<Longrightarrow> plain_page p"
  using assms unfolding pages_ok_def by blast+

subsection \<open>Taking a block from its free list\<close>

lemma take_inv:
  assumes inv: "phys_inv s" and p: "page_at s r = Some p" "vm_page_is_free p"
    and s': "page_at s' = (page_at s)(r := Some p')" "same_rest s s'"
      "vm_freelist s' = (vm_freelist s)[unat (pg_order p) :=
         remove1 r (vm_freelist s ! unat (pg_order p))]"
    and p': "\<not> vm_page_is_free p'" "pg_order p' = pg_order p" "pg_seg p' = pg_seg p"
      "plain_page p' = plain_page p"
  shows "phys_inv s'" "page_ord s' = page_ord s" "page_free s' = (page_free s)(r := False)"
proof -
  have f: "page_free s r" using p by (simp add: page_free_Some)
  have ord: "page_ord s r = unat (pg_order p)" using p by (simp add: page_ord_Some)
  show o': "page_ord s' = page_ord s"
    using page_ord_upd [OF s'(1)] ord p'(2) by auto
  show f': "page_free s' = (page_free s)(r := False)"
    using page_free_upd [OF s'(1)] p'(1) by simp
  have "pages_ok (page_at s')"
    unfolding s'(1) using pages_okD [OF phys_invD(2) [OF inv] p(1)] p p'
    by (intro pages_ok_upd phys_invD(2) [OF inv]) auto
  moreover have "lists_ok (vm_freelist s') (page_ord s') (page_free s')"
    unfolding s'(3) o' f' using phys_invD(6) [OF inv f] ord
    by (intro lists_rem [OF phys_invD(3) [OF inv] f]) auto
  moreover have "buddy_wf (seg_start s) (pages s) (page_ord s') (page_free s')"
    unfolding o' f' by (intro take_wf phys_invD(4) [OF inv])
  ultimately show "phys_inv s'" by (intro phys_inv_intro [OF inv s'(2)])
qed

lemma freelist_rem_run:
  assumes inv: "phys_inv s" and p: "page_at s r = Some p" "vm_page_is_free p"
  obtains s' p' where "vm_freelist_rem s r = Some s'" "phys_inv s'" "same_rest s s'"
    "page_ord s' = page_ord s" "page_free s' = (page_free s)(r := False)"
    "page_at s' = (page_at s)(r := Some p')" "plain_page p'" "pg_order p' = pg_order p"
    "pg_seg p' = pg_seg p"
proof -
  let ?k = "unat (pg_order p)"
  have f: "page_free s r" using p by (simp add: page_free_Some)
  have k: "page_ord s r = ?k" "?k \<le> 10" using p phys_invD(6) [OF inv f] by (simp_all add: page_ord_Some)
  have lists: "length (vm_freelist s) = 11" "r \<in> set (vm_freelist s ! ?k)"
    using phys_invD(3) [OF inv] f k by (auto simp: lists_ok_def)
  obtain p' where p': "vm_page_set_state VM_PG_NORMAL p = Some p'" "\<not> vm_page_is_free p'"
    "pg_order p' = pg_order p" "pg_seg p' = pg_seg p" "plain_page p' = plain_page p"
    by (rule set_state_normal [of p])
  let ?s1 = "s\<lparr>vm_freelist := (vm_freelist s)[?k := remove1 r (vm_freelist s ! ?k)]\<rparr>"
  have at1: "page_at ?s1 = page_at s" by (rule ext) (simp add: page_at_def)
  obtain s' where s': "page_put ?s1 r p' = Some s'" "page_at s' = (page_at s)(r := Some p')"
    "vm_freelist s' = vm_freelist ?s1" "same_rest ?s1 s'"
    using page_put_run [of ?s1 r p'] p(1) by (auto simp: at1)
  have rest: "same_rest s s'" using s'(4) by (simp add: same_rest_def seg_geo_def)
  have run: "vm_freelist_rem s r = Some s'"
    using p p' s'(1) k lists by (simp add: vm_freelist_rem_def VM_PHYS_ORDER_NUM_def Let_def)
  note t = take_inv [OF inv p s'(2) rest _ p'(2-5)]
  have plain: "plain_page p'" using pages_okD(2) [OF phys_invD(2) [OF inv] p(1)] p p' by simp
  show ?thesis
    by (rule that [OF run _ rest _ _ s'(2) plain p'(3,4)]) (use t s'(3) in simp_all)
qed

subsection \<open>Putting a block on its free list\<close>

lemma freelist_add_run:
  assumes p: "page_at s r = Some p" "unat (pg_order p) \<le> 10" and len: "length (vm_freelist s) = 11"
  obtains s' p' where "vm_freelist_add s r = Some s'" "same_rest s s'"
    "page_at s' = (page_at s)(r := Some p')" "vm_page_is_free p'" "pg_order p' = pg_order p"
    "pg_seg p' = pg_seg p" "plain_page p' = plain_page p"
    "vm_freelist s' = (vm_freelist s)[unat (pg_order p) := vm_freelist s ! unat (pg_order p) @ [r]]"
proof -
  let ?k = "unat (pg_order p)"
  let ?s1 = "s\<lparr>vm_freelist := (vm_freelist s)[?k := vm_freelist s ! ?k @ [r]]\<rparr>"
  obtain p' where p': "vm_page_set_state VM_PG_FREE p = Some p'" "vm_page_is_free p'"
    "pg_order p' = pg_order p" "pg_seg p' = pg_seg p" "plain_page p' = plain_page p"
    by (rule set_state_free [of p])
  have at1: "page_at ?s1 = page_at s" by (rule ext) (simp add: page_at_def)
  obtain s' where s': "page_put ?s1 r p' = Some s'" "page_at s' = (page_at s)(r := Some p')"
    "vm_freelist s' = vm_freelist ?s1" "same_rest ?s1 s'"
    using page_put_run [of ?s1 r p'] p(1) by (auto simp: at1)
  have rest: "same_rest s s'" using s'(4) by (simp add: same_rest_def seg_geo_def)
  have run: "vm_freelist_add s r = Some s'"
    using p p' s'(1) len by (simp add: vm_freelist_add_def VM_PHYS_ORDER_NUM_def Let_def)
  show ?thesis
    by (rule that [OF run rest s'(2) p'(2-5)]) (use s'(3) in simp)
qed

lemma lists_len: "phys_inv s \<Longrightarrow> length (vm_freelist s) = 11"
  by (simp add: phys_inv_def lists_ok_def)

lemma release_run:
  assumes inv: "phys_inv s" and p: "page_at s r = Some p" "\<not> vm_page_is_free p" "plain_page p"
      "page_ord s r \<le> 10"
    and no_buddy: "page_ord s r = 10 \<or> (\<forall>b. page_free s b \<and> page_ord s b = page_ord s r \<and>
      pseg b = pseg r \<longrightarrow> frame_of (seg_start s) b \<noteq> buddy_of (page_ord s r) (frame_of (seg_start s) r))"
  obtains s' where "vm_freelist_add s r = Some s'" "phys_inv s'" "same_rest s s'"
    "page_ord s' = page_ord s" "page_free s' = (page_free s)(r := True)"
    "\<And>x. x \<noteq> r \<Longrightarrow> page_at s' x = page_at s x"
proof -
  have k: "unat (pg_order p) \<le> 10" "page_ord s r = unat (pg_order p)"
    using p by (simp_all add: page_ord_Some)
  obtain s' p' where s': "vm_freelist_add s r = Some s'" "same_rest s s'"
    "page_at s' = (page_at s)(r := Some p')" "vm_page_is_free p'" "pg_order p' = pg_order p"
    "pg_seg p' = pg_seg p" "plain_page p' = plain_page p"
    "vm_freelist s' = (vm_freelist s)[unat (pg_order p) := vm_freelist s ! unat (pg_order p) @ [r]]"
    by (rule freelist_add_run [OF p(1) k(1) lists_len [OF inv]])
  have o': "page_ord s' = page_ord s" using page_ord_upd [OF s'(3)] k(2) s'(5) by auto
  have f': "page_free s' = (page_free s)(r := True)" using page_free_upd [OF s'(3)] s'(4) by simp
  have "pages_ok (page_at s')"
    unfolding s'(3) using pages_okD(1) [OF phys_invD(2) [OF inv] p(1)] p s'
    by (intro pages_ok_upd phys_invD(2) [OF inv]) auto
  moreover have "lists_ok (vm_freelist s') (page_ord s') (page_free s')"
    unfolding s'(8) o' f' using k p
    by (intro lists_add [OF phys_invD(3) [OF inv]]) (auto simp: page_free_Some)
  moreover have "buddy_wf (seg_start s) (pages s) (page_ord s') (page_free s')"
    unfolding o' f' by (rule release_wf [OF phys_invD(4) [OF inv] p(4) no_buddy])
  ultimately have "phys_inv s'" by (intro phys_inv_intro [OF inv s'(2)])
  with s' o' f' show ?thesis by (intro that [of s']) auto
qed

subsection \<open>Splitting\<close>

lemma shl_1U_small: "n < 32 \<Longrightarrow> \<exists>w. shl_1U n = Some w \<and> unat w = 2 ^ n"
  by (simp add: shl_1U_def push_bit_eq_mult unat_2p)

lemma byte_pred: "unat (w :: u8) = Suc k \<Longrightarrow> unat (w - 1) = k"
  by (metis diff_Suc_1 unat_eq_zero unat_minus_one nat.distinct(1))

lemma split_step:
  assumes inv: "phys_inv s" and p: "page_at s r = Some p" "\<not> vm_page_is_free p"
    and k: "unat (pg_order p) = Suc k" "Suc k \<le> 10"
  obtains s' where
    "\<And>ord. pg_order p > ord \<Longrightarrow> vm_page_split s r ord = vm_page_split s' r ord"
    "phys_inv s'" "same_rest s s'" "page_ord s' = (page_ord s)(r := k, upper r k := k)"
    "page_free s' = (page_free s)(upper r k := True)"
    "page_at s' r = Some (p\<lparr>pg_order := pg_order p - 1\<rparr>)"
    "\<And>x. x \<noteq> r \<Longrightarrow> x \<noteq> upper r k \<Longrightarrow> page_at s' x = page_at s x"
proof -
  let ?b = "upper r k" and ?p1 = "p\<lparr>pg_order := pg_order p - 1\<rparr>"
  have ord: "page_ord s r = Suc k" using p k by (simp add: page_ord_Some)
  have k1: "unat (pg_order ?p1) = k" using byte_pred [OF k(1)] by simp
  have b: "page_ord s ?b = 255" by (rule upper_of_block [OF phys_invD(5) [OF inv] ord k(2)])
  have "?b \<in> pages s"
    using blocks_wfD(3) [OF phys_invD(5) [OF inv], of r] ord k by (auto simp: blk_Suc)
  then obtain bp where bp: "page_at s ?b = Some bp" by (auto simp: pages_def)
  have btaken: "\<not> vm_page_is_free bp"
    using phys_invD(6) [OF inv, of ?b] b bp by (auto simp: page_free_Some)
  have bplain: "plain_page bp" "unat (pg_seg bp) = pseg ?b"
    using pages_okD [OF phys_invD(2) [OF inv] bp] b page_ord_Some [OF bp]
    by (auto simp: VM_PHYS_ORDER_NONE_def word_unat_eq_iff)
  obtain s1 where s1: "set_order s r (pg_order p - 1) = Some s1"
    "page_at s1 = (page_at s)(r := Some ?p1)" "vm_freelist s1 = vm_freelist s" "same_rest s s1"
    by (rule set_order_run [OF p(1)])
  obtain n where n: "vm_page_num ?p1 = Some n" "unat n = 2 ^ k"
    using shl_1U_small [of k] k(2) byte_pred [OF k(1)] by (auto simp: vm_page_num_def)
  have ref: "PgRef (pseg r) (pidx r + unat n) = ?b" using n by (simp add: upper_def)
  have bp1: "page_at s1 ?b = Some bp" using s1 bp by simp
  obtain s2 where s2: "set_order s1 ?b (pg_order ?p1) = Some s2"
    "page_at s2 = (page_at s1)(?b := Some (bp\<lparr>pg_order := pg_order ?p1\<rparr>))"
    "vm_freelist s2 = vm_freelist s1" "same_rest s1 s2"
    by (rule set_order_run [OF bp1])
  have at2: "page_at s2 ?b = Some (bp\<lparr>pg_order := pg_order ?p1\<rparr>)" using s2 by simp
  obtain s3 p' where s3: "vm_freelist_add s2 ?b = Some s3" "same_rest s2 s3"
    "page_at s3 = (page_at s2)(?b := Some p')" "vm_page_is_free p'" "pg_order p' = pg_order ?p1"
    "pg_seg p' = pg_seg bp" "plain_page p'"
    "vm_freelist s3 = (vm_freelist s)[k := vm_freelist s ! k @ [?b]]"
    by (rule freelist_add_run [OF at2])
      (use k k1 lists_len [OF inv] s1(3) s2(3) bplain in \<open>simp_all add: plain_page_def\<close>)
  have at3: "page_at s3 = (page_at s)(r := Some ?p1, ?b := Some p')"
    using s1(2) s2(2) s3(3) by simp
  have rest: "same_rest s s3" using s1(4) s2(4) s3(2) same_rest_trans by blast
  have o': "page_ord s3 = (page_ord s)(r := k, ?b := k)"
    by (rule ext) (use k1 s3(5) in \<open>simp add: page_ord_def at3\<close>)
  have f': "page_free s3 = (page_free s)(?b := True)"
    by (rule ext) (use s3(4) p in \<open>simp add: page_free_def at3 vm_page_is_free_def vm_page_state_def\<close>)
  have "pages_ok (page_at s3)"
    unfolding at3 using pages_okD(1) [OF phys_invD(2) [OF inv] p(1)] p bplain s3 k1 k(2)
    by (intro pages_ok_upd phys_invD(2) [OF inv])
      (auto simp: VM_PHYS_ORDER_NONE_def vm_page_is_free_def vm_page_state_def)
  moreover have "lists_ok (vm_freelist s3) (page_ord s3) (page_free s3)"
    unfolding s3(8) o' f' using phys_invD(3) [OF inv] k bp btaken p
    by (intro lists_add [OF phys_invD(3) [OF inv]]) (auto simp: page_free_Some)
  moreover have "buddy_wf (seg_start s) (pages s) (page_ord s3) (page_free s3)"
    unfolding o' f' using p by (intro split_wf phys_invD(4) [OF inv] ord k) (simp add: page_free_Some)
  ultimately have "phys_inv s3" by (intro phys_inv_intro [OF inv rest])
  moreover have "vm_page_split s r ord = vm_page_split s3 r ord" if "pg_order p > ord" for ord
    using that p s1 n ref bp1 btaken s2(1) s3(1)
    by (subst vm_page_split.simps) (simp add: Let_def)
  ultimately show ?thesis
    using rest o' f' by (intro that [of s3]) (auto simp: at3)
qed

lemma blk_mono: "k \<le> n \<Longrightarrow> blk r k \<subseteq> blk r n"
  by (auto simp: mem_blk) (meson add_left_mono le_trans not_le power_increasing_iff one_less_numeral_iff semiring_norm(76))

lemma split_run:
  assumes "phys_inv s" "page_at s r = Some p" "\<not> vm_page_is_free p"
    "unat (pg_order p) = n" "n \<le> 10" "unat ord \<le> n"
  obtains s' where "vm_page_split s r ord = Some s'" "phys_inv s'" "same_rest s s'"
    "page_at s' r = Some (p\<lparr>pg_order := ord\<rparr>)"
    "free_set s' = free_set s \<union> (blk r n - blk r (unat ord))"
    "\<And>x. x \<notin> blk r n \<Longrightarrow> page_at s' x = page_at s x"
  using assms
proof (induction n arbitrary: s p thesis)
  case 0
  then have "pg_order p = ord" by (simp add: word_unat_eq_iff)
  with 0 show ?case
    by (intro "0.prems"(1) [of s]) (auto simp: vm_page_split.simps [of s])
next
  case (Suc k)
  show ?case
  proof (cases "unat ord = Suc k")
    case True
    with Suc.prems have "pg_order p = ord" by (simp add: word_unat_eq_iff)
    with Suc.prems True show ?thesis
      by (intro Suc.prems(1) [of s]) (auto simp: vm_page_split.simps [of s])
  next
    case False
    with Suc.prems have m: "unat ord \<le> k" and gt: "pg_order p > ord"
      by (simp_all add: word_less_nat_alt)
    obtain s1 where s1: "\<And>ord. pg_order p > ord \<Longrightarrow> vm_page_split s r ord = vm_page_split s1 r ord"
      "phys_inv s1" "same_rest s s1" "page_ord s1 = (page_ord s)(r := k, upper r k := k)"
      "page_free s1 = (page_free s)(upper r k := True)"
      "page_at s1 r = Some (p\<lparr>pg_order := pg_order p - 1\<rparr>)"
      "\<And>x. x \<noteq> r \<Longrightarrow> x \<noteq> upper r k \<Longrightarrow> page_at s1 x = page_at s x"
      using split_step [OF Suc.prems(2-6)] by blast
    have ff: "free_set s1 = free_set s \<union> blk (upper r k) k"
      unfolding free_set_def s1(4,5) using Suc.prems
      by (intro split_frames [OF phys_invD(4) [OF Suc.prems(2)]])
        (auto simp: page_ord_Some page_free_Some)
    have "\<not> vm_page_is_free (p\<lparr>pg_order := pg_order p - 1\<rparr>)"
      using Suc.prems(4) by (simp add: vm_page_is_free_def vm_page_state_def)
    moreover have "unat (pg_order (p\<lparr>pg_order := pg_order p - 1\<rparr>)) = k"
      using byte_pred [OF Suc.prems(5)] by simp
    ultimately obtain s' where s': "vm_page_split s1 r ord = Some s'" "phys_inv s'" "same_rest s1 s'"
      "page_at s' r = Some (p\<lparr>pg_order := pg_order p - 1, pg_order := ord\<rparr>)"
      "free_set s' = free_set s1 \<union> (blk r k - blk r (unat ord))"
      "\<And>x. x \<notin> blk r k \<Longrightarrow> page_at s' x = page_at s1 x"
      using Suc.IH [OF _ s1(2,6)] Suc.prems(6) m by (metis Suc_leD)
    show ?thesis
    proof (rule Suc.prems(1) [of s'])
      show "vm_page_split s r ord = Some s'" using s1(1) [OF gt] s'(1) by simp
      show "same_rest s s'" using s1(3) s'(3) by (rule same_rest_trans)
      show "free_set s' = free_set s \<union> (blk r (Suc k) - blk r (unat ord))"
        unfolding s'(5) ff blk_Suc using blk_upper_disjoint [of r k] blk_mono [OF m, of r] by blast
      fix x assume "x \<notin> blk r (Suc k)"
      then have "x \<notin> blk r k" "x \<noteq> r" "x \<noteq> upper r k"
        by (auto simp: blk_Suc)
      then show "page_at s' x = page_at s x" using s'(6) s1(7) by simp
    qed (use s' in simp_all)
  qed
qed

subsection \<open>Searching the free lists\<close>

lemma alloc_find_run:
  assumes "phys_inv s"
  shows "(\<exists>r s' p p'. vm_page_alloc_find s i = Some (Some r, s') \<and> i \<le> page_ord s r \<and>
      page_at s r = Some p \<and> vm_page_is_free p \<and> phys_inv s' \<and> same_rest s s' \<and>
      page_ord s' = page_ord s \<and> page_free s' = (page_free s)(r := False) \<and>
      page_at s' = (page_at s)(r := Some p') \<and> plain_page p' \<and> pg_order p' = pg_order p \<and>
      vm_page_state p' = VM_PG_NORMAL \<and> \<not> vm_page_is_free p') \<or>
    (vm_page_alloc_find s i = Some (None, s) \<and> (\<forall>r. page_free s r \<longrightarrow> page_ord s r < i))"
    (is "?found i \<or> ?none i")
proof (induction "11 - i" arbitrary: i)
  case 0
  then have i: "i \<ge> 11" by simp
  then have "vm_page_alloc_find s i = Some (None, s)"
    by (simp add: vm_page_alloc_find.simps VM_PHYS_ORDER_NUM_def)
  moreover have "\<forall>r. page_free s r \<longrightarrow> page_ord s r < i"
  proof (intro allI impI)
    fix r assume "page_free s r"
    from phys_invD(6) [OF assms this] i show "page_ord s r < i" by linarith
  qed
  ultimately show ?case by blast
next
  case (Suc n)
  then have i: "i < 11" by simp
  have lists: "length (vm_freelist s) = 11"
    "\<And>r. r \<in> set (vm_freelist s ! i) \<longleftrightarrow> page_free s r \<and> page_ord s r = i"
    using phys_invD(3) [OF assms] i by (auto simp: lists_ok_def)
  show ?case
  proof (cases "vm_freelist s ! i")
    case Nil
    then have step: "vm_page_alloc_find s i = vm_page_alloc_find s (i + 1)"
      using i lists by (subst vm_page_alloc_find.simps)
        (simp add: vm_freelist_pop_def VM_PHYS_ORDER_NUM_def)
    have no: "\<not> (page_free s r \<and> page_ord s r = i)" for r using lists(2) [of r] Nil by simp
    have "?found (i + 1) \<or> ?none (i + 1)" using Suc by (intro Suc.hyps(1)) simp
    then show ?thesis
    proof
      assume "?found (i + 1)"
      then have "?found i" unfolding step by (meson add_leD1)
      then show ?thesis ..
    next
      assume "?none (i + 1)"
      with no have "?none i" unfolding step by (metis Suc_eq_plus1 less_Suc_eq)
      then show ?thesis ..
    qed
  next
    case (Cons r rs)
    then have r: "page_free s r" "page_ord s r = i" using lists(2) [of r] by auto
    then obtain p where p: "page_at s r = Some p" "vm_page_is_free p" "unat (pg_order p) = i"
      by (auto simp: page_free_def page_ord_def split: option.splits)
    obtain p' where p': "vm_page_set_state VM_PG_NORMAL p = Some p'" "\<not> vm_page_is_free p'"
      "pg_order p' = pg_order p" "pg_seg p' = pg_seg p" "plain_page p' = plain_page p"
      "vm_page_state p' = VM_PG_NORMAL"
      by (rule set_state_normal [of p])
    let ?s1 = "s\<lparr>vm_freelist := (vm_freelist s)[i := rs]\<rparr>"
    have at1: "page_at ?s1 = page_at s" by (rule ext) (simp add: page_at_def)
    obtain s' where s': "page_put ?s1 r p' = Some s'" "page_at s' = (page_at s)(r := Some p')"
      "vm_freelist s' = vm_freelist ?s1" "same_rest ?s1 s'"
      using page_put_run [of ?s1 r p'] p(1) by (auto simp: at1)
    have rest: "same_rest s s'" using s'(4) by (simp add: same_rest_def seg_geo_def)
    have "vm_page_alloc_find s i = Some (Some r, s')"
      using i lists(1) Cons p p' s'(1)
      by (subst vm_page_alloc_find.simps) (simp add: vm_freelist_pop_def VM_PHYS_ORDER_NUM_def at1)
    moreover have "vm_freelist s' = (vm_freelist s)[unat (pg_order p) :=
        remove1 r (vm_freelist s ! unat (pg_order p))]"
      using s'(3) p(3) Cons by simp
    note t = take_inv [OF assms p(1,2) s'(2) rest this p'(2-5)]
    moreover have "plain_page p'" using pages_okD(2) [OF phys_invD(2) [OF assms] p(1)] p p' by simp
    ultimately have "?found i" using r p p' s'(2) rest by blast
    then show ?thesis ..
  qed
qed

subsection \<open>Allocation\<close>

lemma page_at_pr [simp]: "page_at (s\<lparr>phys_pr := x\<rparr>) = page_at s"
  by (rule ext) (simp add: page_at_def)

lemma pr_irrelevant [simp]:
  "page_ord (s\<lparr>phys_pr := x\<rparr>) = page_ord s" "page_free (s\<lparr>phys_pr := x\<rparr>) = page_free s"
  "pages (s\<lparr>phys_pr := x\<rparr>) = pages s" "seg_start (s\<lparr>phys_pr := x\<rparr>) = seg_start s"
  "seg_geo (s\<lparr>phys_pr := x\<rparr>) = seg_geo s"
  by (auto simp: page_ord_def page_free_def pages_def seg_start_def seg_geo_def fun_eq_iff)

lemma free_set_pr [simp]: "free_set (s\<lparr>phys_pr := x\<rparr>) = free_set s"
  by (simp add: free_set_def)

lemma phys_inv_pr [simp]: "phys_inv (s\<lparr>phys_pr := x\<rparr>) = phys_inv s"
  by (simp add: phys_inv_def geo_ok_def)

lemma finite_pages [simp]: "finite (pages s)"
proof -
  have "pages s \<subseteq> (\<Union>sg < length (vm_physegs s).
      PgRef sg ` {..< length (the (ps_pages (vm_physegs s ! sg)))})"
  proof
    fix r assume "r \<in> pages s"
    then show "r \<in> (\<Union>sg < length (vm_physegs s).
        PgRef sg ` {..< length (the (ps_pages (vm_physegs s ! sg)))})"
      by (cases r) (auto simp: pages_def page_at_Some intro!: bexI [of _ "pseg r"])
  qed
  then show ?thesis by (rule finite_subset) auto
qed

lemma free_set_pages: "phys_inv s \<Longrightarrow> free_set s \<subseteq> pages s"
  unfolding free_set_def by (rule free_frames_subset [OF phys_invD(4)])

lemma finite_free_set: "phys_inv s \<Longrightarrow> finite (free_set s)"
  using free_set_pages finite_pages by (rule finite_subset)

lemma unat_ucast_u64 [simp]: "unat (ucast (w :: u32) :: u64) = unat w"
  by (simp add: unat_ucast_up)

lemma acct_alloc:
  assumes inv: "phys_inv s" "phys_acct s" and n: "unat n = 4096 * m" "n < INT64_MAX"
    and s': "free_set s' = free_set s - B" "B \<subseteq> free_set s" "card B = m" "same_rest s s'"
  obtains pr where "vm_pressure_inc VM_PR_MEM_PHYS n (phys_pr s') = Some pr"
    "phys_acct (s'\<lparr>phys_pr := pr\<rparr>)"
proof -
  have fin: "finite (free_set s)" by (rule finite_free_set [OF inv(1)])
  have le: "m \<le> card (free_set s)" using s'(2,3) card_mono [OF fin s'(2)] by simp
  have pr: "phys_pr s' = phys_pr s" using s'(4) by (simp add: same_rest_def)
  have pg: "pages s' = pages s" using s'(4) by (intro pages_cong) (simp add: same_rest_def)
  have a: "pressure_inv (phys_pr s)"
    "unat (free (vm_pr_mem (phys_pr s) VM_PR_MEM_PHYS)) = 4096 * card (free_set s)"
    using inv(2) by (simp_all add: phys_acct_def)
  have "n \<le> free (vm_pr_mem (phys_pr s) VM_PR_MEM_PHYS)"
    using a(2) n(1) le by (simp add: word_le_nat_alt)
  then obtain pr' where pr': "vm_pressure_inc VM_PR_MEM_PHYS n (phys_pr s) = Some pr'"
    "pressure_inv pr'"
    "unat (free (vm_pr_mem pr' VM_PR_MEM_PHYS)) =
       unat (free (vm_pr_mem (phys_pr s) VM_PR_MEM_PHYS)) - unat n"
    "total (vm_pr_mem pr' VM_PR_MEM_PHYS) = total (vm_pr_mem (phys_pr s) VM_PR_MEM_PHYS)"
    "threshold (vm_pr_mem pr' VM_PR_MEM_PHYS) = threshold (vm_pr_mem (phys_pr s) VM_PR_MEM_PHYS)"
    using vm_pressure_inc_ok [OF a(1) _ n(2)] by metis
  have "card (free_set s') = card (free_set s) - m"
    unfolding s'(1) using s'(2,3) fin by (metis card_Diff_subset finite_subset)
  then show ?thesis
    using that [of pr'] pr' a n(1) inv(2) pr pg by (simp add: phys_acct_def diff_mult_distrib2)
qed

lemma acct_free:
  assumes inv: "phys_inv s" "phys_acct s" and n: "unat n = 4096 * m" "n < INT64_MAX"
    and B: "B \<inter> free_set s = {}" "B \<subseteq> pages s" "card B = m"
  obtains pr where "vm_pressure_dec VM_PR_MEM_PHYS n (phys_pr s) = Some pr"
    "\<And>s'. free_set s' = free_set s \<union> B \<Longrightarrow> seg_geo s' = seg_geo s \<Longrightarrow> phys_pr s' = pr \<Longrightarrow> phys_acct s'"
proof -
  have fin: "finite (free_set s)" "finite B"
    using finite_free_set [OF inv(1)] finite_subset [OF B(2) finite_pages] by simp_all
  have c: "card (free_set s \<union> B) = card (free_set s) + m"
    using fin B by (subst card_Un_disjoint) auto
  have "free_set s \<union> B \<subseteq> pages s" using free_set_pages [OF inv(1)] B(2) by blast
  then have le: "card (free_set s) + m \<le> card (pages s)"
    using card_mono [OF finite_pages] c by metis
  have a: "pressure_inv (phys_pr s)"
    "unat (free (vm_pr_mem (phys_pr s) VM_PR_MEM_PHYS)) = 4096 * card (free_set s)"
    "4096 * card (pages s) \<le> unat (total (vm_pr_mem (phys_pr s) VM_PR_MEM_PHYS))"
    "threshold (vm_pr_mem (phys_pr s) VM_PR_MEM_PHYS) = 0"
    using inv(2) by (simp_all add: phys_acct_def)
  have "unat (free (vm_pr_mem (phys_pr s) VM_PR_MEM_PHYS)) + unat n \<le>
      unat (total (vm_pr_mem (phys_pr s) VM_PR_MEM_PHYS))"
    using a(2,3) n(1) le by linarith
  then obtain pr' where pr': "vm_pressure_dec VM_PR_MEM_PHYS n (phys_pr s) = Some pr'"
    "pressure_inv pr'"
    "unat (free (vm_pr_mem pr' VM_PR_MEM_PHYS)) =
       unat (free (vm_pr_mem (phys_pr s) VM_PR_MEM_PHYS)) + unat n"
    "total (vm_pr_mem pr' VM_PR_MEM_PHYS) = total (vm_pr_mem (phys_pr s) VM_PR_MEM_PHYS)"
    "threshold (vm_pr_mem pr' VM_PR_MEM_PHYS) = threshold (vm_pr_mem (phys_pr s) VM_PR_MEM_PHYS)"
    using vm_pressure_dec_ok [OF a(1) n(2)] by metis
  show ?thesis
  proof (rule that [OF pr'(1)])
    fix s' assume s': "free_set s' = free_set s \<union> B" "seg_geo s' = seg_geo s" "phys_pr s' = pr'"
    show "phys_acct s'"
      using pr' a n(1) by (simp add: phys_acct_def s'(1,3) c pages_cong [OF s'(2)])
  qed
qed

text \<open>
  What an allocation gives: a block of the requested order, all of whose frames were free,
  that now belongs to the caller; no other page that was in use changes.
\<close>

definition allocated :: "phys_state \<Rightarrow> pgref \<Rightarrow> u8 \<Rightarrow> phys_state \<Rightarrow> bool" where
  "allocated s r ord s' \<longleftrightarrow> phys_inv s' \<and> phys_acct s' \<and>
     (\<exists>p. page_at s' r = Some p \<and> pg_order p = ord \<and> vm_page_state p = VM_PG_NORMAL \<and> plain_page p) \<and>
     blk r (unat ord) \<subseteq> free_set s \<and> free_set s' = free_set s - blk r (unat ord) \<and>
     (\<forall>x. x \<notin> free_set s \<longrightarrow> page_at s' x = page_at s x) \<and>
     seg_geo s' = seg_geo s \<and> vm_init s' = vm_init s \<and> vm_phys_rsv s' = vm_phys_rsv s"

lemma wait_p_iff:
  assumes "phys_acct s" "unat sz = 2 ^ (k + 12)" "k \<le> 10"
  shows "vm_mem_wait_p VM_PR_MEM_PHYS (ucast (sz :: u32)) (phys_pr s) \<longleftrightarrow> card (free_set s) < 2 ^ k"
proof -
  have "vm_mem_wait_p VM_PR_MEM_PHYS (ucast sz) (phys_pr s) \<longleftrightarrow> 4096 * card (free_set s) < 2 ^ (k + 12)"
    using assms by (simp add: vm_mem_wait_p_def phys_acct_def word_less_nat_alt)
  also have "(2 :: nat) ^ (k + 12) = 4096 * 2 ^ k" by (simp add: power_add)
  finally show ?thesis by simp
qed

lemma small_below_max: "unat (sz :: u32) = n \<Longrightarrow> (ucast sz :: u64) < INT64_MAX"
  using unsigned_less [of sz, where ?'a = nat]
  by (simp add: word_less_nat_alt INT64_MAX_def)

lemma alloc_order_cases:
  assumes inv: "phys_inv s" "phys_acct s" and k: "unat ord \<le> 10"
  obtains (short) "vm_page_alloc_order ord s = Some (None, s)" "card (free_set s) < 2 ^ unat ord"
    | (got) r s' where "vm_page_alloc_order ord s = Some (Some r, s')" "allocated s r ord s'"
    | (fragmented) "vm_page_alloc_order ord s = None" "card (free_set s) \<ge> 2 ^ unat ord"
        "\<And>r. page_free s r \<Longrightarrow> page_ord s r < unat ord"
proof -
  obtain sz where sz: "shl_1U (unat ord + PAGE_SHIFT) = Some sz" "unat sz = 2 ^ (unat ord + 12)"
    using shl_1U_small [of "unat ord + PAGE_SHIFT"] k by (auto simp: PAGE_SHIFT_def)
  note wait = wait_p_iff [OF inv(2) sz(2) k]
  show ?thesis
  proof (cases "card (free_set s) < 2 ^ unat ord")
    case True
    then show ?thesis by (intro short) (simp_all add: vm_page_alloc_order_def sz(1) wait)
  next
    case False
    from alloc_find_run [OF inv(1), of "unat ord"] show ?thesis
    proof (elim disjE exE conjE)
      assume "vm_page_alloc_find s (unat ord) = Some (None, s)" "\<forall>r. page_free s r \<longrightarrow> page_ord s r < unat ord"
      with False show ?thesis by (intro fragmented) (auto simp: vm_page_alloc_order_def sz(1) wait)
    next
      fix r s1 p p'
      assume s1: "vm_page_alloc_find s (unat ord) = Some (Some r, s1)" "unat ord \<le> page_ord s r"
        "page_at s r = Some p" "vm_page_is_free p" "phys_inv s1" "same_rest s s1"
        "page_ord s1 = page_ord s" "page_free s1 = (page_free s)(r := False)"
        "page_at s1 = (page_at s)(r := Some p')" "plain_page p'" "pg_order p' = pg_order p"
        "vm_page_state p' = VM_PG_NORMAL" "\<not> vm_page_is_free p'"
      let ?n = "page_ord s r" and ?B = "blk r (unat ord)"
      have f: "page_free s r" using s1 by (simp add: page_free_Some)
      have n: "unat (pg_order p') = ?n" "?n \<le> 10"
        using s1 phys_invD(6) [OF inv(1) f] by (simp_all add: page_ord_Some)
      have sub: "blk r ?n \<subseteq> free_set s" using f by (auto simp: free_set_def free_frames_def)
      have ff1: "free_set s1 = free_set s - blk r ?n"
        unfolding free_set_def s1(7,8) by (rule take_frames [OF phys_invD(4) [OF inv(1)] f])
      obtain s2 where s2: "vm_page_split s1 r ord = Some s2" "phys_inv s2" "same_rest s1 s2"
        "page_at s2 r = Some (p'\<lparr>pg_order := ord\<rparr>)"
        "free_set s2 = free_set s1 \<union> (blk r ?n - ?B)"
        "\<And>x. x \<notin> blk r ?n \<Longrightarrow> page_at s2 x = page_at s1 x"
        using split_run [OF s1(5) _ s1(13) n s1(2)] s1(9) by (metis fun_upd_same)
      have B: "?B \<subseteq> blk r ?n" by (rule blk_mono [OF s1(2)])
      have ff2: "free_set s2 = free_set s - ?B" using s2(5) ff1 sub B by blast
      have rest: "same_rest s s2" using s1(6) s2(3) by (rule same_rest_trans)
      obtain pr where pr: "vm_pressure_inc VM_PR_MEM_PHYS (ucast sz) (phys_pr s2) = Some pr"
        "phys_acct (s2\<lparr>phys_pr := pr\<rparr>)"
        by (rule acct_alloc [OF inv _ small_below_max [OF sz(2)] ff2 _ _ rest, of "2 ^ unat ord"])
          (use sub B sz(2) in \<open>auto simp: power_add\<close>)
      have run: "vm_page_alloc_order ord s = Some (Some r, s2\<lparr>phys_pr := pr\<rparr>)"
        using False s1(1) s2(1) pr(1) by (simp add: vm_page_alloc_order_def sz(1) wait)
      have "page_at s2 x = page_at s x" if "x \<notin> free_set s" for x
      proof -
        have "x \<notin> blk r ?n" "x \<noteq> r" using that sub blk_self by blast+
        then show ?thesis using s2(6) s1(9) by simp
      qed
      then have "allocated s r ord (s2\<lparr>phys_pr := pr\<rparr>)"
        using s2 pr(2) ff2 sub B s1(10,12) rest
        by (auto simp: allocated_def plain_page_def vm_page_state_def same_rest_def)
      with run show ?thesis by (rule got)
    qed
  qed
qed

subsection \<open>Merging\<close>

lemma nat_xor_2p: "(a :: nat) XOR 2 ^ k = buddy_of k a"
proof -
  have "a XOR 2 ^ k = flip_bit k a" by (simp add: flip_bit_eq_xor push_bit_eq_mult)
  also have "\<dots> = buddy_of k a"
  proof (cases "bit a k")
    case True
    then have "set_bit k (unset_bit k a) = a"
      by (intro bit_eqI) (auto simp: bit_set_bit_iff bit_unset_bit_iff)
    then have "unset_bit k a + 2 ^ k = a"
      by (simp add: set_bit_eq bit_unset_bit_iff)
    with True show ?thesis by (simp add: flip_bit_eq_if buddy_of_def bit_iff_odd)
  next
    case False
    then show ?thesis by (simp add: flip_bit_eq_if set_bit_eq buddy_of_def bit_iff_odd)
  qed
  finally show ?thesis .
qed

lemma unat_xor_buddy: "k < 32 \<Longrightarrow> unat (w XOR push_bit k 1 :: u32) = buddy_of k (unat w)"
  by (simp add: unsigned_xor_eq push_bit_eq_mult unat_2p nat_xor_2p)

lemma unat_parent:
  assumes "k < 31" "2 ^ k dvd unat a" "unat w = buddy_of k (unat a)"
  shows "unat (w AND NOT (push_bit 1 (push_bit k 1) - 1) :: u32) = min (unat a) (unat w)"
proof -
  have "push_bit 1 (push_bit k 1 :: u32) = 2 ^ Suc k" by (simp add: push_bit_eq_mult)
  then have "w AND NOT (push_bit 1 (push_bit k 1) - 1) = w AND NOT (mask (Suc k))"
    by (simp only: mask_eq)
  then show ?thesis
    using buddy_parent [OF assms(2)] by (simp add: unat_and_not_mask assms(3))
qed

lemma geo_bound:
  assumes "geo_ok s" "sg < length (vm_physegs s)"
  shows "unat (ps_start (vm_physegs s ! sg)) + unat (ps_size (vm_physegs s ! sg)) \<le> 2 ^ 20"
    "ps_pages (vm_physegs s ! sg) = Some ps \<Longrightarrow> length ps = unat (ps_size (vm_physegs s ! sg))"
    "sg < 8"
proof -
  let ?x = "vm_physegs s ! sg"
  have "(ps_start ?x, ps_size ?x, map_option length (ps_pages ?x)) \<in> set (seg_geo s)"
    using assms(2) by (auto simp: seg_geo_def)
  with assms(1) show "unat (ps_start ?x) + unat (ps_size ?x) \<le> 2 ^ 20"
    "ps_pages ?x = Some ps \<Longrightarrow> length ps = unat (ps_size ?x)"
    unfolding geo_ok_def by fastforce+
  show "sg < 8" using assms by (simp add: geo_ok_def seg_geo_def)
qed

text \<open>The address of a page and its segment, without wrap-around.\<close>

lemma page_frame:
  assumes inv: "phys_inv s" and p: "page_at s r = Some p"
  obtains a seg where "vm_page_addr s r = Some a" "unat a = frame_of (seg_start s) r"
    "nth_opt (vm_physegs s) (pseg r) = Some seg" "unat (ps_start seg) = seg_start s (pseg r)"
    "unat (ps_start seg + ps_size seg) = seg_start s (pseg r) + unat (ps_size seg)"
    "unat a < 2 ^ 20"
    "\<And>i. i < unat (ps_size seg) \<Longrightarrow> page_at s (PgRef (pseg r) i) \<noteq> None"
    "\<And>b. pseg b = pseg r \<Longrightarrow> page_at s b \<noteq> None \<Longrightarrow> pidx b < unat (ps_size seg)"
proof -
  let ?seg = "vm_physegs s ! pseg r"
  from p obtain ps where ps: "pseg r < length (vm_physegs s)" "ps_pages ?seg = Some ps"
    "pidx r < length ps" by (auto simp: page_at_Some)
  note g = geo_bound [OF phys_invD(1) [OF inv] ps(1)]
  have len: "length ps = unat (ps_size ?seg)" by (rule g(2) [OF ps(2)])
  have idx: "unat (of_nat (pidx r) :: u32) = pidx r"
    using g(1) ps(3) len by (simp add: unat_of_nat)
  have add: "unat (ps_start ?seg + of_nat (pidx r)) = unat (ps_start ?seg) + pidx r"
    "unat (ps_start ?seg + ps_size ?seg) = unat (ps_start ?seg) + unat (ps_size ?seg)"
    using g(1) ps(3) len idx by (subst unat_add_lem [THEN iffD1]; simp)+
  have seg: "unat (pg_seg p) = pseg r" by (rule pages_okD(1) [OF phys_invD(2) [OF inv] p])
  have addr: "vm_page_addr s r = Some (ps_start ?seg + of_nat (pidx r))"
    using p seg ps(1,2) g(3) by (simp add: vm_page_addr_def VM_PHYSEG_NUM_def)
  show ?thesis
    by (rule that [OF addr]) (use add g(1) ps len in \<open>auto simp: frame_of_def seg_start_def page_at_Some page_at_dom\<close>)
qed

lemma buddy_pair:
  assumes al: "2 ^ k dvd frame_of start r" and b: "pseg b = pseg r"
    "frame_of start b = buddy_of k (frame_of start r)"
    and h: "pseg h = pseg r" "frame_of start h = min (frame_of start r) (frame_of start b)"
  shows "2 ^ Suc k dvd frame_of start h" "h = r \<and> b = upper h k \<or> h = b \<and> r = upper h k"
proof -
  have "2 ^ Suc k dvd frame_of start h \<and> (h = r \<and> b = upper h k \<or> h = b \<and> r = upper h k)"
    using al
  proof (cases rule: buddy_cases)
    case 1
    then have "frame_of start b = frame_of start r + 2 ^ k" using b(2) by (simp add: buddy_even)
    with h have "h = r" "b = upper r k"
      using frame_inj [of h r start] frame_inj [of b "upper r k" start] b(1) by simp_all
    with 1 show ?thesis by simp
  next
    case (2 a)
    then have "frame_of start b = a" using b(2) by (simp add: buddy_odd)
    with 2 h have "h = b" "r = upper b k"
      using frame_inj [of h b start] frame_inj [of r "upper b k" start] b(1) by simp_all
    with 2 \<open>frame_of start b = a\<close> show ?thesis by simp
  qed
  then show "2 ^ Suc k dvd frame_of start h" "h = r \<and> b = upper h k \<or> h = b \<and> r = upper h k"
    by simp_all
qed

lemma lists_cong:
  assumes "lists_ok F ord f" "\<And>x. f x \<Longrightarrow> ord' x = ord x"
  shows "lists_ok F ord' f"
proof -
  have "{r. f r \<and> ord' r = k} = {r. f r \<and> ord r = k}" for k using assms(2) by auto
  with assms(1) show ?thesis by (simp add: lists_ok_def)
qed

lemma order_Suc: "unat (w :: u8) = k \<Longrightarrow> k < 10 \<Longrightarrow> unat (w + 1) = Suc k"
  by (subst unat_add_lem [THEN iffD1]) simp_all

lemma merge_step:
  assumes inv: "phys_inv s" and p: "page_at s r = Some p" "\<not> vm_page_is_free p" "plain_page p"
      "unat (pg_order p) = k" "k < 10"
    and bp: "page_at s b = Some bp" "vm_page_is_free bp" "pg_order bp = pg_order p" "pseg b = pseg r"
      "frame_of (seg_start s) b = buddy_of k (frame_of (seg_start s) r)"
    and h: "pseg h = pseg r"
      "frame_of (seg_start s) h = min (frame_of (seg_start s) r) (frame_of (seg_start s) b)"
  obtains s1 s2 s3 s4 p' where "vm_freelist_rem s b = Some s1"
    "set_order s1 b VM_PHYS_ORDER_NONE = Some s2" "set_order s2 r VM_PHYS_ORDER_NONE = Some s3"
    "set_order s3 h (pg_order p + 1) = Some s4" "phys_inv s4" "same_rest s s4"
    "page_at s4 h = Some p'" "\<not> vm_page_is_free p'" "plain_page p'" "unat (pg_order p') = Suc k"
    "blk h (Suc k) = blk r k \<union> blk b k" "free_set s4 = free_set s - blk b k"
    "\<And>x. x \<noteq> r \<Longrightarrow> x \<noteq> b \<Longrightarrow> page_at s4 x = page_at s x"
proof -
  have ord: "page_ord s r = k" "page_ord s b = k" using p bp by (simp_all add: page_ord_Some)
  have fr: "\<not> page_free s r" "page_free s b" using p bp by (simp_all add: page_free_Some)
  have al: "2 ^ k dvd frame_of (seg_start s) r"
    using blocks_wfD(2) [OF phys_invD(5) [OF inv], of r] ord p(5) by simp
  note pair = buddy_pair [OF al bp(4,5) h]
  have rb: "r \<noteq> b" using fr by auto
  obtain s1 bp' where s1: "vm_freelist_rem s b = Some s1" "phys_inv s1" "same_rest s s1"
    "page_ord s1 = page_ord s" "page_free s1 = (page_free s)(b := False)"
    "page_at s1 = (page_at s)(b := Some bp')" "plain_page bp'" "pg_order bp' = pg_order bp"
    "pg_seg bp' = pg_seg bp"
    by (rule freelist_rem_run [OF inv bp(1,2)])
  have taken: "\<not> vm_page_is_free bp'"
    using fun_cong [OF s1(5), of b] s1(6) by (simp add: page_free_def)
  obtain s2 where s2: "set_order s1 b VM_PHYS_ORDER_NONE = Some s2"
    "page_at s2 = (page_at s1)(b := Some (bp'\<lparr>pg_order := VM_PHYS_ORDER_NONE\<rparr>))"
    "vm_freelist s2 = vm_freelist s1" "same_rest s1 s2"
    by (rule set_order_run [of s1 b bp']) (simp_all add: s1(6))
  have r2: "page_at s2 r = Some p" using s1(6) s2(2) rb p(1) by simp
  obtain s3 where s3: "set_order s2 r VM_PHYS_ORDER_NONE = Some s3"
    "page_at s3 = (page_at s2)(r := Some (p\<lparr>pg_order := VM_PHYS_ORDER_NONE\<rparr>))"
    "vm_freelist s3 = vm_freelist s2" "same_rest s2 s3"
    by (rule set_order_run [OF r2])
  let ?ph = "(if h = r then p else bp')\<lparr>pg_order := pg_order p + 1\<rparr>"
  have at3: "page_at s3 h = Some ((if h = r then p else bp')\<lparr>pg_order := VM_PHYS_ORDER_NONE\<rparr>)"
    using pair(2) rb by (auto simp: s3(2) s2(2))
  obtain s4 where s4: "set_order s3 h (pg_order p + 1) = Some s4"
    "page_at s4 = (page_at s3)(h := Some ?ph)" "vm_freelist s4 = vm_freelist s3" "same_rest s3 s4"
    by (rule set_order_run [OF at3, of "pg_order p + 1"]) simp
  have rest: "same_rest s1 s4" using s2(4) s3(4) s4(4) same_rest_trans by blast
  have keep: "vm_page_is_free (q\<lparr>pg_order := x\<rparr>) = vm_page_is_free q"
    "plain_page (q\<lparr>pg_order := x\<rparr>) = plain_page q" for q x
    by (simp_all add: vm_page_is_free_def vm_page_state_def plain_page_def)
  have ph: "\<not> vm_page_is_free ?ph" "plain_page ?ph" "unat (pg_order ?ph) = Suc k"
    using p s1(7) taken order_Suc [OF p(4,5)] by (auto simp: keep)
  have at4: "page_at s4 = (page_at s)(b := Some (bp'\<lparr>pg_order := VM_PHYS_ORDER_NONE\<rparr>),
      r := Some (p\<lparr>pg_order := VM_PHYS_ORDER_NONE\<rparr>), h := Some ?ph)"
    unfolding s4(2) s3(2) s2(2) s1(6) by simp
  have none: "unat VM_PHYS_ORDER_NONE = 255" by (simp add: VM_PHYS_ORDER_NONE_def)
  have o4: "page_ord s4 = (page_ord s1)(upper h k := 255, h := Suc k)"
    unfolding s1(4) using pair(2) rb ph(3) none
    by (intro ext) (auto simp: page_ord_def at4)
  have f4: "page_free s4 = page_free s1"
    unfolding s1(5) using p taken ph(1) pair(2)
    by (intro ext) (auto simp: page_free_def at4 keep)
  have nf: "\<not> page_free s1 h" "\<not> page_free s1 (upper h k)"
    unfolding s1(5) using pair(2) fr by auto
  have seg: "unat (pg_seg p) = pseg r" "unat (pg_seg bp') = pseg b"
    using pages_okD(1) [OF phys_invD(2) [OF inv]] p(1) bp(1) s1(9) by auto
  have "pages_ok (page_at s4)"
    unfolding at4 using seg h(1) bp(4) p(3) s1(7) ph
    by (intro pages_ok_upd phys_invD(2) [OF inv]) (auto simp: keep)
  moreover have "lists_ok (vm_freelist s4) (page_ord s4) (page_free s4)"
    unfolding o4 f4 s4(3) s3(3) s2(3) using nf
    by (intro lists_cong [OF phys_invD(3) [OF s1(2)]]) auto
  moreover have geo: "seg_start s1 = seg_start s"
    using s1(3) by (intro seg_start_cong) (simp add: same_rest_def)
  have "buddy_wf (seg_start s1) (pages s1) (page_ord s4) (page_free s4)"
    unfolding o4 f4 using pair p(5) ord nf
    by (intro merge_wf phys_invD(4) [OF s1(2)]) (auto simp: s1(4) geo)
  ultimately have inv4: "phys_inv s4" by (intro phys_inv_intro [OF s1(2) rest])
  have "free_set s4 = free_frames (page_ord s1) (page_free s1)"
    unfolding free_set_def o4 f4 by (rule merge_frames [OF nf])
  then have ff: "free_set s4 = free_set s - blk b k"
    using take_frames [OF phys_invD(4) [OF inv] fr(2)] by (simp only: s1(4,5) free_set_def ord)
  have bl: "blk h (Suc k) = blk r k \<union> blk b k" using pair(2) by (auto simp: blk_Suc)
  show ?thesis
    by (rule that [OF s1(1) s2(1) s3(1) s4(1) inv4 _ _ ph bl ff])
      (use same_rest_trans [OF s1(3) rest] pair(2) in \<open>auto simp: at4\<close>)
qed

end
