(* ===== verification/Phys_Free.thy ===== *)
theory Phys_Free
  imports Phys_Inv
begin

text \<open>
  Release of physical memory: the merge loop of \<^verbatim>\<open>vm_page_free\<close>, the release as a whole,
  and the properties of the allocator.
\<close>

subsection \<open>The merge loop\<close>

lemma merge_cases:
  assumes inv: "phys_inv s" and p: "page_at s r = Some p" "\<not> vm_page_is_free p" "plain_page p"
      "unat (pg_order p) = k" "k < 10"
  obtains (stop) "vm_page_merge (pseg r) s r = Some (s, r)"
      "\<And>b. page_free s b \<Longrightarrow> page_ord s b = k \<Longrightarrow> pseg b = pseg r \<Longrightarrow>
         frame_of (seg_start s) b \<noteq> buddy_of k (frame_of (seg_start s) r)"
    | (go) h b s' p' where "pseg h = pseg r" "vm_page_merge (pseg r) s r = vm_page_merge (pseg r) s' h"
      "phys_inv s'" "same_rest s s'" "page_at s' h = Some p'" "\<not> vm_page_is_free p'" "plain_page p'"
      "unat (pg_order p') = Suc k" "blk h (Suc k) = blk r k \<union> blk b k" "blk b k \<subseteq> free_set s"
      "free_set s' = free_set s - blk b k" "\<And>x. x \<noteq> r \<Longrightarrow> x \<noteq> b \<Longrightarrow> page_at s' x = page_at s x"
proof -
  let ?fr = "frame_of (seg_start s)"
  obtain a seg where a: "vm_page_addr s r = Some a" "unat a = ?fr r"
    "nth_opt (vm_physegs s) (pseg r) = Some seg" "unat (ps_start seg) = seg_start s (pseg r)"
    "unat (ps_start seg + ps_size seg) = seg_start s (pseg r) + unat (ps_size seg)"
    "unat a < 2 ^ 20"
    "\<And>i. i < unat (ps_size seg) \<Longrightarrow> page_at s (PgRef (pseg r) i) \<noteq> None"
    "\<And>b. pseg b = pseg r \<Longrightarrow> page_at s b \<noteq> None \<Longrightarrow> pidx b < unat (ps_size seg)"
    using page_frame [OF inv p(1)] by blast
  obtain n where n: "vm_page_num p = Some n" "n = push_bit k 1"
    using p(4,5) by (simp add: vm_page_num_def shl_1U_def)
  let ?A = "a XOR n"
  have A: "unat ?A = buddy_of k (?fr r)"
    unfolding n(2) using p(5) a(2) unat_xor_buddy [of k a] by simp
  have al: "2 ^ k dvd ?fr r"
    using blocks_wfD(2) [OF phys_invD(5) [OF inv], of r] p by (simp add: page_ord_Some)
  have unfold: "vm_page_merge (pseg r) s r =
      (if ?A < ps_start seg \<or> ?A \<ge> ps_start seg + ps_size seg then Some (s, r)
       else do {
         bp \<leftarrow> page_at s (PgRef (pseg r) (unat (?A - ps_start seg)));
         if pg_order bp \<noteq> pg_order p \<or> \<not> vm_page_is_free bp then Some (s, r)
         else do {
           s1 \<leftarrow> vm_freelist_rem s (PgRef (pseg r) (unat (?A - ps_start seg)));
           s2 \<leftarrow> set_order s1 (PgRef (pseg r) (unat (?A - ps_start seg))) VM_PHYS_ORDER_NONE;
           s3 \<leftarrow> set_order s2 r VM_PHYS_ORDER_NONE;
           s4 \<leftarrow> set_order s3 (PgRef (pseg r) (unat ((?A AND NOT (push_bit 1 n - 1)) - ps_start seg)))
                  (pg_order p + 1);
           vm_page_merge (pseg r) s4 (PgRef (pseg r) (unat ((?A AND NOT (push_bit 1 n - 1)) - ps_start seg)))
         }
       })"
    unfolding vm_page_merge.simps [of "pseg r" s r] Let_def
    using p a(1,3) n(1) by (simp add: VM_PHYS_ORDER_MAX_def)
  show ?thesis
  proof (cases "?A < ps_start seg \<or> ?A \<ge> ps_start seg + ps_size seg")
    case True
    have "?fr b \<noteq> buddy_of k (?fr r)" if "page_free s b" "pseg b = pseg r" for b
    proof -
      have "page_at s b \<noteq> None" using that(1) by (auto simp: page_free_def split: option.splits)
      with a(8) that(2) have "pidx b < unat (ps_size seg)" by blast
      with True a(4,5) A that(2) show ?thesis
        by (auto simp: word_less_nat_alt word_le_nat_alt frame_of_def)
    qed
    with True unfold show ?thesis by (intro stop) auto
  next
    case False
    then have rng: "ps_start seg \<le> ?A" "unat ?A < seg_start s (pseg r) + unat (ps_size seg)"
      using a(5) by (auto simp: word_less_nat_alt word_le_nat_alt not_le not_less)
    define b where "b = PgRef (pseg r) (unat (?A - ps_start seg))"
    have sub: "unat (?A - ps_start seg) = unat ?A - seg_start s (pseg r)"
      using unat_sub [OF rng(1)] a(4) by simp
    have le: "seg_start s (pseg r) \<le> unat ?A" using rng(1) a(4) by (simp add: word_le_nat_alt)
    have b: "pseg b = pseg r" "?fr b = buddy_of k (?fr r)"
      using sub le A by (simp_all add: b_def frame_of_def)
    have "page_at s b \<noteq> None" unfolding b_def using sub le rng(2) by (intro a(7)) simp
    then obtain bp where bp: "page_at s b = Some bp" by blast
    show ?thesis
    proof (cases "pg_order bp \<noteq> pg_order p \<or> \<not> vm_page_is_free bp")
      case True
      have "?fr c \<noteq> buddy_of k (?fr r)" if "page_free s c" "page_ord s c = k" "pseg c = pseg r" for c
      proof
        assume "?fr c = buddy_of k (?fr r)"
        with b that(3) have "c = b" by (intro frame_inj [of c b "seg_start s"]) simp_all
        with that(1,2) bp True p(4) show False
          by (simp add: page_free_Some page_ord_Some word_unat_eq_iff)
      qed
      moreover have "vm_page_merge (pseg r) s r = Some (s, r)"
        using unfold False True bp by (simp add: b_def [symmetric])
      ultimately show ?thesis by (rule stop [rotated])
    next
      case fr: False
      let ?P = "?A AND NOT (push_bit 1 n - 1)"
      define h where "h = PgRef (pseg r) (unat (?P - ps_start seg))"
      have P: "unat ?P = min (?fr r) (?fr b)"
        unfolding n(2) using unat_parent [of k a ?A] p(5) al a(2) A b(2) n(2) by simp
      have ge: "seg_start s (pseg r) \<le> unat ?P"
        unfolding P using b(1) by (simp add: frame_of_def)
      then have "unat (?P - ps_start seg) = unat ?P - seg_start s (pseg r)"
        using unat_sub [of "ps_start seg" ?P] a(4) by (simp add: word_le_nat_alt)
      with ge P have h: "pseg h = pseg r" "?fr h = min (?fr r) (?fr b)"
        by (simp_all add: h_def frame_of_def)
      have eqs: "vm_page_is_free bp" "pg_order bp = pg_order p" using fr by auto
      obtain s1 s2 s3 s4 p' where st: "vm_freelist_rem s b = Some s1"
        "set_order s1 b VM_PHYS_ORDER_NONE = Some s2" "set_order s2 r VM_PHYS_ORDER_NONE = Some s3"
        "set_order s3 h (pg_order p + 1) = Some s4" "phys_inv s4" "same_rest s s4"
        "page_at s4 h = Some p'" "\<not> vm_page_is_free p'" "plain_page p'" "unat (pg_order p') = Suc k"
        "blk h (Suc k) = blk r k \<union> blk b k" "free_set s4 = free_set s - blk b k"
        "\<And>x. x \<noteq> r \<Longrightarrow> x \<noteq> b \<Longrightarrow> page_at s4 x = page_at s x"
        using merge_step [OF inv p bp eqs b h] by blast
      have run: "vm_page_merge (pseg r) s r = vm_page_merge (pseg r) s4 h"
        unfolding unfold b_def [symmetric] h_def [symmetric] using False bp eqs st(1-4) by simp
      have "blk b k \<subseteq> free_set s"
        unfolding free_set_def free_frames_def using bp eqs p(4)
        by (intro UN_upper [of b, THEN subset_trans [rotated]])
          (auto simp: page_free_Some page_ord_Some)
      with run st(5-) h(1) show ?thesis by (intro go [of h s4 p' b]) auto
    qed
  qed
qed

lemma merge_run:
  assumes "phys_inv s" "page_at s r = Some p" "\<not> vm_page_is_free p" "plain_page p"
    "unat (pg_order p) = k" "k \<le> 10"
  obtains s' r' p' where "vm_page_merge (pseg r) s r = Some (s', r')" "phys_inv s'" "same_rest s s'"
    "page_at s' r' = Some p'" "\<not> vm_page_is_free p'" "plain_page p'" "page_ord s' r' \<le> 10"
    "page_ord s' r' = 10 \<or> (\<forall>b. page_free s' b \<and> page_ord s' b = page_ord s' r' \<and>
       pseg b = pseg r' \<longrightarrow> frame_of (seg_start s') b \<noteq> buddy_of (page_ord s' r') (frame_of (seg_start s') r'))"
    "free_set s' \<union> blk r' (page_ord s' r') = free_set s \<union> blk r k"
    "\<And>x. x \<notin> free_set s \<union> blk r k \<Longrightarrow> page_at s' x = page_at s x"
  using assms
proof (induction "10 - k" arbitrary: k s r p thesis)
  case 0
  then have k: "k = 10" by simp
  have "vm_page_merge (pseg r) s r = Some (s, r)"
    using 0 k by (subst vm_page_merge.simps) (simp add: VM_PHYS_ORDER_MAX_def)
  with 0 k show ?case
    by (intro "0.prems"(1) [of s r p]) (auto simp: page_ord_Some)
next
  case (Suc n)
  then have k: "k < 10" by simp
  show ?case
  proof (cases rule: merge_cases [OF Suc.prems(2-6) k, case_names stop go])
    case stop
    with Suc.prems k show ?thesis
      by (intro Suc.prems(1) [of s r p]) (auto simp: page_ord_Some)
  next
    case (go h b s1 p1)
    have "n = 10 - Suc k" "Suc k \<le> 10" using Suc.hyps(2) k by auto
    from Suc.hyps(1) [OF this(1) _ go(3,5-8) this(2)] obtain s' r' p' where
      s': "vm_page_merge (pseg h) s1 h = Some (s', r')" "phys_inv s'" "same_rest s1 s'"
      "page_at s' r' = Some p'" "\<not> vm_page_is_free p'" "plain_page p'" "page_ord s' r' \<le> 10"
      "page_ord s' r' = 10 \<or> (\<forall>b. page_free s' b \<and> page_ord s' b = page_ord s' r' \<and>
         pseg b = pseg r' \<longrightarrow> frame_of (seg_start s') b \<noteq> buddy_of (page_ord s' r') (frame_of (seg_start s') r'))"
      "free_set s' \<union> blk r' (page_ord s' r') = free_set s1 \<union> blk h (Suc k)"
      "\<And>x. x \<notin> free_set s1 \<union> blk h (Suc k) \<Longrightarrow> page_at s' x = page_at s1 x"
      by blast
    have all: "free_set s1 \<union> blk h (Suc k) = free_set s \<union> blk r k"
      using go(9-11) by blast
    show ?thesis
    proof (rule Suc.prems(1) [OF _ s'(2) _ s'(4-8)])
      show "vm_page_merge (pseg r) s r = Some (s', r')" using go(1,2) s'(1) by simp
      show "same_rest s s'" using go(4) s'(3) by (rule same_rest_trans)
      show "free_set s' \<union> blk r' (page_ord s' r') = free_set s \<union> blk r k"
        using s'(9) all by simp
      fix x assume x: "x \<notin> free_set s \<union> blk r k"
      then have "x \<noteq> r" "x \<noteq> b" using go(10) blk_self [of b k] blk_self [of r k] by blast+
      with x all s'(10) [of x] go(12) [of x] show "page_at s' x = page_at s x" by simp
    qed
  qed
qed

subsection \<open>Release\<close>

text \<open>
  What a release gives: exactly the frames of the block become free, and no page outside the
  block and the free memory changes.
\<close>

definition released :: "phys_state \<Rightarrow> pgref \<Rightarrow> nat \<Rightarrow> phys_state \<Rightarrow> bool" where
  "released s r k s' \<longleftrightarrow> phys_inv s' \<and> phys_acct s' \<and> free_set s' = free_set s \<union> blk r k \<and>
     (\<forall>x. x \<notin> free_set s \<union> blk r k \<longrightarrow> page_at s' x = page_at s x) \<and>
     seg_geo s' = seg_geo s \<and> vm_init s' = vm_init s \<and> vm_phys_rsv s' = vm_phys_rsv s"

lemma page_free_run:
  assumes inv: "phys_inv s" "phys_acct s" and p: "page_at s r = Some p" "\<not> vm_page_is_free p"
    "plain_page p" "unat (pg_order p) = k" "k \<le> 10"
  obtains s' where "vm_page_free r s = Some s'" "released s r k s'" "blk r k \<inter> free_set s = {}"
proof -
  have ord: "page_ord s r = k" using p by (simp add: page_ord_Some)
  have disj: "blk r k \<inter> free_set s = {}"
    using free_frames_outside [OF phys_invD(4) [OF inv(1)], of r] p ord
    by (simp add: free_set_def page_free_Some)
  have sub: "blk r k \<subseteq> pages s"
    using blocks_wfD(3) [OF phys_invD(5) [OF inv(1)], of r] ord p(5) by simp
  obtain sz where sz: "vm_page_size p = Some sz" "unat sz = 2 ^ (12 + k)"
    using shl_1U_small [of "12 + k"] p(4,5) by (auto simp: vm_page_size_def PAGE_SHIFT_def)
  obtain pr where pr: "vm_pressure_dec VM_PR_MEM_PHYS (ucast sz) (phys_pr s) = Some pr"
    "\<And>s'. free_set s' = free_set s \<union> blk r k \<Longrightarrow> seg_geo s' = seg_geo s \<Longrightarrow> phys_pr s' = pr \<Longrightarrow> phys_acct s'"
    using acct_free [OF inv, of "ucast sz" "2 ^ k" "blk r k"] small_below_max [OF sz(2)] disj sub sz(2)
    by (auto simp: power_add)
  let ?s0 = "s\<lparr>phys_pr := pr\<rparr>"
  have inv0: "phys_inv ?s0" "page_at ?s0 r = Some p" using inv(1) p(1) by simp_all
  obtain s1 r1 p1 where s1: "vm_page_merge (pseg r) ?s0 r = Some (s1, r1)" "phys_inv s1" "same_rest ?s0 s1"
    "page_at s1 r1 = Some p1" "\<not> vm_page_is_free p1" "plain_page p1" "page_ord s1 r1 \<le> 10"
    "page_ord s1 r1 = 10 \<or> (\<forall>b. page_free s1 b \<and> page_ord s1 b = page_ord s1 r1 \<and>
       pseg b = pseg r1 \<longrightarrow> frame_of (seg_start s1) b \<noteq> buddy_of (page_ord s1 r1) (frame_of (seg_start s1) r1))"
    "free_set s1 \<union> blk r1 (page_ord s1 r1) = free_set ?s0 \<union> blk r k"
    "\<And>x. x \<notin> free_set ?s0 \<union> blk r k \<Longrightarrow> page_at s1 x = page_at ?s0 x"
    using merge_run [OF inv0 p(2-5)] by blast
  obtain s2 where s2: "vm_freelist_add s1 r1 = Some s2" "phys_inv s2" "same_rest s1 s2"
    "page_ord s2 = page_ord s1" "page_free s2 = (page_free s1)(r1 := True)"
    "\<And>x. x \<noteq> r1 \<Longrightarrow> page_at s2 x = page_at s1 x"
    using release_run [OF s1(2,4-8)] by blast
  have ff: "free_set s2 = free_set s \<union> blk r k"
    using s1(9) by (simp add: free_set_def s2(4,5) release_frames)
  have rest: "same_rest ?s0 s2" using s1(3) s2(3) by (rule same_rest_trans)
  have "page_at s2 x = page_at s x" if "x \<notin> free_set s \<union> blk r k" for x
  proof -
    have "x \<notin> free_set ?s0 \<union> blk r k" using that by simp
    with s1(9) have "x \<noteq> r1" using blk_self [of r1 "page_ord s1 r1"] by blast
    then show ?thesis
      using s2(6) [of x] s1(10) [OF \<open>x \<notin> free_set ?s0 \<union> blk r k\<close>] by simp
  qed
  moreover have "phys_acct s2" using rest ff by (intro pr(2)) (auto simp: same_rest_def)
  ultimately have "released s r k s2"
    using s2(2) ff rest by (simp add: released_def same_rest_def)
  moreover have "vm_page_free r s = Some s2"
    using p(1-3) pages_okD(1) [OF phys_invD(2) [OF inv(1)] p(1)] sz(1) pr(1) s1(1) s2(1)
    by (simp add: vm_page_free_def plain_page_def)
  ultimately show ?thesis using that disj by blast
qed

end
