(* ===== verification/Phys_Props.thy ===== *)
theory Phys_Props
  imports Phys_Free
begin

text \<open>
  Initialisation of a segment, the bootstrap allocator, and the properties of the physical
  memory manager as a whole.
\<close>

subsection \<open>Initialising a segment\<close>

text \<open>The state in which \<^verbatim>\<open>vm_physeg_init\<close> starts: the page array exists, with arbitrary contents.\<close>

definition with_pages :: "nat \<Rightarrow> vm_page list \<Rightarrow> phys_state \<Rightarrow> phys_state" where
  "with_pages sg ps s =
     s\<lparr>vm_physegs := (vm_physegs s)[sg := (vm_physegs s ! sg)\<lparr>ps_pages := Some ps\<rparr>]\<rparr>"

definition seg_pages :: "phys_state \<Rightarrow> nat \<Rightarrow> pgref set" where
  "seg_pages s sg = PgRef sg ` {..<unat (ps_size (vm_physegs s ! sg))}"

lemma page_at_with_pages:
  "sg < length (vm_physegs s) \<Longrightarrow> page_at (with_pages sg ps s) r =
     (if pseg r = sg then nth_opt ps (pidx r) else page_at s r)"
  by (simp add: with_pages_def page_at_def nth_opt_def)

lemma new_segment_inv:
  assumes inv: "phys_inv s" and sg: "sg < length (vm_physegs s)" "ps_pages (vm_physegs s ! sg) = None"
  defines "s1 \<equiv> with_pages sg (replicate (unat (ps_size (vm_physegs s ! sg))) (vm_page_init sg)) s"
  shows "phys_inv s1" "pages s1 = pages s \<union> seg_pages s sg" "free_set s1 = free_set s"
    "seg_pages s sg \<inter> pages s = {}"
    "\<And>r. r \<in> seg_pages s sg \<Longrightarrow> page_at s1 r = Some (vm_page_init sg)"
    "\<And>r. r \<in> pages s \<Longrightarrow> page_at s1 r = page_at s r"
proof -
  let ?N = "seg_pages s sg"
  have old: "page_at s r = None" if "pseg r = sg" for r
    using that sg by (simp add: page_at_def nth_opt_def)
  show new: "page_at s1 r = Some (vm_page_init sg)" if "r \<in> ?N" for r
    using that sg by (auto simp: s1_def page_at_with_pages seg_pages_def)
  have N: "r \<in> ?N \<longleftrightarrow> pseg r = sg \<and> pidx r < unat (ps_size (vm_physegs s ! sg))" for r
    by (cases r) (auto simp: seg_pages_def)
  have same: "page_at s1 r = page_at s r" if "r \<notin> ?N" for r
    using that sg old [of r] by (auto simp: s1_def page_at_with_pages N nth_opt_def)
  show disj: "?N \<inter> pages s = {}" using old by (auto simp: N pages_def)
  then show "page_at s1 r = page_at s r" if "r \<in> pages s" for r using same that by blast
  show pg: "pages s1 = pages s \<union> ?N"
  proof (rule set_eqI)
    fix r show "r \<in> pages s1 \<longleftrightarrow> r \<in> pages s \<union> ?N"
      using new [of r] same [of r] by (cases "r \<in> ?N") (auto simp: pages_def)
  qed
  have nf: "\<not> vm_page_is_free (vm_page_init sg)"
    by (simp add: vm_page_init_def vm_page_is_free_def vm_page_state_def VM_PG_NORMAL_def
        VM_PG_STATE_MASK_def VM_PG_FREE_def)
  have o1: "page_ord s1 r = (if r \<in> ?N then 0 else page_ord s r)" for r
    using new same by (simp add: page_ord_def vm_page_init_def)
  have f1: "page_free s1 = page_free s"
  proof
    fix r show "page_free s1 r = page_free s r"
    proof (cases "r \<in> ?N")
      case True
      then show ?thesis using new old [of r] nf by (simp add: page_free_def N)
    qed (simp add: page_free_def same)
  qed
  have off: "r \<notin> ?N" if "page_free s r" for r
  proof
    assume "r \<in> ?N"
    then have "pseg r = sg" by (simp add: N)
    with old [of r] that show False by (simp add: page_free_def)
  qed
  have segs: "seg_start s1 = seg_start s"
  proof
    fix x show "seg_start s1 x = seg_start s x"
      by (cases "x = sg") (simp_all add: seg_start_def s1_def with_pages_def)
  qed
  note g = geo_bound [OF phys_invD(1) [OF inv] sg(1)]
  let ?x = "vm_physegs s ! sg"
  have "seg_geo s1 = (seg_geo s)[sg := (ps_start ?x, ps_size ?x, Some (unat (ps_size ?x)))]"
    by (simp add: seg_geo_def s1_def with_pages_def map_update)
  then have "set (seg_geo s1) \<subseteq> insert (ps_start ?x, ps_size ?x, Some (unat (ps_size ?x))) (set (seg_geo s))"
    "length (seg_geo s1) = length (seg_geo s)"
    by (simp_all add: set_update_subset_insert)
  moreover have "\<forall>(start, sz, len) \<in> insert (ps_start ?x, ps_size ?x, Some (unat (ps_size ?x))) (set (seg_geo s)).
      unat start + unat sz \<le> 2 ^ 20 \<and> (\<forall>n. len = Some n \<longrightarrow> n = unat sz)"
    using phys_invD(1) [OF inv] g(1) by (simp add: geo_ok_def)
  ultimately have "geo_ok s1"
    using phys_invD(1) [OF inv] unfolding geo_ok_def by (metis (no_types, lifting) subsetD)
  moreover have "pages_ok (page_at s1)"
    unfolding pages_ok_def
  proof (intro allI impI)
    fix r p assume "page_at s1 r = Some p"
    then show "unat (pg_seg p) = pseg r \<and>
        (vm_page_is_free p \<or> pg_order p = VM_PHYS_ORDER_NONE \<longrightarrow> plain_page p)"
      using pages_okD [OF phys_invD(2) [OF inv], of r p] new [of r] same [of r] nf g(3)
      by (cases "r \<in> ?N") (auto simp: N vm_page_init_def VM_PHYS_ORDER_NONE_def unat_of_nat)
  qed
  moreover have "vm_freelist s1 = vm_freelist s" by (simp add: s1_def with_pages_def)
  then have "lists_ok (vm_freelist s1) (page_ord s) (page_free s)"
    using phys_invD(3) [OF inv] by simp
  then have "lists_ok (vm_freelist s1) (page_ord s1) (page_free s1)"
    unfolding f1 by (rule lists_cong) (simp add: o1 off)
  moreover have "buddy_wf (seg_start s1) (pages s1) (page_ord s1) (page_free s1)"
    unfolding segs pg f1 by (rule buddy_extend [OF phys_invD(4) [OF inv] disj]) (simp_all add: o1)
  ultimately show "phys_inv s1" by (simp add: phys_inv_def)
  show "free_set s1 = free_set s"
    unfolding free_set_def f1 free_frames_def using off o1 by auto
qed

lemma init_page:
  "\<not> vm_page_is_free (vm_page_init sg)" "plain_page (vm_page_init sg)" "pg_order (vm_page_init sg) = 0"
  by (simp_all add: vm_page_init_def vm_page_is_free_def vm_page_state_def plain_page_def
      VM_PG_NORMAL_def VM_PG_STATE_MASK_def VM_PG_FREE_def)

lemma blk_0 [simp]: "blk r 0 = {r}"
  by (auto simp: mem_blk pgref_eq_iff)

definition unreserved :: "phys_state \<Rightarrow> nat \<Rightarrow> u32 \<Rightarrow> nat set \<Rightarrow> pgref set" where
  "unreserved s sg start I = {PgRef sg i | i. i \<in> I \<and> \<not> vm_page_reserved s (start + of_nat i)}"

lemma physeg_free_pages_run:
  assumes "phys_inv s" "phys_acct s" "distinct is"
    "\<And>i. i \<in> set is \<Longrightarrow> page_at s (PgRef sg i) = Some (vm_page_init sg)"
  shows "\<exists>s'. vm_physeg_free_pages sg start is s = Some s' \<and> phys_inv s' \<and> phys_acct s' \<and>
    free_set s' = free_set s \<union> unreserved s sg start (set is)"
  using assms
proof (induction "is" arbitrary: s)
  case Nil
  then show ?case by (simp add: unreserved_def)
next
  case (Cons i js)
  let ?r = "PgRef sg i"
  show ?case
  proof (cases "vm_page_reserved s (start + of_nat i)")
    case True
    then have "unreserved s sg start (set (i # js)) = unreserved s sg start (set js)"
      by (auto simp: unreserved_def)
    moreover have "\<exists>s'. vm_physeg_free_pages sg start js s = Some s' \<and> phys_inv s' \<and> phys_acct s' \<and>
        free_set s' = free_set s \<union> unreserved s sg start (set js)"
      using Cons.prems by (intro Cons.IH) auto
    ultimately show ?thesis using True by simp
  next
    case False
    have p: "page_at s ?r = Some (vm_page_init sg)" using Cons.prems(4) by simp
    obtain s1 where s1: "vm_page_free ?r s = Some s1" "released s ?r 0 s1"
      by (rule page_free_run [OF Cons.prems(1,2) p init_page(1,2), of 0]) (simp_all add: init_page)
    have left: "page_at s1 (PgRef sg j) = Some (vm_page_init sg)" if j: "j \<in> set js" for j
    proof -
      have pj: "page_at s (PgRef sg j) = Some (vm_page_init sg)" using Cons.prems(4) j by simp
      have "page_ord s (PgRef sg j) = 0" "\<not> page_free s (PgRef sg j)"
        using pj init_page by (simp_all add: page_ord_Some page_free_Some)
      then have "PgRef sg j \<notin> free_set s"
        using free_frames_outside [OF phys_invD(4) [OF Cons.prems(1)], of "PgRef sg j"]
        by (simp add: free_set_def)
      moreover have "j \<noteq> i" using Cons.prems(3) j by auto
      ultimately show ?thesis using s1(2) pj by (simp add: released_def)
    qed
    have rsv: "vm_page_reserved s1 = vm_page_reserved s"
      using s1(2) by (intro ext) (simp add: released_def vm_page_reserved_def)
    have "\<exists>s'. vm_physeg_free_pages sg start js s1 = Some s' \<and> phys_inv s' \<and> phys_acct s' \<and>
        free_set s' = free_set s1 \<union> unreserved s1 sg start (set js)"
      using Cons.prems(3) s1(2) left by (intro Cons.IH) (auto simp: released_def)
    moreover have "free_set s1 \<union> unreserved s1 sg start (set js) =
        free_set s \<union> unreserved s sg start (set (i # js))"
      using s1(2) False by (auto simp: released_def unreserved_def rsv)
    ultimately show ?thesis using False s1(1) by simp
  qed
qed

text \<open>
  Physical memory before a segment is initialised: the allocator works, the segment has no pages
  yet, and the total covers its frames.
\<close>

definition seg_ready :: "phys_state \<Rightarrow> nat \<Rightarrow> bool" where
  "seg_ready s sg \<longleftrightarrow> phys_inv s \<and> phys_acct s \<and> sg < length (vm_physegs s) \<and>
     ps_pages (vm_physegs s ! sg) = None \<and>
     4096 * (card (pages s) + unat (ps_size (vm_physegs s ! sg))) \<le>
       unat (total (vm_pr_mem (phys_pr s) VM_PR_MEM_PHYS))"

lemma physeg_init_run:
  assumes r: "seg_ready s sg" and len: "length ps = unat (ps_size (vm_physegs s ! sg))"
  shows "\<exists>s'. vm_physeg_init sg (with_pages sg ps s) = Some s' \<and> phys_inv s' \<and> phys_acct s' \<and>
    free_set s' = free_set s \<union> unreserved s sg (ps_start (vm_physegs s ! sg))
      {..<unat (ps_size (vm_physegs s ! sg))}"
proof -
  let ?seg = "vm_physegs s ! sg" and ?n = "unat (ps_size (vm_physegs s ! sg))"
  let ?s1 = "with_pages sg (replicate ?n (vm_page_init sg)) s"
  have sg: "sg < length (vm_physegs s)" "ps_pages ?seg = None" and inv: "phys_inv s" "phys_acct s"
    using r by (simp_all add: seg_ready_def)
  note new = new_segment_inv [OF inv(1) sg]
  have "card (seg_pages s sg) = ?n"
    unfolding seg_pages_def by (subst card_image) (auto simp: inj_on_def)
  then have "card (pages ?s1) = card (pages s) + ?n"
    unfolding new(2) using new(4)
    by (subst card_Un_disjoint) (auto simp: seg_pages_def inf_commute)
  then have "phys_acct ?s1"
    using r new(3) by (simp add: phys_acct_def seg_ready_def with_pages_def)
  then obtain s' where s': "vm_physeg_free_pages sg (ps_start ?seg) [0..<?n] ?s1 = Some s'"
    "phys_inv s'" "phys_acct s'"
    "free_set s' = free_set ?s1 \<union> unreserved ?s1 sg (ps_start ?seg) (set [0..<?n])"
    using physeg_free_pages_run [OF new(1), of "[0..<?n]" sg "ps_start ?seg"] new(5)
    by (auto simp: seg_pages_def)
  have "vm_physeg_init sg (with_pages sg ps s) =
      vm_physeg_free_pages sg (ps_start ?seg) [0..<?n] ?s1"
    using sg len by (simp add: vm_physeg_init_def with_pages_def mem_write_def)
  moreover have "unreserved ?s1 sg (ps_start ?seg) (set [0..<?n]) =
      unreserved s sg (ps_start ?seg) {..<?n}"
    by (auto simp: unreserved_def vm_page_reserved_def with_pages_def)
  ultimately show ?thesis using s' new(3) by simp
qed

subsection \<open>The bootstrap allocator\<close>

text \<open>Reservations whose ends do not wrap, also when \<open>sz\<close> more bytes follow.\<close>

definition rsvs_ok :: "vm_phys_rsv list \<Rightarrow> u32 \<Rightarrow> bool" where
  "rsvs_ok rsvs sz \<longleftrightarrow>
     (\<forall>r \<in> set rsvs. unat (rsv_addr r) + unat (rsv_size r) + unat sz < 2 ^ 32)"

text \<open>The half-open byte ranges meet.\<close>

definition ranges_meet :: "u32 \<Rightarrow> u32 \<Rightarrow> vm_phys_rsv \<Rightarrow> bool" where
  "ranges_meet a sz r \<longleftrightarrow>
     unat a < unat (rsv_addr r) + unat (rsv_size r) \<and> unat (rsv_addr r) < unat a + unat sz"

lemma unat_add_small: "unat (x :: u32) + unat y < 2 ^ 32 \<Longrightarrow> unat (x + y) = unat x + unat y"
  by (subst unat_add_lem [THEN iffD1]) simp_all

lemma seg_overlap_iff:
  assumes "unat a + unat sz < 2 ^ 32" "unat (rsv_addr r) + unat (rsv_size r) < 2 ^ 32"
  shows "vm_seg_overlap a sz (rsv_addr r) (rsv_size r) \<longleftrightarrow> ranges_meet a sz r"
  using assms
  by (auto simp: vm_seg_overlap_def ranges_meet_def word_le_nat_alt unat_add_small not_le)

text \<open>
  What a search from \<open>lo\<close> to \<open>hi\<close> answers: a region that meets no reservation, or nothing, and
  then every region in the range meets one.
\<close>

definition search_ok :: "vm_phys_rsv list \<Rightarrow> u32 \<Rightarrow> nat \<Rightarrow> nat \<Rightarrow> u32 option \<Rightarrow> bool" where
  "search_ok rsvs sz lo hi x \<longleftrightarrow> (case x of
     Some a \<Rightarrow> lo \<le> unat a \<and> unat a + unat sz \<le> hi \<and> (\<forall>r \<in> set rsvs. \<not> ranges_meet a sz r)
   | None \<Rightarrow> \<forall>a. lo \<le> unat a \<and> unat a + unat sz \<le> hi \<longrightarrow> (\<exists>r \<in> set rsvs. ranges_meet a sz r))"

text \<open>Going on behind a reservation that is met skips no region that is free of reservations.\<close>

lemma search_ok_skip:
  assumes "search_ok rsvs sz (unat (rsv_addr r) + unat (rsv_size r)) hi x" "r \<in> set rsvs"
    and "ranges_meet p sz r"
  shows "search_ok rsvs sz (unat p) hi x"
proof (cases x)
  case None
  have "\<exists>r \<in> set rsvs. ranges_meet a sz r" if a: "unat p \<le> unat a" "unat a + unat sz \<le> hi" for a
  proof (cases "unat a < unat (rsv_addr r) + unat (rsv_size r)")
    case True
    with a assms(3) have "ranges_meet a sz r" by (simp add: ranges_meet_def)
    with assms(2) show ?thesis by blast
  next
    case False
    with None assms(1) a show ?thesis by (simp add: search_ok_def)
  qed
  with None show ?thesis by (simp add: search_ok_def)
next
  case (Some a)
  with assms(1,3) show ?thesis by (auto simp: search_ok_def ranges_meet_def)
qed

lemma early_scan_run:
  assumes "rsvs_ok rsvs sz" "unat phys + unat sz < 2 ^ 32"
  shows "\<exists>x. early_scan rsvs e sz phys = Some x \<and> search_ok rsvs sz (unat phys) (unat e) x"
  using assms(2)
proof (induction "2 ^ 32 - unat phys" arbitrary: phys rule: less_induct)
  case less
  have sum: "unat (phys + sz) = unat phys + unat sz" by (rule unat_add_small [OF less.prems])
  have nowrap: "unat (rsv_addr r) + unat (rsv_size r) < 2 ^ 32" if "r \<in> set rsvs" for r
    using assms(1) that by (auto simp: rsvs_ok_def)
  show ?case
  proof (cases "phys + sz \<le> e")
    case False
    then have "unat e < unat phys + unat sz" by (simp add: word_le_nat_alt sum)
    with False show ?thesis by (auto simp: early_scan.simps search_ok_def)
  next
    case True
    show ?thesis
    proof (cases "find (\<lambda>r. vm_seg_overlap phys sz (rsv_addr r) (rsv_size r)) rsvs")
      case None
      then have "\<not> ranges_meet phys sz r" if "r \<in> set rsvs" for r
        using that seg_overlap_iff [OF less.prems nowrap [OF that]] by (auto simp: find_None_iff)
      with True None sum show ?thesis by (simp add: early_scan.simps search_ok_def word_le_nat_alt)
    next
      case (Some r)
      then have r: "r \<in> set rsvs" "vm_seg_overlap phys sz (rsv_addr r) (rsv_size r)"
        by (auto simp: find_Some_iff)
      let ?p = "rsv_addr r + rsv_size r"
      have p: "unat ?p = unat (rsv_addr r) + unat (rsv_size r)"
        by (rule unat_add_small [OF nowrap [OF r(1)]])
      have meet: "ranges_meet phys sz r"
        using r(2) seg_overlap_iff [OF less.prems nowrap [OF r(1)]] by simp
      then have lt: "unat phys < unat ?p" using p by (simp add: ranges_meet_def)
      have "unat ?p + unat sz < 2 ^ 32" using assms(1) r(1) p by (auto simp: rsvs_ok_def)
      moreover have "2 ^ 32 - unat ?p < 2 ^ 32 - unat phys"
        using lt unsigned_less [of ?p, where ?'a = nat] by (intro diff_less_mono2) simp_all
      ultimately obtain x where "early_scan rsvs e sz ?p = Some x"
          "search_ok rsvs sz (unat ?p) (unat e) x"
        using less.hyps [of ?p] by blast
      moreover have "early_scan rsvs e sz phys = early_scan rsvs e sz ?p"
        using True Some by (simp add: early_scan.simps [of rsvs e sz phys])
      ultimately show ?thesis using search_ok_skip [OF _ r(1) meet] p by auto
    qed
  qed
qed

text \<open>The segment in bytes, with an end that does not wrap.\<close>

definition seg_bytes_ok :: "vm_physeg \<Rightarrow> u32 \<Rightarrow> bool" where
  "seg_bytes_ok seg sz \<longleftrightarrow>
     (unat (ps_start seg) + unat (ps_size seg)) * 4096 < 2 ^ 32 \<and>
     unat (ps_start seg) * 4096 + unat sz < 2 ^ 32"

definition region_in_seg :: "u32 \<Rightarrow> u32 \<Rightarrow> vm_physeg \<Rightarrow> bool" where
  "region_in_seg a sz seg \<longleftrightarrow> unat (ps_start seg) * 4096 \<le> unat a \<and>
     unat a + unat sz \<le> (unat (ps_start seg) + unat (ps_size seg)) * 4096"

lemma unat_ptoa: "unat p * 4096 < 2 ^ 32 \<Longrightarrow> unat (ptoa p) = unat p * 4096"
  by (simp add: ptoa_def PAGE_SHIFT_def push_bit_eq_mult unat_word_ariths)

lemma ptoa_atop:
  assumes "ALIGNED a PAGE_SZ"
  shows "ptoa (atop a) = a"
proof -
  have "a AND mask 12 = 0" using assms by (simp add: ALIGNED_def PAGE_SZ_def mask_eq_exp_minus_1)
  then have "a AND NOT (mask 12) = a" by (auto simp: bit_eq_iff bit_simps)
  then show ?thesis by (simp add: ptoa_def atop_def PAGE_SHIFT_def and_not_mask)
qed

text \<open>What the search promises for a list of segments.\<close>

definition early_found :: "vm_phys_rsv list \<Rightarrow> u32 \<Rightarrow> vm_physeg list \<Rightarrow> u32 option \<Rightarrow> bool" where
  "early_found rsvs sz segs x \<longleftrightarrow> (case x of
     Some a \<Rightarrow> (\<exists>seg \<in> set segs. ps_pages seg = None \<and> region_in_seg a sz seg) \<and>
       (\<forall>r \<in> set rsvs. \<not> ranges_meet a sz r)
   | None \<Rightarrow> \<forall>seg \<in> set segs. ps_pages seg = None \<longrightarrow>
       (\<forall>a. region_in_seg a sz seg \<longrightarrow> (\<exists>r \<in> set rsvs. ranges_meet a sz r)))"

lemma seg_scan_run:
  assumes "rsvs_ok rsvs sz" "seg_bytes_ok seg sz"
  shows "\<exists>x. early_scan rsvs (ptoa (ps_start seg) + ptoa (ps_size seg)) sz (ptoa (ps_start seg)) = Some x \<and>
    search_ok rsvs sz (unat (ps_start seg) * 4096) ((unat (ps_start seg) + unat (ps_size seg)) * 4096) x"
proof -
  have st: "unat (ptoa (ps_start seg)) = unat (ps_start seg) * 4096"
    "unat (ptoa (ps_size seg)) = unat (ps_size seg) * 4096"
    by (intro unat_ptoa; use assms(2) in \<open>simp add: seg_bytes_ok_def\<close>)+
  have "unat (ptoa (ps_start seg) + ptoa (ps_size seg)) =
      (unat (ps_start seg) + unat (ps_size seg)) * 4096"
    using assms(2) st by (subst unat_add_small) (auto simp: seg_bytes_ok_def algebra_simps)
  with early_scan_run [OF assms(1)] assms(2) st show ?thesis by (metis seg_bytes_ok_def)
qed

lemma early_search_run:
  assumes "rsvs_ok rsvs sz" "\<forall>seg \<in> set segs. seg_bytes_ok seg sz"
  shows "\<exists>x. early_search rsvs sz segs = Some x \<and> early_found rsvs sz segs x"
  using assms(2)
proof (induction segs)
  case Nil
  then show ?case by (simp add: early_found_def)
next
  case (Cons seg segs)
  then obtain y where y: "early_search rsvs sz segs = Some y" "early_found rsvs sz segs y"
    by auto
  show ?case
  proof (cases "ps_pages seg = None")
    case False
    with y show ?thesis by (auto simp: early_found_def split: option.splits)
  next
    case True
    obtain x where x: "early_scan rsvs (ptoa (ps_start seg) + ptoa (ps_size seg)) sz
        (ptoa (ps_start seg)) = Some x"
      "search_ok rsvs sz (unat (ps_start seg) * 4096) ((unat (ps_start seg) + unat (ps_size seg)) * 4096) x"
      using seg_scan_run [OF assms(1)] Cons.prems by auto
    with y True show ?thesis
      by (cases x) (auto simp: early_found_def search_ok_def region_in_seg_def split: option.splits)
  qed
qed

subsection \<open>Properties\<close>

definition phys_boot :: phys_state where
  "phys_boot = \<lparr>vm_freelist = replicate 11 [],
     vm_physegs = [\<lparr>ps_start = 4, ps_size = 4, ps_pages = None\<rparr>], vm_phys_total = 4,
     vm_phys_rsv = [\<lparr>rsv_addr = 0x5000, rsv_size = 0x1000\<rparr>], vm_init = 17,
     phys_pr = \<lparr>vm_pr_mem = (\<lambda>_. \<lparr>waitq = [], pr = VM_PR_HIGH, total = 0x4000, free = 0, threshold = 0\<rparr>),
       vm_pr_wq = [], woken = []\<rparr>\<rparr>"

definition phys_example :: phys_state where
  "phys_example = the (vm_physeg_init 0 (with_pages 0 (replicate 4 (vm_page_init 7)) phys_boot))"

lemma phys_boot_ready: "seg_ready phys_boot 0"
proof -
  have none: "page_at phys_boot r = None" for r
    by (simp add: phys_boot_def page_at_def nth_opt_def)
  then have "page_ord phys_boot = (\<lambda>_. 255)" "page_free phys_boot = (\<lambda>_. False)" "pages phys_boot = {}"
    by (auto simp: page_ord_def page_free_def pages_def)
  moreover have "vm_freelist phys_boot = replicate 11 []" "seg_geo phys_boot = [(4, 4, None)]"
    by (simp_all add: phys_boot_def seg_geo_def)
  ultimately have "phys_inv phys_boot"
    by (simp add: phys_inv_def geo_ok_def pages_ok_def none lists_ok_def buddy_wf_def
        blocks_wf_def coalesced_def)
  moreover have "free_set phys_boot = {}"
    using \<open>page_free phys_boot = _\<close> by (simp add: free_set_def free_frames_def)
  then have "phys_acct phys_boot"
    using \<open>pages phys_boot = {}\<close>
    by (simp add: phys_acct_def pressure_inv_def pr_mem_ok_def no_lost_waiter_def vm_calc_pressure_def
        VM_PR_LOW_PCT_def VM_PR_MOD_PCT_def phys_boot_def)
  ultimately show ?thesis
    using \<open>pages phys_boot = {}\<close> by (simp add: seg_ready_def phys_boot_def)
qed

lemma phys_example_inv:
  "phys_inv phys_example" "phys_acct phys_example"
  "free_set phys_example = {PgRef 0 0, PgRef 0 2, PgRef 0 3}"
proof -
  have len: "length (replicate 4 (vm_page_init 7)) = unat (ps_size (vm_physegs phys_boot ! 0))"
    by (simp add: phys_boot_def)
  have seg: "ps_start (vm_physegs phys_boot ! 0) = 4" "unat (ps_size (vm_physegs phys_boot ! 0)) = 4"
    by (simp_all add: phys_boot_def)
  have rsv: "vm_page_reserved phys_boot 4 = False" "vm_page_reserved phys_boot 5 = True"
    "vm_page_reserved phys_boot 6 = False" "vm_page_reserved phys_boot 7 = False"
    by (simp_all add: vm_page_reserved_def phys_boot_def ptoa_def PAGE_SHIFT_def)
  have pick: "i \<in> {..<4} \<and> \<not> vm_page_reserved phys_boot (4 + of_nat i) \<longleftrightarrow> i \<in> {0, 2, 3}" for i
  proof -
    consider "i = 0" | "i = 1" | "i = 2" | "i = 3" | "i \<ge> 4" by linarith
    then show ?thesis by cases (simp_all add: rsv)
  qed
  have "unreserved phys_boot 0 (ps_start (vm_physegs phys_boot ! 0))
      {..<unat (ps_size (vm_physegs phys_boot ! 0))} = {PgRef 0 0, PgRef 0 2, PgRef 0 3}"
    unfolding seg unreserved_def pick by blast
  moreover have "page_free phys_boot r = False" for r
    by (simp add: page_free_def phys_boot_def page_at_def nth_opt_def)
  then have "free_set phys_boot = {}" by (simp add: free_set_def free_frames_def)
  ultimately obtain s where
    "vm_physeg_init 0 (with_pages 0 (replicate 4 (vm_page_init 7)) phys_boot) = Some s"
    "phys_inv s" "phys_acct s" "free_set s = {PgRef 0 0, PgRef 0 2, PgRef 0 3}"
    using physeg_init_run [OF phys_boot_ready len] by (metis sup_bot_left)
  then show "phys_inv phys_example" "phys_acct phys_example"
    "free_set phys_example = {PgRef 0 0, PgRef 0 2, PgRef 0 3}"
    by (simp_all add: phys_example_def)
qed

text \<open>C4. Initialising a segment from arbitrary memory contents never panics, establishes the
  invariant of the buddy allocator, and makes exactly the frames that are not reserved free.\<close>

theorem vm_physeg_init_correct:
  assumes "seg_ready s sg" "length ps = unat (ps_size (vm_physegs s ! sg))"
  shows "\<exists>s'. vm_physeg_init sg (with_pages sg ps s) = Some s' \<and> phys_inv s' \<and> phys_acct s' \<and>
    free_set s' = free_set s \<union>
      {PgRef sg i | i. i < unat (ps_size (vm_physegs s ! sg)) \<and>
         \<not> vm_page_reserved s (ps_start (vm_physegs s ! sg) + of_nat i)}"
  using physeg_init_run [OF assms] by (simp add: unreserved_def)

theorem vm_physeg_init_correct_witness:
  "seg_ready phys_boot 0 \<and>
   (\<exists>s'. vm_physeg_init 0 (with_pages 0 (replicate 4 (vm_page_init 7)) phys_boot) = Some s' \<and> phys_inv s')"
  using vm_physeg_init_correct [OF phys_boot_ready, of "replicate 4 (vm_page_init 7)"] phys_boot_ready
  by (auto simp: phys_boot_def)

text \<open>C1. Allocation of a block of any order: on success the block consists of free frames only,
  is removed from the free memory, and no page in use changes; the null pointer means that fewer
  frames than requested are free; and the kernel panic is reached only when no aligned run of
  free frames of the requested size exists anywhere, so merging never leaves avoidable
  fragmentation.\<close>

theorem vm_page_alloc_order_correct:
  assumes "phys_inv s" "phys_acct s" "unat ord \<le> 10"
  shows "case vm_page_alloc_order ord s of
      Some (Some r, s') \<Rightarrow> allocated s r ord s'
    | Some (None, s') \<Rightarrow> s' = s \<and> card (free_set s) < 2 ^ unat ord
    | None \<Rightarrow> 2 ^ unat ord \<le> card (free_set s) \<and>
        (\<forall>r. 2 ^ unat ord dvd frame_of (seg_start s) r \<longrightarrow> \<not> blk r (unat ord) \<subseteq> free_set s)"
proof (cases rule: alloc_order_cases [OF assms, case_names short got fragmented])
  case fragmented
  have "\<not> blk r (unat ord) \<subseteq> free_set s" if "2 ^ unat ord dvd frame_of (seg_start s) r" for r
    using free_region_block [OF phys_invD(4) [OF assms(1)] assms(3) that] fragmented(3)
    unfolding free_set_def by (metis not_less)
  with fragmented show ?thesis by simp
qed auto

theorem vm_page_alloc_order_correct_witness:
  "\<exists>s'. vm_page_alloc_order 0 phys_example = Some (Some (PgRef 0 0), s') \<and>
     allocated phys_example (PgRef 0 0) 0 s' \<and> free_set s' = {PgRef 0 2, PgRef 0 3}"
proof -
  have "map_option fst (vm_page_alloc_order 0 phys_example) = Some (Some (PgRef 0 0))"
    by code_simp
  then obtain s' where s': "vm_page_alloc_order 0 phys_example = Some (Some (PgRef 0 0), s')" by auto
  with vm_page_alloc_order_correct [OF phys_example_inv(1,2), of 0]
  have "allocated phys_example (PgRef 0 0) 0 s'" by simp
  with s' show ?thesis by (auto simp: allocated_def phys_example_inv(3))
qed

text \<open>C2. Releasing an allocated block never panics, keeps the invariant (blocks stay aligned,
  disjoint and merged as far as possible, the free lists hold exactly the free blocks, the free
  counter is the number of free bytes), adds exactly the frames of the block to the free memory
  and changes no page in use.\<close>

theorem vm_page_free_correct:
  assumes "phys_inv s" "phys_acct s" "page_at s r = Some p" "\<not> vm_page_is_free p"
    "pg_order p \<noteq> VM_PHYS_ORDER_NONE" "pg_pincnt p = 0" "pg_flags p AND NOT VM_PG_STATE_MASK = 0"
  shows "\<exists>s'. vm_page_free r s = Some s' \<and> released s r (unat (pg_order p)) s' \<and>
    blk r (unat (pg_order p)) \<inter> free_set s = {}"
proof -
  have "unat (pg_order p) \<le> 10"
    using blocks_wfD(1) [OF phys_invD(5) [OF assms(1)], of r] assms(3,5)
    by (auto simp: page_ord_Some VM_PHYS_ORDER_NONE_def word_unat_eq_iff)
  with assms show ?thesis
    using page_free_run [OF assms(1-4), of "unat (pg_order p)"] by (auto simp: plain_page_def)
qed

theorem vm_page_free_correct_witness:
  "\<exists>s'. vm_page_free (PgRef 0 1) phys_example = Some s' \<and> phys_inv s' \<and>
     free_set s' = {PgRef 0 0, PgRef 0 1, PgRef 0 2, PgRef 0 3}"
proof -
  have run: "page_at phys_example (PgRef 0 1) =
      Some \<lparr>pg_flags = 1, pg_order = 0, pg_pincnt = 0, pg_seg = 0\<rparr>"
    by code_simp
  have "\<exists>s'. vm_page_free (PgRef 0 1) phys_example = Some s' \<and> released phys_example (PgRef 0 1) 0 s'"
    using vm_page_free_correct [OF phys_example_inv(1,2) run]
    by (auto simp: vm_page_is_free_def vm_page_state_def VM_PG_FREE_def VM_PG_STATE_MASK_def
        VM_PHYS_ORDER_NONE_def)
  then show ?thesis by (auto simp: released_def phys_example_inv(3))
qed

text \<open>C3. Round trip: a block that was just allocated can be released, and the free memory and
  the number of free bytes are what they were before the allocation.\<close>

theorem vm_page_alloc_free:
  assumes "phys_inv s" "phys_acct s" "unat ord \<le> 10" "vm_page_alloc_order ord s = Some (Some r, s1)"
  shows "\<exists>s2. vm_page_free r s1 = Some s2 \<and> phys_inv s2 \<and> free_set s2 = free_set s \<and>
    vm_phys_get_free s2 = vm_phys_get_free s"
proof -
  have a: "allocated s r ord s1"
    using assms(4) by (cases rule: alloc_order_cases [OF assms(1-3), case_names short got fragmented]) auto
  then obtain p where p: "phys_inv s1" "phys_acct s1" "page_at s1 r = Some p" "pg_order p = ord"
    "vm_page_state p = VM_PG_NORMAL" "plain_page p" "blk r (unat ord) \<subseteq> free_set s"
    "free_set s1 = free_set s - blk r (unat ord)"
    by (auto simp: allocated_def)
  have "\<not> vm_page_is_free p"
    using p(5) by (simp add: vm_page_is_free_def VM_PG_NORMAL_def VM_PG_FREE_def)
  then obtain s2 where s2: "vm_page_free r s1 = Some s2" "released s1 r (unat ord) s2"
    using page_free_run [OF p(1-3) _ p(6), of "unat ord"] p(4) assms(3) by auto
  have ff: "free_set s2 = free_set s" using s2(2) p(7,8) by (auto simp: released_def)
  moreover have "free (vm_pr_mem (phys_pr s2) VM_PR_MEM_PHYS) = free (vm_pr_mem (phys_pr s) VM_PR_MEM_PHYS)"
    using s2(2) assms(2) ff by (simp add: released_def phys_acct_def word_unat_eq_iff)
  ultimately show ?thesis
    using s2 by (auto simp: released_def vm_phys_get_free_def vm_mem_get_free_def)
qed

theorem vm_page_alloc_free_witness:
  "\<exists>s1 s2. vm_page_alloc_order 1 phys_example = Some (Some (PgRef 0 2), s1) \<and>
     vm_page_free (PgRef 0 2) s1 = Some s2 \<and> free_set s2 = {PgRef 0 0, PgRef 0 2, PgRef 0 3}"
proof -
  have "map_option fst (vm_page_alloc_order 1 phys_example) = Some (Some (PgRef 0 2))"
    by code_simp
  then obtain s1 where s1: "vm_page_alloc_order 1 phys_example = Some (Some (PgRef 0 2), s1)" by auto
  with vm_page_alloc_free [OF phys_example_inv(1,2) _ s1] show ?thesis
    by (auto simp: phys_example_inv(3))
qed



text \<open>C0. \<open>vm_physeg_add\<close> accepts a segment that ends at 4 GiB, and a search for its whole size
  returns it even when all of it is reserved: the ends the test for an overlap computes wrap
  around to 0.\<close>

theorem early_search_top_segment:
  assumes "\<not> VM_INIT_P VM_INIT_PHYS_EARLY s" "vm_physegs s = []"
    and "ALIGNED addr PAGE_SZ" "ALIGNED sz PAGE_SZ" "unat addr + unat sz = 2 ^ 32"
  shows "\<exists>s'. vm_physeg_add addr sz s = Some s' \<and>
    (\<forall>rsvs. early_search rsvs sz (vm_physegs s') = Some (Some addr))"
proof -
  have sum: "addr + sz = 0"
  proof -
    have "addr + sz = of_nat (unat addr + unat sz)" by simp
    then show ?thesis unfolding assms(5) by simp
  qed
  have pages: "ptoa (atop addr) = addr" "ptoa (atop sz) = sz"
    using assms(3,4) by (simp_all add: ptoa_atop)
  have top: "VM_PHYS_MAX = - 1" by (simp add: VM_PHYS_MAX_def)
  have "addr \<noteq> VM_PHYS_MAX" using assms(3) by (auto simp: ALIGNED_def PAGE_SZ_def VM_PHYS_MAX_def)
  moreover have "addr \<le> VM_PHYS_MAX" unfolding top by (rule word_order.extremum)
  ultimately have "addr < VM_PHYS_MAX" by simp
  moreover have "VM_PHYS_MAX - addr = sz - 1"
    using minus_unique [OF sum] unfolding top by simp
  moreover have "find (\<lambda>r. False) rsvs = None" for rsvs :: "vm_phys_rsv list"
    by (simp add: find_None_iff)
  ultimately show ?thesis
    using assms(1-4) sum pages
    by (simp add: vm_physeg_add_def VM_PHYSEG_NUM_def early_scan.simps vm_seg_overlap_def)
qed

theorem early_search_top_segment_witness:
  "\<exists>s'. vm_physeg_add 0xFFFFE000 0x2000 (phys_boot\<lparr>vm_physegs := [], vm_init := 0\<rparr>) = Some s' \<and>
     early_search [\<lparr>rsv_addr = 0xFFFFE000, rsv_size = 0x1000\<rparr>] 0x2000 (vm_physegs s') =
       Some (Some 0xFFFFE000) \<and>
     ranges_meet 0xFFFFE000 0x2000 \<lparr>rsv_addr = 0xFFFFE000, rsv_size = 0x1000\<rparr>"
  using early_search_top_segment [of "phys_boot\<lparr>vm_physegs := [], vm_init := 0\<rparr>" "0xFFFFE000" "0x2000"]
  by (auto simp: VM_INIT_P_def VM_INIT_PHYS_EARLY_def ALIGNED_def PAGE_SZ_def ranges_meet_def)

end
