(* ===== verification/Rbtree.thy ===== *)
theory Rbtree
  imports Prelude
begin

text \<open>
  Red-black trees (\<^verbatim>\<open>lib/rbtree.c\<close>, \<^verbatim>\<open>include/lib/rbtree.h\<close>) on their pointer representation: a heap of
  nodes with a left and a right pointer and a word that packs the address of the parent with the
  colour, and the root pointer. Every store of the source is a heap update, and a null or dangling
  dereference is \<open>None\<close>. The operations are the ones the kernel's address space allocators use:
  insertion and search with the caller's comparison, removal, and iteration in both orders.
\<close>

subsection \<open>Nodes and the heap\<close>

record rb_node =
  pc :: u32
  n_right :: u32
  n_left :: u32
  n_value :: nat

record rb_tree =
  heap :: "u32 \<Rightarrow> rb_node option"
  root :: u32

definition RB_RED :: u32 where "RB_RED = 0"
definition RB_BLACK :: u32 where "RB_BLACK = 1"

definition pc_parent :: "u32 \<Rightarrow> u32" where
  "pc_parent w = w AND NOT 3"

definition pc_color :: "u32 \<Rightarrow> u32" where
  "pc_color w = w AND RB_BLACK"

definition pc_is_black :: "u32 \<Rightarrow> bool" where
  "pc_is_black w \<longleftrightarrow> pc_color w \<noteq> 0"

definition pc_is_red :: "u32 \<Rightarrow> bool" where
  "pc_is_red w \<longleftrightarrow> pc_color w = 0"

text \<open>Reading and writing a node.\<close>

definition rb_get :: "rb_tree \<Rightarrow> u32 \<Rightarrow> rb_node panicking" where
  "rb_get s a = (if a = 0 then None else heap s a)"

definition rb_put :: "rb_tree \<Rightarrow> u32 \<Rightarrow> rb_node \<Rightarrow> rb_tree" where
  "rb_put s a x = s\<lparr>heap := (heap s)(a \<mapsto> x)\<rparr>"

definition set_left :: "rb_tree \<Rightarrow> u32 \<Rightarrow> u32 \<Rightarrow> rb_tree panicking" where
  "set_left s a v = do { x \<leftarrow> rb_get s a; Some (rb_put s a (x\<lparr>n_left := v\<rparr>)) }"

definition set_right :: "rb_tree \<Rightarrow> u32 \<Rightarrow> u32 \<Rightarrow> rb_tree panicking" where
  "set_right s a v = do { x \<leftarrow> rb_get s a; Some (rb_put s a (x\<lparr>n_right := v\<rparr>)) }"

definition set_pc :: "rb_tree \<Rightarrow> u32 \<Rightarrow> u32 \<Rightarrow> rb_tree panicking" where
  "set_pc s a v = do { x \<leftarrow> rb_get s a; Some (rb_put s a (x\<lparr>pc := v\<rparr>)) }"

definition rb_parent :: "rb_tree \<Rightarrow> u32 \<Rightarrow> u32 panicking" where
  "rb_parent s a = do { x \<leftarrow> rb_get s a; Some (pc_parent (pc x)) }"

definition rb_is_red :: "rb_tree \<Rightarrow> u32 \<Rightarrow> bool panicking" where
  "rb_is_red s a = do { x \<leftarrow> rb_get s a; Some (pc_is_red (pc x)) }"

definition rb_is_black :: "rb_tree \<Rightarrow> u32 \<Rightarrow> bool panicking" where
  "rb_is_black s a = do { x \<leftarrow> rb_get s a; Some (pc_is_black (pc x)) }"

definition rb_set_parent :: "rb_tree \<Rightarrow> u32 \<Rightarrow> u32 \<Rightarrow> rb_tree panicking" where
  "rb_set_parent s rb p = do { x \<leftarrow> rb_get s rb; set_pc s rb (pc_color (pc x) OR p) }"

definition rb_set_parent_color :: "rb_tree \<Rightarrow> u32 \<Rightarrow> u32 \<Rightarrow> u32 \<Rightarrow> rb_tree panicking" where
  "rb_set_parent_color s rb p color = set_pc s rb (p OR color)"

definition rb_set_black :: "rb_tree \<Rightarrow> u32 \<Rightarrow> rb_tree panicking" where
  "rb_set_black s rb = do { x \<leftarrow> rb_get s rb; set_pc s rb (pc x OR RB_BLACK) }"

text \<open>The parent of a red node: the colour bit is known to be 0 and is not masked.\<close>

definition rb_red_parent :: "rb_tree \<Rightarrow> u32 \<Rightarrow> u32 panicking" where
  "rb_red_parent s red = do { x \<leftarrow> rb_get s red; Some (pc x) }"

text \<open>\<^verbatim>\<open>rb_set_parent_color\<close> and \<^verbatim>\<open>rb_set_parent\<close> guarded by a null test, as they stand in several places.\<close>

definition set_pc_if :: "rb_tree \<Rightarrow> u32 \<Rightarrow> u32 \<Rightarrow> u32 \<Rightarrow> rb_tree panicking" where
  "set_pc_if s rb p color = (if rb \<noteq> 0 then rb_set_parent_color s rb p color else Some s)"

definition set_parent_if :: "rb_tree \<Rightarrow> u32 \<Rightarrow> u32 \<Rightarrow> rb_tree panicking" where
  "set_parent_if s rb p = (if rb \<noteq> 0 then rb_set_parent s rb p else Some s)"

subsection \<open>Initialisation and accessors\<close>

definition rb_tree_init :: "rb_tree \<Rightarrow> rb_tree" where
  "rb_tree_init s = s\<lparr>root := 0\<rparr>"

definition rb_node_init :: "rb_tree \<Rightarrow> nat \<Rightarrow> u32 \<Rightarrow> rb_tree panicking" where
  "rb_node_init s val a = do {
     x \<leftarrow> rb_get s a;
     Some (rb_put s a \<lparr> pc = 0, n_right = 0, n_left = 0, n_value = val \<rparr>) }"

text \<open>\<^verbatim>\<open>__rb_node_value\<close>: \<open>None\<close> inside stands for the null pointer.\<close>

definition rb_node_value :: "rb_tree \<Rightarrow> u32 \<Rightarrow> nat option panicking" where
  "rb_node_value s a = (if a = 0 then Some None else do { x \<leftarrow> rb_get s a; Some (Some (n_value x)) })"

partial_function (option) go_left :: "rb_tree \<Rightarrow> u32 \<Rightarrow> u32 panicking" where
  [code]: "go_left s n = do { x \<leftarrow> rb_get s n; if n_left x \<noteq> 0 then go_left s (n_left x) else Some n }"

partial_function (option) go_right :: "rb_tree \<Rightarrow> u32 \<Rightarrow> u32 panicking" where
  [code]: "go_right s n = do { x \<leftarrow> rb_get s n; if n_right x \<noteq> 0 then go_right s (n_right x) else Some n }"

definition rb_first_node :: "rb_tree \<Rightarrow> u32 panicking" where
  "rb_first_node s = (if root s \<noteq> 0 then go_left s (root s) else Some 0)"

definition rb_first :: "rb_tree \<Rightarrow> nat option panicking" where
  "rb_first s = do { n \<leftarrow> rb_first_node s; rb_node_value s n }"

partial_function (option) up_from_right :: "rb_tree \<Rightarrow> u32 \<Rightarrow> u32 panicking" where
  [code]: "up_from_right s node = do {
     parent \<leftarrow> rb_parent s node;
     if parent = 0 then Some 0
     else do {
       y \<leftarrow> rb_get s parent;
       if node = n_right y then up_from_right s parent else Some parent } }"

partial_function (option) up_from_left :: "rb_tree \<Rightarrow> u32 \<Rightarrow> u32 panicking" where
  [code]: "up_from_left s node = do {
     parent \<leftarrow> rb_parent s node;
     if parent = 0 then Some 0
     else do {
       y \<leftarrow> rb_get s parent;
       if node = n_left y then up_from_left s parent else Some parent } }"

definition rb_next_node :: "rb_tree \<Rightarrow> u32 \<Rightarrow> u32 panicking" where
  "rb_next_node s node = do {
     x \<leftarrow> rb_get s node;
     if n_right x \<noteq> 0 then go_left s (n_right x) else up_from_right s node }"

definition rb_prev_node :: "rb_tree \<Rightarrow> u32 \<Rightarrow> u32 panicking" where
  "rb_prev_node s node = do {
     x \<leftarrow> rb_get s node;
     if n_left x \<noteq> 0 then go_right s (n_left x) else up_from_left s node }"

definition rb_next :: "rb_tree \<Rightarrow> u32 \<Rightarrow> nat option panicking" where
  "rb_next s node = do { n \<leftarrow> rb_next_node s node; rb_node_value s n }"

definition rb_prev :: "rb_tree \<Rightarrow> u32 \<Rightarrow> nat option panicking" where
  "rb_prev s node = do { n \<leftarrow> rb_prev_node s node; rb_node_value s n }"

subsection \<open>Rotations and insertion\<close>

definition rb_change_child :: "rb_tree \<Rightarrow> u32 \<Rightarrow> u32 \<Rightarrow> u32 \<Rightarrow> rb_tree panicking" where
  "rb_change_child s old new parent =
     (if parent \<noteq> 0 then do {
        x \<leftarrow> rb_get s parent;
        if n_left x = old then set_left s parent new else set_right s parent new }
      else Some (s\<lparr>root := new\<rparr>))"

definition rb_rotate_set_parents :: "rb_tree \<Rightarrow> u32 \<Rightarrow> u32 \<Rightarrow> u32 \<Rightarrow> rb_tree panicking" where
  "rb_rotate_set_parents s old new color = do {
     parent \<leftarrow> rb_parent s old;
     x \<leftarrow> rb_get s old;
     s \<leftarrow> set_pc s new (pc x);
     s \<leftarrow> rb_set_parent_color s old new color;
     rb_change_child s old new parent }"

text \<open>
  One pass of the loop that repairs the tree after an insertion, for a red parent that is the left
  or the right child of the grandparent. The second component is the next \<open>node\<close> and \<open>parent\<close> when
  the loop goes on.
\<close>

definition fixup_left :: "rb_tree \<Rightarrow> u32 \<Rightarrow> u32 \<Rightarrow> u32 \<Rightarrow> u32 \<Rightarrow> (rb_tree \<times> (u32 \<times> u32) option) panicking" where
  "fixup_left s node parent gparent tmp = do {
     uncle_red \<leftarrow> (if tmp \<noteq> 0 then rb_is_red s tmp else Some False);
     if uncle_red then do {
       s \<leftarrow> rb_set_parent_color s tmp gparent RB_BLACK;
       s \<leftarrow> rb_set_parent_color s parent gparent RB_BLACK;
       let node = gparent;
       parent \<leftarrow> rb_parent s node;
       s \<leftarrow> rb_set_parent_color s node parent RB_RED;
       Some (s, Some (node, parent)) }
     else do {
       x \<leftarrow> rb_get s parent;
       let tmp = n_right x;
       (s, parent, tmp) \<leftarrow> (if node = tmp then do {
            y \<leftarrow> rb_get s node;
            let tmp = n_left y;
            s \<leftarrow> set_right s parent tmp;
            s \<leftarrow> set_left s node parent;
            s \<leftarrow> set_pc_if s tmp parent RB_BLACK;
            s \<leftarrow> rb_set_parent_color s parent node RB_RED;
            z \<leftarrow> rb_get s node;
            Some (s, node, n_right z) }
          else Some (s, parent, tmp));
       s \<leftarrow> set_left s gparent tmp;
       s \<leftarrow> set_right s parent gparent;
       s \<leftarrow> set_pc_if s tmp gparent RB_BLACK;
       s \<leftarrow> rb_rotate_set_parents s gparent parent RB_RED;
       Some (s, None) } }"

definition fixup_right :: "rb_tree \<Rightarrow> u32 \<Rightarrow> u32 \<Rightarrow> u32 \<Rightarrow> (rb_tree \<times> (u32 \<times> u32) option) panicking" where
  "fixup_right s node parent gparent = do {
     g \<leftarrow> rb_get s gparent;
     let tmp = n_left g;
     uncle_red \<leftarrow> (if tmp \<noteq> 0 then rb_is_red s tmp else Some False);
     if uncle_red then do {
       s \<leftarrow> rb_set_parent_color s tmp gparent RB_BLACK;
       s \<leftarrow> rb_set_parent_color s parent gparent RB_BLACK;
       let node = gparent;
       parent \<leftarrow> rb_parent s node;
       s \<leftarrow> rb_set_parent_color s node parent RB_RED;
       Some (s, Some (node, parent)) }
     else do {
       x \<leftarrow> rb_get s parent;
       let tmp = n_left x;
       (s, parent, tmp) \<leftarrow> (if node = tmp then do {
            y \<leftarrow> rb_get s node;
            let tmp = n_right y;
            s \<leftarrow> set_left s parent tmp;
            s \<leftarrow> set_right s node parent;
            s \<leftarrow> set_pc_if s tmp parent RB_BLACK;
            s \<leftarrow> rb_set_parent_color s parent node RB_RED;
            z \<leftarrow> rb_get s node;
            Some (s, node, n_left z) }
          else Some (s, parent, tmp));
       s \<leftarrow> set_right s gparent tmp;
       s \<leftarrow> set_left s parent gparent;
       s \<leftarrow> set_pc_if s tmp gparent RB_BLACK;
       s \<leftarrow> rb_rotate_set_parents s gparent parent RB_RED;
       Some (s, None) } }"

partial_function (option) fixup_loop :: "rb_tree \<Rightarrow> u32 \<Rightarrow> u32 \<Rightarrow> rb_tree panicking" where
  [code]: "fixup_loop s node parent =
     (if parent = 0 then rb_set_parent_color s node 0 RB_BLACK
      else do {
        black \<leftarrow> rb_is_black s parent;
        if black then Some s
        else do {
          gparent \<leftarrow> rb_red_parent s parent;
          g \<leftarrow> rb_get s gparent;
          let tmp = n_right g;
          (s, next) \<leftarrow> (if parent \<noteq> tmp then fixup_left s node parent gparent tmp
                        else fixup_right s node parent gparent);
          case next of None \<Rightarrow> Some s | Some (node, parent) \<Rightarrow> fixup_loop s node parent } })"

definition rb_fixup_violation :: "rb_tree \<Rightarrow> u32 \<Rightarrow> rb_tree panicking" where
  "rb_fixup_violation s node = do { parent \<leftarrow> rb_red_parent s node; fixup_loop s node parent }"

text \<open>A pointer to a child pointer: the root or a field of a node.\<close>

datatype rb_link = Link_root | Link_left u32 | Link_right u32

definition read_link :: "rb_tree \<Rightarrow> rb_link \<Rightarrow> u32 panicking" where
  "read_link s lnk = (case lnk of
     Link_root \<Rightarrow> Some (root s)
   | Link_left a \<Rightarrow> do { x \<leftarrow> rb_get s a; Some (n_left x) }
   | Link_right a \<Rightarrow> do { x \<leftarrow> rb_get s a; Some (n_right x) })"

definition write_link :: "rb_tree \<Rightarrow> rb_link \<Rightarrow> u32 \<Rightarrow> rb_tree panicking" where
  "write_link s lnk v = (case lnk of
     Link_root \<Rightarrow> Some (s\<lparr>root := v\<rparr>)
   | Link_left a \<Rightarrow> set_left s a v
   | Link_right a \<Rightarrow> set_right s a v)"

definition rb_link_node :: "rb_tree \<Rightarrow> u32 \<Rightarrow> u32 \<Rightarrow> rb_link \<Rightarrow> rb_tree panicking" where
  "rb_link_node s node parent lnk = do {
     s \<leftarrow> set_pc s node (parent OR RB_RED);
     s \<leftarrow> set_left s node 0;
     s \<leftarrow> set_right s node 0;
     write_link s lnk node }"

definition rb_node_assert_empty :: "rb_tree \<Rightarrow> u32 \<Rightarrow> unit panicking" where
  "rb_node_assert_empty s node = do {
     x \<leftarrow> rb_get s node;
     kassert (pc_parent (pc x) = 0);
     kassert (n_left x = 0);
     kassert (n_right x = 0) }"

text \<open>The caller's code for a node of the tree chooses a side.\<close>

datatype rb_dir = Go_left | Go_right

partial_function (option) insert_loop :: "(nat \<Rightarrow> rb_dir) \<Rightarrow> rb_tree \<Rightarrow> u32 \<Rightarrow> rb_link \<Rightarrow> (u32 \<times> rb_link) panicking" where
  [code]: "insert_loop code s parent lnk = do {
     cur \<leftarrow> read_link s lnk;
     if cur = 0 then Some (parent, lnk)
     else do {
       x \<leftarrow> rb_get s cur;
       insert_loop code s cur (case code (n_value x) of Go_right \<Rightarrow> Link_right cur | Go_left \<Rightarrow> Link_left cur) } }"

definition rb_insert :: "(nat \<Rightarrow> rb_dir) \<Rightarrow> rb_tree \<Rightarrow> u32 \<Rightarrow> rb_tree panicking" where
  "rb_insert code s node = do {
     rb_node_assert_empty s node;
     (parent, lnk) \<leftarrow> insert_loop code s 0 Link_root;
     s \<leftarrow> rb_link_node s node parent lnk;
     rb_fixup_violation s node }"

text \<open>The caller's code for a search may also return: \<open>None\<close>.\<close>

partial_function (option) rb_search_from :: "(nat \<Rightarrow> rb_dir option) \<Rightarrow> rb_tree \<Rightarrow> u32 \<Rightarrow> nat option panicking" where
  [code]: "rb_search_from code s n =
     (if n = 0 then Some None
      else do {
        x \<leftarrow> rb_get s n;
        case code (n_value x) of
          None \<Rightarrow> Some (Some (n_value x))
        | Some Go_right \<Rightarrow> rb_search_from code s (n_right x)
        | Some Go_left \<Rightarrow> rb_search_from code s (n_left x) })"

definition rb_search :: "(nat \<Rightarrow> rb_dir option) \<Rightarrow> rb_tree \<Rightarrow> nat option panicking" where
  "rb_search code s = rb_search_from code s (root s)"

subsection \<open>Removal\<close>

text \<open>
  One pass of the loop after a removal, for a node that is the left or the right child of its parent:
  case 1 makes the sibling black, the rest has a black sibling. The last component is the next
  \<open>node\<close> and \<open>parent\<close> when the loop goes on.
\<close>

definition null_or_black :: "rb_tree \<Rightarrow> u32 \<Rightarrow> bool panicking" where
  "null_or_black s a = (if a = 0 then Some True else rb_is_black s a)"

text \<open>Case 2: the sibling becomes red.\<close>

definition erase_flip :: "rb_tree \<Rightarrow> u32 \<Rightarrow> u32 \<Rightarrow> (rb_tree \<times> (u32 \<times> u32) option) panicking" where
  "erase_flip s parent sibling = do {
     s \<leftarrow> rb_set_parent_color s sibling parent RB_RED;
     red \<leftarrow> rb_is_red s parent;
     if red then do { s \<leftarrow> rb_set_black s parent; Some (s, None) }
     else do {
       let node = parent;
       parent \<leftarrow> rb_parent s node;
       Some (s, if parent \<noteq> 0 then Some (node, parent) else None) } }"

definition erase_left_black :: "rb_tree \<Rightarrow> u32 \<Rightarrow> u32 \<Rightarrow> (rb_tree \<times> (u32 \<times> u32) option) panicking" where
  "erase_left_black s parent sibling = do {
     y \<leftarrow> rb_get s sibling;
     let tmp1 = n_right y;
     black1 \<leftarrow> null_or_black s tmp1;
     let tmp2 = n_left y;
     black2 \<leftarrow> (if black1 then null_or_black s tmp2 else Some False);
     if black1 \<and> black2 then erase_flip s parent sibling
     else do {
       (s, sibling, tmp1) \<leftarrow> (if black1 then do {
            z \<leftarrow> rb_get s tmp2;
            let tmp1 = n_right z;
            s \<leftarrow> set_left s sibling tmp1;
            s \<leftarrow> set_right s tmp2 sibling;
            s \<leftarrow> set_right s parent tmp2;
            s \<leftarrow> set_pc_if s tmp1 sibling RB_BLACK;
            Some (s, tmp2, sibling) }
          else Some (s, sibling, tmp1));
       y \<leftarrow> rb_get s sibling;
       let tmp2 = n_left y;
       s \<leftarrow> set_right s parent tmp2;
       s \<leftarrow> set_left s sibling parent;
       s \<leftarrow> rb_set_parent_color s tmp1 sibling RB_BLACK;
       s \<leftarrow> set_parent_if s tmp2 parent;
       s \<leftarrow> rb_rotate_set_parents s parent sibling RB_BLACK;
       Some (s, None) } }"

definition erase_left :: "rb_tree \<Rightarrow> u32 \<Rightarrow> u32 \<Rightarrow> (rb_tree \<times> (u32 \<times> u32) option) panicking" where
  "erase_left s parent sibling = do {
     red \<leftarrow> rb_is_red s sibling;
     (s, sibling) \<leftarrow> (if red then do {
          y \<leftarrow> rb_get s sibling;
          let tmp1 = n_left y;
          s \<leftarrow> set_right s parent tmp1;
          s \<leftarrow> set_left s sibling parent;
          s \<leftarrow> rb_set_parent_color s tmp1 parent RB_BLACK;
          s \<leftarrow> rb_rotate_set_parents s parent sibling RB_RED;
          Some (s, tmp1) }
        else Some (s, sibling));
     erase_left_black s parent sibling }"

definition erase_right_black :: "rb_tree \<Rightarrow> u32 \<Rightarrow> u32 \<Rightarrow> (rb_tree \<times> (u32 \<times> u32) option) panicking" where
  "erase_right_black s parent sibling = do {
     y \<leftarrow> rb_get s sibling;
     let tmp1 = n_left y;
     black1 \<leftarrow> null_or_black s tmp1;
     let tmp2 = n_right y;
     black2 \<leftarrow> (if black1 then null_or_black s tmp2 else Some False);
     if black1 \<and> black2 then erase_flip s parent sibling
     else do {
       (s, sibling, tmp1) \<leftarrow> (if black1 then do {
            z \<leftarrow> rb_get s tmp2;
            let tmp1 = n_left z;
            s \<leftarrow> set_right s sibling tmp1;
            s \<leftarrow> set_left s tmp2 sibling;
            s \<leftarrow> set_left s parent tmp2;
            s \<leftarrow> set_pc_if s tmp1 sibling RB_BLACK;
            Some (s, tmp2, sibling) }
          else Some (s, sibling, tmp1));
       y \<leftarrow> rb_get s sibling;
       let tmp2 = n_right y;
       s \<leftarrow> set_left s parent tmp2;
       s \<leftarrow> set_right s sibling parent;
       s \<leftarrow> rb_set_parent_color s tmp1 sibling RB_BLACK;
       s \<leftarrow> set_parent_if s tmp2 parent;
       s \<leftarrow> rb_rotate_set_parents s parent sibling RB_BLACK;
       Some (s, None) } }"

definition erase_right :: "rb_tree \<Rightarrow> u32 \<Rightarrow> u32 \<Rightarrow> (rb_tree \<times> (u32 \<times> u32) option) panicking" where
  "erase_right s parent sibling = do {
     red \<leftarrow> rb_is_red s sibling;
     (s, sibling) \<leftarrow> (if red then do {
          y \<leftarrow> rb_get s sibling;
          let tmp1 = n_right y;
          s \<leftarrow> set_left s parent tmp1;
          s \<leftarrow> set_right s sibling parent;
          s \<leftarrow> rb_set_parent_color s tmp1 parent RB_BLACK;
          s \<leftarrow> rb_rotate_set_parents s parent sibling RB_RED;
          Some (s, tmp1) }
        else Some (s, sibling));
     erase_right_black s parent sibling }"

partial_function (option) erase_color_loop :: "rb_tree \<Rightarrow> u32 \<Rightarrow> u32 \<Rightarrow> rb_tree panicking" where
  [code]: "erase_color_loop s node parent = do {
     p \<leftarrow> rb_get s parent;
     (s, next) \<leftarrow> (if node \<noteq> n_right p then erase_left s parent (n_right p) else erase_right s parent (n_left p));
     case next of None \<Rightarrow> Some s | Some (node, parent) \<Rightarrow> erase_color_loop s node parent }"

definition rb_erase_color :: "rb_tree \<Rightarrow> u32 \<Rightarrow> rb_tree panicking" where
  "rb_erase_color s parent = erase_color_loop s 0 parent"

text \<open>The search for the successor: the node, and its parent.\<close>

partial_function (option) successor_loop :: "rb_tree \<Rightarrow> u32 \<Rightarrow> u32 \<Rightarrow> (u32 \<times> u32) panicking" where
  [code]: "successor_loop s successor tmp = do {
     let parent = successor;
     let successor = tmp;
     x \<leftarrow> rb_get s tmp;
     let tmp = n_left x;
     if tmp \<noteq> 0 then successor_loop s successor tmp else Some (successor, parent) }"

text \<open>Removal of a node with two children: the successor is taken out of the right subtree, then it takes
  the place of the node.\<close>

definition erase_relink :: "rb_tree \<Rightarrow> u32 \<Rightarrow> u32 \<Rightarrow> u32 \<Rightarrow> u32 \<Rightarrow> (rb_tree \<times> u32) panicking" where
  "erase_relink s node successor parent child2 = do {
     x \<leftarrow> rb_get s node;
     let tmp = n_left x;
     s \<leftarrow> set_left s successor tmp;
     s \<leftarrow> rb_set_parent s tmp successor;
     x \<leftarrow> rb_get s node;
     let w = pc x;
     let tmp = pc_parent w;
     s \<leftarrow> rb_change_child s node successor tmp;
     if child2 \<noteq> 0 then do {
       s \<leftarrow> set_pc s successor w;
       s \<leftarrow> rb_set_parent_color s child2 parent RB_BLACK;
       Some (s, 0) }
     else do {
       z \<leftarrow> rb_get s successor;
       let pc2 = pc z;
       s \<leftarrow> set_pc s successor w;
       Some (s, if pc_is_black pc2 then parent else 0) } }"

definition erase_two :: "rb_tree \<Rightarrow> u32 \<Rightarrow> u32 \<Rightarrow> (rb_tree \<times> u32) panicking" where
  "erase_two s node child = do {
     y \<leftarrow> rb_get s child;
     let tmp = n_left y;
     if tmp = 0 then erase_relink s node child child (n_right y)
     else do {
       (successor, parent) \<leftarrow> successor_loop s child tmp;
       z \<leftarrow> rb_get s successor;
       let child2 = n_right z;
       s \<leftarrow> set_left s parent child2;
       s \<leftarrow> set_right s successor child;
       s \<leftarrow> rb_set_parent s child successor;
       erase_relink s node successor parent child2 } }"

definition rb_erase :: "rb_tree \<Rightarrow> u32 \<Rightarrow> (rb_tree \<times> u32) panicking" where
  "rb_erase s node = do {
     x \<leftarrow> rb_get s node;
     let child = n_right x;
     let tmp = n_left x;
     let w = pc x;
     let parent = pc_parent w;
     if tmp = 0 then do {
       s \<leftarrow> rb_change_child s node child parent;
       if child \<noteq> 0 then do { s \<leftarrow> set_pc s child w; Some (s, 0) }
       else Some (s, if pc_is_black w then parent else 0) }
     else if child = 0 then do {
       s \<leftarrow> set_pc s tmp w;
       s \<leftarrow> rb_change_child s node tmp parent;
       Some (s, 0) }
     else erase_two s node child }"

definition rb_remove :: "rb_tree \<Rightarrow> u32 \<Rightarrow> rb_tree panicking" where
  "rb_remove s node = do {
     (s, rebalance) \<leftarrow> rb_erase s node;
     s \<leftarrow> (if rebalance \<noteq> 0 then rb_erase_color s rebalance else Some s);
     s \<leftarrow> set_left s node 0;
     s \<leftarrow> set_right s node 0;
     set_pc s node 0 }"

subsection \<open>Postorder\<close>

partial_function (option) left_deepest_node :: "rb_tree \<Rightarrow> u32 \<Rightarrow> u32 panicking" where
  [code]: "left_deepest_node s node = do {
     x \<leftarrow> rb_get s node;
     if n_left x \<noteq> 0 \<or> n_right x \<noteq> 0
     then left_deepest_node s (if n_left x \<noteq> 0 then n_left x else n_right x)
     else Some node }"

definition rb_postorder_first :: "rb_tree \<Rightarrow> nat option panicking" where
  "rb_postorder_first s =
     (if root s = 0 then Some None else do { n \<leftarrow> left_deepest_node s (root s); rb_node_value s n })"

definition rb_next_postorder :: "rb_tree \<Rightarrow> u32 \<Rightarrow> nat option panicking" where
  "rb_next_postorder s node =
     (if node = 0 then Some None
      else do {
        parent \<leftarrow> rb_parent s node;
        if parent = 0 then Some None
        else do {
          p \<leftarrow> rb_get s parent;
          if node = n_left p \<and> n_right p \<noteq> 0
          then do { n \<leftarrow> left_deepest_node s (n_right p); rb_node_value s n }
          else Some (Some (n_value p)) } })"

end
