(* ===== verification/Rbtree_Abs.thy ===== *)
theory Rbtree_Abs
  imports Rbtree
begin

text \<open>
  Red-black trees as values, for the proofs about the pointer representation: trees of node
  addresses, trees with a hole (the way from a node to the root), the repair after an insertion and
  after a removal as functions on them, and that these keep the order of the nodes and restore the
  red-black properties.
\<close>

datatype colour = Red | Black

lemma not_colour [simp]: "c \<noteq> Red \<longleftrightarrow> c = Black" "c \<noteq> Black \<longleftrightarrow> c = Red"
  by (cases c; simp)+

datatype rbt = Lf | Nd colour rbt u32 rbt

text \<open>A tree with a hole: where the subtree is the left or the right child.\<close>

datatype ctx = Top | CL colour ctx u32 rbt | CR colour rbt u32 ctx

fun inorder :: "rbt \<Rightarrow> u32 list" where
  "inorder Lf = []"
| "inorder (Nd c l a r) = inorder l @ a # inorder r"

fun col :: "rbt \<Rightarrow> colour" where
  "col Lf = Black"
| "col (Nd c l a r) = c"

fun recol :: "colour \<Rightarrow> rbt \<Rightarrow> rbt" where
  "recol c Lf = Lf"
| "recol c (Nd d l a r) = Nd c l a r"

abbreviation blacken :: "rbt \<Rightarrow> rbt" where
  "blacken \<equiv> recol Black"

fun bheight :: "rbt \<Rightarrow> nat" where
  "bheight Lf = 0"
| "bheight (Nd c l a r) = bheight l + (if c = Black then 1 else 0)"

fun invh :: "rbt \<Rightarrow> bool" where
  "invh Lf = True"
| "invh (Nd c l a r) = (bheight l = bheight r \<and> invh l \<and> invh r)"

fun invc :: "rbt \<Rightarrow> bool" where
  "invc Lf = True"
| "invc (Nd c l a r) = ((c = Red \<longrightarrow> col l = Black \<and> col r = Black) \<and> invc l \<and> invc r)"

text \<open>The red-black properties: the root is black, a red node has black children, and every way to a
  leaf has the same number of black nodes.\<close>

definition rb :: "rbt \<Rightarrow> bool" where
  "rb t \<longleftrightarrow> invc t \<and> invh t \<and> col t = Black"

fun plug :: "ctx \<Rightarrow> rbt \<Rightarrow> rbt" where
  "plug Top t = t"
| "plug (CL c k a r) t = plug k (Nd c t a r)"
| "plug (CR c l a k) t = plug k (Nd c l a t)"

fun before :: "ctx \<Rightarrow> u32 list" where
  "before Top = []"
| "before (CL c k a r) = before k"
| "before (CR c l a k) = before k @ inorder l @ [a]"

fun after :: "ctx \<Rightarrow> u32 list" where
  "after Top = []"
| "after (CL c k a r) = a # inorder r @ after k"
| "after (CR c l a k) = after k"

fun ctxh :: "ctx \<Rightarrow> nat \<Rightarrow> bool" where
  "ctxh Top n = True"
| "ctxh (CL c k a r) n = (invh r \<and> bheight r = n \<and> ctxh k (n + (if c = Black then 1 else 0)))"
| "ctxh (CR c l a k) n = (invh l \<and> bheight l = n \<and> ctxh k (n + (if c = Black then 1 else 0)))"

fun ctxc :: "ctx \<Rightarrow> colour \<Rightarrow> bool" where
  "ctxc Top d = (d = Black)"
| "ctxc (CL c k a r) d = (invc r \<and> (c = Red \<longrightarrow> d = Black \<and> col r = Black) \<and> ctxc k c)"
| "ctxc (CR c l a k) d = (invc l \<and> (c = Red \<longrightarrow> d = Black \<and> col l = Black) \<and> ctxc k c)"

lemma inorder_plug [simp]: "inorder (plug k t) = before k @ inorder t @ after k"
  by (induction k arbitrary: t) auto

lemma rb_plug: "rb (plug k t) \<longleftrightarrow> invc t \<and> invh t \<and> ctxc k (col t) \<and> ctxh k (bheight t)"
proof (induction k arbitrary: t)
  case Top
  then show ?case by (auto simp: rb_def)
next
  case (CL c k a r)
  show ?case by (cases c) (auto simp: CL.IH)
next
  case (CR c l a k)
  show ?case by (cases c) (auto simp: CR.IH)
qed

lemma inorder_recol [simp]: "inorder (recol c t) = inorder t"
  by (cases t) auto

lemma recol_Lf [simp]: "recol c t = Lf \<longleftrightarrow> t = Lf"
  by (cases t) auto

lemma inv_blacken [simp]: "invc t \<Longrightarrow> invc (blacken t)" "invh (recol c t) = invh t" "col (blacken t) = Black"
  by (cases t; simp)+

lemma bheight_blacken: "bheight (blacken t) = (if col t = Red then bheight t + 1 else bheight t)"
  by (cases t) auto

lemma blacken_id [simp]: "col t = Black \<Longrightarrow> blacken t = t"
  by (cases t) auto

lemma rb_Nd [simp]: "rb (Nd c l a r) \<longleftrightarrow> c = Black \<and> invc l \<and> invc r \<and> invh l \<and> invh r \<and> bheight l = bheight r"
  by (auto simp: rb_def)

lemma rb_Lf [simp]: "rb Lf"
  by (simp add: rb_def)

lemma ctxc_mono: "ctxc k d \<Longrightarrow> ctxc k Black"
  by (cases k) auto

subsection \<open>Repair after an insertion\<close>

fun ins_fix :: "ctx \<Rightarrow> rbt \<Rightarrow> rbt" where
  "ins_fix (CL Red (CL cg k g u) p r) t =
     (if col u = Red then ins_fix k (Nd Red (Nd Black t p r) g (blacken u))
      else plug k (Nd cg t p (Nd Red (blacken r) g u)))"
| "ins_fix (CR Red l p (CL cg k g u)) t =
     (if col u = Red then ins_fix k (Nd Red (Nd Black l p t) g (blacken u))
      else case t of Nd c nl n nr \<Rightarrow> plug k (Nd cg (Nd Red l p (blacken nl)) n (Nd Red (blacken nr) g u)) | Lf \<Rightarrow> Lf)"
| "ins_fix (CR Red l p (CR cg u g k)) t =
     (if col u = Red then ins_fix k (Nd Red (blacken u) g (Nd Black l p t))
      else plug k (Nd cg (Nd Red u g (blacken l)) p t))"
| "ins_fix (CL Red (CR cg u g k) p r) t =
     (if col u = Red then ins_fix k (Nd Red (blacken u) g (Nd Black t p r))
      else case t of Nd c nl n nr \<Rightarrow> plug k (Nd cg (Nd Red u g (blacken nl)) n (Nd Red (blacken nr) p r)) | Lf \<Rightarrow> Lf)"
| "ins_fix Top t = blacken t"
| "ins_fix k t = plug k t"

lemma ins_fix_inorder: "t \<noteq> Lf \<Longrightarrow> inorder (ins_fix k t) = before k @ inorder t @ after k"
  by (induction k t rule: ins_fix.induct) (auto split: rbt.split)

lemma ins_fix_rb:
  "invc t \<Longrightarrow> invh t \<Longrightarrow> col t = Red \<Longrightarrow> ctxc k Black \<Longrightarrow> ctxh k (bheight t) \<Longrightarrow> rb (ins_fix k t)"
proof (induction k t rule: ins_fix.induct)
  case (5 t)
  then show ?case by (cases t) (auto simp: rb_def)
qed (auto simp: rb_plug bheight_blacken ctxc_mono split: rbt.split)

subsection \<open>Repair after a removal\<close>

text \<open>The hole is the left or the right child of a node of colour \<open>cp\<close> with a black sibling. The result
  says whether the whole subtree is still short of a black node.\<close>

fun bal_left :: "colour \<Rightarrow> rbt \<Rightarrow> u32 \<Rightarrow> rbt \<Rightarrow> rbt \<times> bool" where
  "bal_left cp t p Lf = (Lf, False)"
| "bal_left cp t p (Nd cs sl s sr) =
     (if col sr = Black then
        (case sl of
           Nd Red a x b \<Rightarrow> (Nd cp (Nd Black t p a) x (Nd Black (blacken b) s sr), False)
         | _ \<Rightarrow> (Nd Black t p (Nd Red sl s sr), cp = Black))
      else (Nd cp (Nd Black t p sl) s (blacken sr), False))"

fun bal_right :: "colour \<Rightarrow> rbt \<Rightarrow> u32 \<Rightarrow> rbt \<Rightarrow> rbt \<times> bool" where
  "bal_right cp Lf p t = (Lf, False)"
| "bal_right cp (Nd cs sl s sr) p t =
     (if col sl = Black then
        (case sr of
           Nd Red a x b \<Rightarrow> (Nd cp (Nd Black sl s (blacken a)) x (Nd Black b p t), False)
         | _ \<Rightarrow> (Nd Black (Nd Red sl s sr) p t, cp = Black))
      else (Nd cp (blacken sl) s (Nd Black sr p t), False))"

fun del_fix :: "ctx \<Rightarrow> rbt \<Rightarrow> rbt" where
  "del_fix Top t = t"
| "del_fix (CL cp k p sib) t = (case sib of
     Nd Red sl s sr \<Rightarrow> plug (CL cp k s sr) (fst (bal_left Red t p (blacken sl)))
   | _ \<Rightarrow> (let (u, short) = bal_left cp t p sib in if short then del_fix k u else plug k u))"
| "del_fix (CR cp sib p k) t = (case sib of
     Nd Red sl s sr \<Rightarrow> plug (CR cp sl s k) (fst (bal_right Red (blacken sr) p t))
   | _ \<Rightarrow> (let (u, short) = bal_right cp sib p t in if short then del_fix k u else plug k u))"

lemma bal_left_ok:
  assumes "bal_left cp t p sib = (u, short)" "invc t" "invh t" "invc sib" "invh sib" "col sib = Black" "bheight sib = bheight t + 1"
    "cp = Red \<longrightarrow> col t = Black"
  shows "invc u \<and> invh u \<and> inorder u = inorder t @ p # inorder sib \<and> u \<noteq> Lf \<and>
    (if short then cp = Black \<and> col u = Black \<and> bheight u = bheight t + 1
     else bheight u = bheight t + 1 + (if cp = Black then 1 else 0) \<and> (cp = Black \<longrightarrow> col u = Black))"
  using assms
  by (cases sib) (auto simp: bheight_blacken split: if_splits rbt.splits colour.splits)

lemma bal_right_ok:
  assumes "bal_right cp sib p t = (u, short)" "invc t" "invh t" "invc sib" "invh sib" "col sib = Black" "bheight sib = bheight t + 1"
    "cp = Red \<longrightarrow> col t = Black"
  shows "invc u \<and> invh u \<and> inorder u = inorder sib @ p # inorder t \<and> u \<noteq> Lf \<and>
    (if short then cp = Black \<and> col u = Black \<and> bheight u = bheight t + 1
     else bheight u = bheight t + 1 + (if cp = Black then 1 else 0) \<and> (cp = Black \<longrightarrow> col u = Black))"
  using assms
  by (cases sib) (auto simp: bheight_blacken split: if_splits rbt.splits colour.splits)


lemma red_sibling:
  assumes "invc (Nd Red sl s sr)" "invh (Nd Red sl s sr)" "bheight (Nd Red sl s sr) = n + 1"
  shows "sl \<noteq> Lf" "sr \<noteq> Lf" "col sl = Black" "col sr = Black" "invc sl" "invh sl" "bheight sl = n + 1" "invc sr" "invh sr" "bheight sr = n + 1"
  using assms by auto

lemma del_fix_left:
  assumes IH: "\<And>u. invc u \<Longrightarrow> invh u \<Longrightarrow> col u = Black \<Longrightarrow> ctxc k Black \<Longrightarrow> ctxh k (bheight u + 1) \<Longrightarrow>
      rb (del_fix k u) \<and> inorder (del_fix k u) = before k @ inorder u @ after k"
    and t: "invc t" "invh t" "col t = Black" and c: "ctxc (CL cp k p sib) Black" "ctxh (CL cp k p sib) (bheight t + 1)"
  shows "rb (del_fix (CL cp k p sib) t) \<and> inorder (del_fix (CL cp k p sib) t) = before k @ inorder t @ p # inorder sib @ after k"
proof (cases "col sib = Red")
  case True
  then obtain sl s sr where s: "sib = Nd Red sl s sr" by (cases sib) auto
  have "invc sib" "invh sib" "bheight sib = bheight t + 1" "cp = Black" "ctxc k Black" "ctxh k (bheight t + 2)"
    using c True by (auto simp: ctxc_mono)
  note sib = this [unfolded s] and r = red_sibling [OF this(1-3) [unfolded s]]
  obtain u short where u: "bal_left Red t p sl = (u, short)" by fastforce
  have ok: "invc u" "invh u" "inorder u = inorder t @ p # inorder sl" "bheight u = bheight t + 1"
    using bal_left_ok [OF u t(1,2) r(5,6,3,7)] t(3) by (auto split: if_splits)
  have "del_fix (CL cp k p sib) t = plug (CL cp k s sr) u" using r(3) u by (simp add: s)
  then show ?thesis using ok sib r by (simp add: rb_plug s)
next
  case False
  then have b: "col sib = Black" by simp
  obtain u short where u: "bal_left cp t p sib = (u, short)" by fastforce
  have e: "del_fix (CL cp k p sib) t = (if short then del_fix k u else plug k u)"
    using b u by (cases sib) (simp_all del: bal_left.simps bal_right.simps)
  have ok: "invc u \<and> invh u \<and> inorder u = inorder t @ p # inorder sib \<and>
    (if short then cp = Black \<and> col u = Black \<and> bheight u = bheight t + 1
     else bheight u = bheight t + 1 + (if cp = Black then 1 else 0) \<and> (cp = Black \<longrightarrow> col u = Black))"
    using bal_left_ok [OF u t(1,2) _ _ b] c t(3) by simp
  show ?thesis
  proof (cases short)
    case True
    then show ?thesis unfolding e using ok IH [of u] c by simp
  next
    case False
    then show ?thesis unfolding e rb_plug using ok c ctxc_mono [of k Red] by (cases cp; cases "col u") (simp_all add: rb_plug)
  qed
qed

lemma del_fix_right:
  assumes IH: "\<And>u. invc u \<Longrightarrow> invh u \<Longrightarrow> col u = Black \<Longrightarrow> ctxc k Black \<Longrightarrow> ctxh k (bheight u + 1) \<Longrightarrow>
      rb (del_fix k u) \<and> inorder (del_fix k u) = before k @ inorder u @ after k"
    and t: "invc t" "invh t" "col t = Black" and c: "ctxc (CR cp sib p k) Black" "ctxh (CR cp sib p k) (bheight t + 1)"
  shows "rb (del_fix (CR cp sib p k) t) \<and> inorder (del_fix (CR cp sib p k) t) = before k @ inorder sib @ p # inorder t @ after k"
proof (cases "col sib = Red")
  case True
  then obtain sl s sr where s: "sib = Nd Red sl s sr" by (cases sib) auto
  have "invc sib" "invh sib" "bheight sib = bheight t + 1" "cp = Black" "ctxc k Black" "ctxh k (bheight t + 2)"
    using c True by (auto simp: ctxc_mono)
  note sib = this [unfolded s] and r = red_sibling [OF this(1-3) [unfolded s]]
  obtain u short where u: "bal_right Red sr p t = (u, short)" by fastforce
  have ok: "invc u" "invh u" "inorder u = inorder sr @ p # inorder t" "bheight u = bheight t + 1"
    using bal_right_ok [OF u t(1,2) r(8,9,4,10)] t(3) by (auto split: if_splits)
  have "del_fix (CR cp sib p k) t = plug (CR cp sl s k) u" using r(4) u by (simp add: s)
  then show ?thesis using ok sib r by (simp add: rb_plug s)
next
  case False
  then have b: "col sib = Black" by simp
  obtain u short where u: "bal_right cp sib p t = (u, short)" by fastforce
  have e: "del_fix (CR cp sib p k) t = (if short then del_fix k u else plug k u)"
    using b u by (cases sib) (simp_all del: bal_left.simps bal_right.simps)
  have ok: "invc u \<and> invh u \<and> inorder u = inorder sib @ p # inorder t \<and>
    (if short then cp = Black \<and> col u = Black \<and> bheight u = bheight t + 1
     else bheight u = bheight t + 1 + (if cp = Black then 1 else 0) \<and> (cp = Black \<longrightarrow> col u = Black))"
    using bal_right_ok [OF u t(1,2) _ _ b] c t(3) by simp
  show ?thesis
  proof (cases short)
    case True
    then show ?thesis unfolding e using ok IH [of u] c by simp
  next
    case False
    then show ?thesis unfolding e rb_plug using ok c ctxc_mono [of k Red] by (cases cp; cases "col u") (simp_all add: rb_plug)
  qed
qed

lemma del_fix_ok:
  "invc t \<Longrightarrow> invh t \<Longrightarrow> col t = Black \<Longrightarrow> ctxc k Black \<Longrightarrow> ctxh k (bheight t + 1) \<Longrightarrow>
    rb (del_fix k t) \<and> inorder (del_fix k t) = before k @ inorder t @ after k"
proof (induction k arbitrary: t)
  case Top
  then show ?case by (simp add: rb_def)
next
  case (CL cp k p sib)
  have "rb (del_fix (CL cp k p sib) t) \<and> inorder (del_fix (CL cp k p sib) t) = before k @ inorder t @ p # inorder sib @ after k"
    by (rule del_fix_left, rule CL.IH) (use CL.prems in auto)
  then show ?case by (simp only: before.simps after.simps append_assoc append_Cons append_Nil)
next
  case (CR cp sib p k)
  have "rb (del_fix (CR cp sib p k) t) \<and> inorder (del_fix (CR cp sib p k) t) = before k @ inorder sib @ p # inorder t @ after k"
    by (rule del_fix_right, rule CR.IH) (use CR.prems in auto)
  then show ?case by (simp only: before.simps after.simps append_assoc append_Cons append_Nil)
qed

subsection \<open>Removal\<close>

text \<open>The way down to the leftmost node.\<close>

fun min_ctx :: "ctx \<Rightarrow> rbt \<Rightarrow> ctx" where
  "min_ctx k (Nd c (Nd c' l' a' r') a r) = min_ctx (CL c k a r) (Nd c' l' a' r')"
| "min_ctx k t = k"

fun min_sub :: "rbt \<Rightarrow> rbt" where
  "min_sub (Nd c (Nd c' l' a' r') a r) = min_sub (Nd c' l' a' r')"
| "min_sub t = t"

fun ctx_app :: "ctx \<Rightarrow> ctx \<Rightarrow> ctx" where
  "ctx_app Top k2 = k2"
| "ctx_app (CL c k a r) k2 = CL c (ctx_app k k2) a r"
| "ctx_app (CR c l a k) k2 = CR c l a (ctx_app k k2)"

lemma plug_min: "plug (min_ctx k t) (min_sub t) = plug k t"
  by (induction k t rule: min_ctx.induct) auto

lemma min_sub_Nd: "t \<noteq> Lf \<Longrightarrow> \<exists>c a r. min_sub t = Nd c Lf a r"
  by (induction t rule: min_sub.induct) auto

lemma plug_app [simp]: "plug (ctx_app k k2) t = plug k2 (plug k t)"
  by (induction k arbitrary: t) auto

lemma before_min: "before (min_ctx k t) = before k"
  by (induction k t rule: min_ctx.induct) auto

lemma before_app [simp]: "before (ctx_app k k2) = before k2 @ before k" "after (ctx_app k k2) = after k @ after k2"
  by (induction k) auto

text \<open>What a removal does at a node with a hole around it.\<close>

definition rb_del :: "ctx \<Rightarrow> rbt \<Rightarrow> rbt" where
  "rb_del k t = (case t of
     Lf \<Rightarrow> plug k Lf
   | Nd c l n r \<Rightarrow>
       if l = Lf then
         if r = Lf then (if c = Black then del_fix k Lf else plug k Lf) else plug k (recol c r)
       else if r = Lf then plug k (recol c l)
       else (case min_sub r of
           Nd sc sl s sr \<Rightarrow> let K = ctx_app (min_ctx Top r) (CR c l s k) in
             if sr \<noteq> Lf then plug K (blacken sr) else if sc = Black then del_fix K Lf else plug K Lf
         | Lf \<Rightarrow> Lf))"


lemma bheight_0: "bheight t = 0 \<Longrightarrow> invh t \<Longrightarrow> invc t \<Longrightarrow> t = Lf \<or> (\<exists>a. t = Nd Red Lf a Lf)"
proof (cases t)
  case (Nd c l a r)
  assume "bheight t = 0" "invh t" "invc t"
  then show ?thesis using Nd by (cases l; cases r) (auto split: if_splits)
qed simp

lemma ctx_inv_ref:
  "ctxc (ctx_app k (CR c l n k2)) d = ctxc (ctx_app k (CR c l s k2)) d"
  "ctxh (ctx_app k (CR c l n k2)) m = ctxh (ctx_app k (CR c l s k2)) m"
  by (induction k arbitrary: d m) auto

lemma rb_del_one:
  assumes "rb (plug k (Nd c l n r))" "l = Lf \<or> r = Lf"
  shows "rb (rb_del k (Nd c l n r)) \<and> inorder (rb_del k (Nd c l n r)) = before k @ inorder l @ inorder r @ after k"
proof -
  note i = assms(1) [unfolded rb_plug]
  have lr: "bheight l = 0" "bheight r = 0" using i assms(2) by auto
  have s: "l = Lf \<or> (\<exists>a. l = Nd Red Lf a Lf)" "r = Lf \<or> (\<exists>a. r = Nd Red Lf a Lf)"
    using i bheight_0 [OF lr(1)] bheight_0 [OF lr(2)] by simp_all
  show ?thesis
  proof (cases "l = Lf \<and> r = Lf")
    case True
    then show ?thesis
      using i del_fix_ok [of Lf k] ctxc_mono [of k Red] by (cases c) (auto simp: rb_del_def rb_plug)
  next
    case False
    then show ?thesis using i s assms(2) by (auto simp: rb_del_def rb_plug)
  qed
qed

lemma rb_del_two:
  assumes "rb (plug k (Nd c l n r))" "l \<noteq> Lf" "r \<noteq> Lf"
  shows "rb (rb_del k (Nd c l n r)) \<and> inorder (rb_del k (Nd c l n r)) = before k @ inorder l @ inorder r @ after k"
proof -
  obtain sc s sr where m: "min_sub r = Nd sc Lf s sr" using min_sub_Nd [OF assms(3)] by blast
  let ?k = "min_ctx Top r" let ?K = "ctx_app ?k (CR c l s k)"
  have r: "r = plug ?k (Nd sc Lf s sr)" using plug_min [of Top r] m by simp
  have "rb (plug (ctx_app ?k (CR c l n k)) (Nd sc Lf s sr))" using assms(1) r by simp
  then have i: "invc sr" "invh sr" "bheight sr = 0" "sc = Red \<longrightarrow> col sr = Black" "ctxc ?K sc" "ctxh ?K (if sc = Black then 1 else 0)"
    unfolding rb_plug ctx_inv_ref(1) [of ?k c l n k _ s] ctx_inv_ref(2) [of ?k c l n k _ s] by auto
  have o: "inorder r = s # inorder sr @ after ?k" "before ?k = []"
    using arg_cong [OF r, of inorder] before_min [of Top r] by auto
  have e: "rb_del k (Nd c l n r) = (if sr \<noteq> Lf then plug ?K (blacken sr) else if sc = Black then del_fix ?K Lf else plug ?K Lf)"
    using assms(2,3) by (simp add: rb_del_def m Let_def)
  consider "sr = Lf" "sc = Black" | "sr = Lf" "sc = Red" | a where "sr = Nd Red Lf a Lf" "sc = Black"
    using bheight_0 [OF i(3,2,1)] i(4) by (cases sc) auto
  then show ?thesis
  proof cases
    case 1
    then show ?thesis using e o i del_fix_ok [of Lf ?K] by simp
  next
    case 2
    then show ?thesis using e o i ctxc_mono [of ?K Red] by (simp add: rb_plug del: plug_app)
  next
    case 3
    then show ?thesis using e o i by (simp add: rb_plug del: plug_app)
  qed
qed

lemma rb_del_ok:
  assumes "rb (plug k (Nd c l n r))"
  shows "rb (rb_del k (Nd c l n r))" "inorder (rb_del k (Nd c l n r)) = before k @ inorder l @ inorder r @ after k"
  using rb_del_one [OF assms] rb_del_two [OF assms] by blast+

text \<open>The height of a tree with the red-black properties is logarithmic.\<close>

fun height :: "rbt \<Rightarrow> nat" where
  "height Lf = 0"
| "height (Nd c l a r) = max (height l) (height r) + 1"

lemma height_bheight: "invc t \<Longrightarrow> invh t \<Longrightarrow> height t \<le> 2 * bheight t + (if col t = Red then 1 else 0)"
  by (induction t) (auto split: if_splits)

lemma bheight_size: "invh t \<Longrightarrow> 2 ^ bheight t \<le> length (inorder t) + 1"
  by (induction t) auto

lemma rb_height: "rb t \<Longrightarrow> 2 ^ (height t div 2) \<le> length (inorder t) + 1"
proof -
  assume t: "rb t"
  then have "height t div 2 \<le> bheight t" using height_bheight [of t] by (simp add: rb_def)
  then have "(2::nat) ^ (height t div 2) \<le> 2 ^ bheight t" by (rule power_increasing) simp
  also have "\<dots> \<le> length (inorder t) + 1" using t using bheight_size [of t] by (simp add: rb_def)
  finally show ?thesis .
qed

end
