(* ===== verification/Rbtree_Heap.thy ===== *)
theory Rbtree_Heap
  imports Rbtree_Abs
begin

text \<open>
  The pointer representation of a red-black tree and of a tree with a hole, what the stores of the
  code do to it, and that the repair loops after an insertion and after a removal compute on the heap
  what the functions of \<open>Rbtree_Abs\<close> compute on values.
\<close>

subsection \<open>Packed parent words\<close>

fun bits :: "colour \<Rightarrow> u32" where
  "bits Red = RB_RED"
| "bits Black = RB_BLACK"

definition pack :: "u32 \<Rightarrow> colour \<Rightarrow> u32" where
  "pack p c = p OR bits c"

definition aligned :: "u32 \<Rightarrow> bool" where
  "aligned p \<longleftrightarrow> p AND 3 = 0"

lemma aligned_0 [simp]: "aligned 0"
  by (simp add: aligned_def)

lemma bit_3: "bit (3 :: u32) n \<longleftrightarrow> n < 2"
proof -
  have "bit (mask 2 :: u32) n \<longleftrightarrow> n < 2" by (auto simp: bit_mask_iff)
  moreover have "(mask 2 :: u32) = 3" by (simp add: mask_eq_exp_minus_1)
  ultimately show ?thesis by simp
qed

lemma bit_bits: "bit (bits c) n \<longleftrightarrow> c = Black \<and> n = 0"
  by (cases c) (auto simp: RB_RED_def RB_BLACK_def bit_1_iff)

lemma aligned_bit: "aligned p \<Longrightarrow> n < 2 \<Longrightarrow> \<not> bit p n"
proof
  assume "aligned p" "n < 2" "bit p n"
  then have "bit (p AND 3) n" using bit_3 [of n] by (simp add: bit_and_iff)
  with \<open>aligned p\<close> show False by (simp add: aligned_def)
qed

lemma bit_pc_parent: "n < 32 \<Longrightarrow> bit (pc_parent w) n \<longleftrightarrow> bit w n \<and> 2 \<le> n"
  unfolding pc_parent_def bit_and_iff bit_not_iff bit_3 by auto

lemma pc_parent_pack [simp]: "aligned p \<Longrightarrow> pc_parent (pack p c) = p"
  by (rule bit_word_eqI) (auto simp: bit_pc_parent pack_def bit_or_iff bit_bits dest: aligned_bit intro: leI)

lemma pc_color_pack [simp]: "aligned p \<Longrightarrow> pc_color (pack p c) = bits c"
  by (rule bit_word_eqI)
    (use aligned_bit [of p 0] in \<open>auto simp: pc_color_def pack_def bit_and_iff bit_or_iff bit_bits RB_BLACK_def bit_1_iff\<close>)

lemma pc_black_pack [simp]: "aligned p \<Longrightarrow> pc_is_black (pack p c) \<longleftrightarrow> c = Black"
  by (cases c) (simp_all add: pc_is_black_def RB_BLACK_def RB_RED_def)

lemma pc_red_pack [simp]: "aligned p \<Longrightarrow> pc_is_red (pack p c) \<longleftrightarrow> c = Red"
  by (cases c) (simp_all add: pc_is_red_def RB_BLACK_def RB_RED_def)

lemma pack_red: "pack p Red = p"
  by (simp add: pack_def RB_RED_def)

lemma aligned_not_black [simp]: "aligned p \<Longrightarrow> \<not> pc_is_black p"
  using pc_black_pack [of p Red] by (simp add: pack_red)

lemma or_pack: "p OR RB_BLACK = pack p Black" "p OR RB_RED = pack p Red" "bits c OR p = pack p c"
  by (simp_all add: pack_def or.commute)

lemma pack_or [simp]: "pack p c OR RB_BLACK = pack p Black"
  by (cases c) (simp_all add: pack_def RB_RED_def or.assoc)

subsection \<open>Representation\<close>

fun ref_of :: "rbt \<Rightarrow> u32" where
  "ref_of Lf = 0"
| "ref_of (Nd c l a r) = a"

fun ctx_ref :: "ctx \<Rightarrow> u32" where
  "ctx_ref Top = 0"
| "ctx_ref (CL c k a r) = a"
| "ctx_ref (CR c l a k) = a"

text \<open>The node of a tree: \<open>v\<close> gives the values.\<close>

definition nodev :: "(u32 \<Rightarrow> nat) \<Rightarrow> u32 \<Rightarrow> colour \<Rightarrow> u32 \<Rightarrow> u32 \<Rightarrow> u32 \<Rightarrow> rb_node" where
  "nodev v p c l r a = \<lparr> pc = pack p c, n_right = r, n_left = l, n_value = v a \<rparr>"

fun rep :: "(u32 \<Rightarrow> nat) \<Rightarrow> (u32 \<Rightarrow> rb_node option) \<Rightarrow> u32 \<Rightarrow> rbt \<Rightarrow> bool" where
  "rep v h p Lf = True"
| "rep v h p (Nd c l a r) = (h a = Some (nodev v p c (ref_of l) (ref_of r) a) \<and> rep v h a l \<and> rep v h a r)"

fun rep_ctx :: "(u32 \<Rightarrow> nat) \<Rightarrow> (u32 \<Rightarrow> rb_node option) \<Rightarrow> u32 \<Rightarrow> u32 \<Rightarrow> ctx \<Rightarrow> bool" where
  "rep_ctx v h rt hole Top = (rt = hole)"
| "rep_ctx v h rt hole (CL c k a r) =
     (h a = Some (nodev v (ctx_ref k) c hole (ref_of r) a) \<and> rep v h a r \<and> rep_ctx v h rt a k)"
| "rep_ctx v h rt hole (CR c l a k) =
     (h a = Some (nodev v (ctx_ref k) c (ref_of l) hole a) \<and> rep v h a l \<and> rep_ctx v h rt a k)"

definition ctx_refs :: "ctx \<Rightarrow> u32 set" where
  "ctx_refs k = set (before k) \<union> set (after k)"

text \<open>The addresses of a tree are different, and those of real nodes.\<close>

definition refs_ok :: "u32 list \<Rightarrow> bool" where
  "refs_ok xs \<longleftrightarrow> distinct xs \<and> (\<forall>a \<in> set xs. a \<noteq> 0 \<and> aligned a)"

definition tree_is :: "(u32 \<Rightarrow> nat) \<Rightarrow> rb_tree \<Rightarrow> rbt \<Rightarrow> bool" where
  "tree_is v s t \<longleftrightarrow> root s = ref_of t \<and> rep v (heap s) 0 t \<and> refs_ok (inorder t)"

text \<open>A tree with a hole and the subtree in it.\<close>

definition zip_is :: "(u32 \<Rightarrow> nat) \<Rightarrow> rb_tree \<Rightarrow> ctx \<Rightarrow> rbt \<Rightarrow> bool" where
  "zip_is v s k t \<longleftrightarrow> rep_ctx v (heap s) (root s) (ref_of t) k \<and> rep v (heap s) (ctx_ref k) t \<and>
     refs_ok (before k @ inorder t @ after k)"

lemma rep_plug: "rep v h 0 (plug k t) \<and> rt = ref_of (plug k t) \<longleftrightarrow> rep_ctx v h rt (ref_of t) k \<and> rep v h (ctx_ref k) t"
  by (induction k arbitrary: t) auto

lemma zip_is_plug: "zip_is v s k t \<longleftrightarrow> tree_is v s (plug k t)"
  using rep_plug [of v "heap s" k t "root s"] by (auto simp: zip_is_def tree_is_def)

lemma ctx_refs_simps [simp]:
  "ctx_refs Top = {}" "ctx_refs (CL c k a r) = insert a (set (inorder r) \<union> ctx_refs k)"
  "ctx_refs (CR c l a k) = insert a (set (inorder l) \<union> ctx_refs k)"
  by (auto simp: ctx_refs_def)

text \<open>What is stored outside does not matter.\<close>

lemma rep_upd [simp]: "a \<notin> set (inorder t) \<Longrightarrow> rep v (h(a := x)) p t = rep v h p t"
  by (induction t arbitrary: p) auto

lemma rep_ctx_upd [simp]: "a \<notin> ctx_refs k \<Longrightarrow> rep_ctx v (h(a := x)) rt hole k = rep_ctx v h rt hole k"
  by (induction k arbitrary: hole) auto

lemma rep_cong: "rep v h p t \<Longrightarrow> (\<And>a. a \<in> set (inorder t) \<Longrightarrow> h' a = h a) \<Longrightarrow> rep v h' p t"
  by (induction t arbitrary: p) auto

lemma rep_ctx_cong: "rep_ctx v h rt hole k \<Longrightarrow> (\<And>a. a \<in> ctx_refs k \<Longrightarrow> h' a = h a) \<Longrightarrow> rep_ctx v h' rt hole k"
  by (induction k arbitrary: hole) (auto intro: rep_cong)

lemma ref_of_recol [simp]: "ref_of (recol c t) = ref_of t"
  by (cases t) auto

lemma ref_of_in: "t \<noteq> Lf \<Longrightarrow> ref_of t \<in> set (inorder t)"
  by (cases t) auto

lemma ctx_ref_in: "k \<noteq> Top \<Longrightarrow> ctx_ref k \<in> ctx_refs k"
  by (cases k) auto

subsection \<open>Single stores\<close>

lemma rb_get_node [simp]: "a \<noteq> 0 \<Longrightarrow> rb_get s a = heap s a"
  by (simp add: rb_get_def)

lemma node_sel [simp]:
  "pc (nodev v p c l r a) = pack p c" "n_left (nodev v p c l r a) = l" "n_right (nodev v p c l r a) = r" "n_value (nodev v p c l r a) = v a"
  by (simp_all add: nodev_def)

lemma node_upd [simp]:
  "(nodev v p c l r a)\<lparr>n_left := x\<rparr> = nodev v p c x r a" "(nodev v p c l r a)\<lparr>n_right := x\<rparr> = nodev v p c l x a"
  "(nodev v p c l r a)\<lparr>pc := pack q d\<rparr> = nodev v q d l r a"
  by (simp_all add: nodev_def)

lemmas rb_defs = set_left_def set_right_def set_pc_def rb_put_def rb_parent_def rb_is_red_def rb_is_black_def rb_set_parent_def
  rb_set_parent_color_def rb_set_black_def rb_red_parent_def set_pc_if_def null_or_black_def or_pack

text \<open>Replacing the child of the node above the hole, or the root.\<close>

lemma change_child:
  assumes r: "rep_ctx v (heap s) (root s) old k" and old: "old \<noteq> 0" "old \<notin> ctx_refs k"
    and ok: "\<forall>a \<in> ctx_refs k. a \<noteq> 0" "distinct (before k @ after k)"
  obtains s' where "rb_change_child s old new (ctx_ref k) = Some s'" "rep_ctx v (heap s') (root s') new k"
    "\<And>b. b \<notin> ctx_refs k \<Longrightarrow> heap s' b = heap s b"
proof (cases k)
  case Top
  then show ?thesis using that [of "s\<lparr>root := new\<rparr>"] by (simp add: rb_change_child_def)
next
  case (CL c k' a r)
  then show ?thesis
    using that [of "s\<lparr>heap := (heap s)(a \<mapsto> nodev v (ctx_ref k') c new (ref_of r) a)\<rparr>"] assms
    by (auto simp: rb_change_child_def rb_defs ctx_refs_def)
next
  case (CR c l a k')
  then have "ref_of l \<noteq> old" using old ref_of_in [of l] by (cases l) auto
  then show ?thesis
    using that [of "s\<lparr>heap := (heap s)(a \<mapsto> nodev v (ctx_ref k') c (ref_of l) new a)\<rparr>"] assms CR
    by (auto simp: rb_change_child_def rb_defs ctx_refs_def)
qed


lemma refs_ok_ctx:
  assumes "refs_ok (before k @ xs @ after k)"
  shows "refs_ok xs" "\<forall>a \<in> ctx_refs k. a \<noteq> 0" "\<forall>a \<in> ctx_refs k. a \<notin> set xs" "distinct (before k @ after k)" "aligned (ctx_ref k)"
  using assms ctx_ref_in [of k] by (auto simp: refs_ok_def ctx_refs_def) (cases k; auto)

lemma rotate:
  assumes r: "rep_ctx v (heap s) (root s) old k"
    and n: "heap s old = Some (nodev v (ctx_ref k) c lo ro old)" "heap s new = Some (nodev v q d ln rn new)"
    and ok: "old \<noteq> 0" "new \<noteq> 0" "old \<noteq> new" "old \<notin> ctx_refs k" "new \<notin> ctx_refs k"
      "\<forall>a \<in> ctx_refs k. a \<noteq> 0" "distinct (before k @ after k)" "aligned (ctx_ref k)"
  obtains s' where "rb_rotate_set_parents s old new (bits e) = Some s'" "rep_ctx v (heap s') (root s') new k"
    "heap s' old = Some (nodev v new e lo ro old)" "heap s' new = Some (nodev v (ctx_ref k) c ln rn new)"
    "\<And>b. b \<notin> ctx_refs k \<Longrightarrow> b \<noteq> old \<Longrightarrow> b \<noteq> new \<Longrightarrow> heap s' b = heap s b"
proof -
  let ?s = "s\<lparr>heap := (heap s)(new \<mapsto> nodev v (ctx_ref k) c ln rn new, old \<mapsto> nodev v new e lo ro old)\<rparr>"
  have "rep_ctx v (heap ?s) (root ?s) old k" using r ok by simp
  from change_child [OF this ok(1,4,6,7), of new] obtain s' where
    s': "rb_change_child ?s old new (ctx_ref k) = Some s'" "rep_ctx v (heap s') (root s') new k"
    "\<And>b. b \<notin> ctx_refs k \<Longrightarrow> heap s' b = heap ?s b" by blast
  have "rb_rotate_set_parents s old new (bits e) = Some s'"
    using n ok s'(1) by (simp add: rb_rotate_set_parents_def rb_defs pack_def [symmetric] fun_upd_twist)
  then show ?thesis using s' ok that by simp
qed

lemma set_pc_if_rep:
  assumes "rep v (heap s) q t" "refs_ok (inorder t)"
  obtains s' where "set_pc_if s (ref_of t) p RB_BLACK = Some s'" "root s' = root s" "rep v (heap s') p (blacken t)"
    "\<And>b. b \<notin> set (inorder t) \<Longrightarrow> heap s' b = heap s b"
proof (cases t)
  case Lf
  then show ?thesis using that [of s] by (simp add: set_pc_if_def)
next
  case (Nd c l a r)
  then show ?thesis
    using assms that [of "s\<lparr>heap := (heap s)(a \<mapsto> nodev v p Black (ref_of l) (ref_of r) a)\<rparr>"]
    by (auto simp: rb_defs refs_ok_def)
qed

lemma uncle_red:
  assumes "rep v (heap s) q u" "refs_ok (inorder u)" "aligned q"
  shows "(if ref_of u \<noteq> 0 then rb_is_red s (ref_of u) else Some False) = Some (col u = Red)"
  using assms by (cases u) (auto simp: rb_defs refs_ok_def)

lemma null_or_black_rep:
  assumes "rep v (heap s) q u" "refs_ok (inorder u)" "aligned q"
  shows "null_or_black s (ref_of u) = Some (col u = Black)"
  using assms by (cases u) (auto simp: rb_defs refs_ok_def)

definition same_out :: "u32 list \<Rightarrow> rb_tree \<Rightarrow> rb_tree \<Rightarrow> bool" where
  "same_out xs s s' \<longleftrightarrow> (\<forall>b. b \<notin> set xs \<longrightarrow> heap s' b = heap s b)"

lemma same_out_trans: "same_out xs s s1 \<Longrightarrow> same_out xs s1 s2 \<Longrightarrow> same_out xs s s2"
  by (simp add: same_out_def)

lemma rotate_frame:
  assumes "refs_ok (before k @ xs @ after k)" "x \<in> set xs" "y \<in> set xs" "x \<noteq> y"
  shows "x \<noteq> 0" "y \<noteq> 0" "x \<noteq> y" "x \<notin> ctx_refs k" "y \<notin> ctx_refs k"
    "\<forall>a \<in> ctx_refs k. a \<noteq> 0" "distinct (before k @ after k)" "aligned (ctx_ref k)"
  using refs_ok_ctx [OF assms(1)] assms(2-4) by (auto simp: refs_ok_def)

text \<open>A rotation that puts \<open>g\<close> to the right of \<open>p\<close>, and its mirror image.\<close>

lemma rotate_right:
  assumes r: "rep_ctx v (heap s) (root s) g k" "rep v (heap s) p a" "rep v (heap s) g b" "rep v (heap s) g u"
    and n: "heap s g = Some (nodev v (ctx_ref k) cg (ref_of b) (ref_of u) g)" "heap s p = Some (nodev v q d (ref_of a) g p)"
    and ok: "refs_ok (before k @ (inorder a @ p # inorder b @ g # inorder u) @ after k)"
  obtains s' where "rb_rotate_set_parents s g p (bits e) = Some s'" "zip_is v s' k (Nd cg a p (Nd e b g u))"
    "same_out (before k @ (inorder a @ p # inorder b @ g # inorder u) @ after k) s s'"
proof -
  note c = refs_ok_ctx [OF ok]
  have "g \<noteq> p" using c(1) by (auto simp: refs_ok_def)
  note f = rotate_frame [OF ok _ _ this]
  obtain s' where s': "rb_rotate_set_parents s g p (bits e) = Some s'" "rep_ctx v (heap s') (root s') p k"
    "heap s' g = Some (nodev v p e (ref_of b) (ref_of u) g)" "heap s' p = Some (nodev v (ctx_ref k) cg (ref_of a) g p)"
    "\<And>b. b \<notin> ctx_refs k \<Longrightarrow> b \<noteq> g \<Longrightarrow> b \<noteq> p \<Longrightarrow> heap s' b = heap s b"
    by (rule rotate [OF r(1) n f]) auto
  have h: "heap s' x = heap s x" if "x \<in> set (inorder a) \<union> set (inorder b) \<union> set (inorder u)" for x
    by (rule s'(5)) (use that c(1,3) in \<open>auto simp: refs_ok_def\<close>)
  have "rep v (heap s') p a" "rep v (heap s') g b" "rep v (heap s') g u"
    by (rule rep_cong [OF r(2)] rep_cong [OF r(3)] rep_cong [OF r(4)], simp add: h)+
  then have "zip_is v s' k (Nd cg a p (Nd e b g u))" using s'(2-4) ok by (simp add: zip_is_def)
  moreover have "same_out (before k @ (inorder a @ p # inorder b @ g # inorder u) @ after k) s s'"
    using s'(5) by (auto simp: same_out_def ctx_refs_def)
  ultimately show ?thesis using that s'(1) by blast
qed

lemma rotate_left:
  assumes r: "rep_ctx v (heap s) (root s) g k" "rep v (heap s) p a" "rep v (heap s) g b" "rep v (heap s) g u"
    and n: "heap s g = Some (nodev v (ctx_ref k) cg (ref_of u) (ref_of b) g)" "heap s p = Some (nodev v q d g (ref_of a) p)"
    and ok: "refs_ok (before k @ (inorder u @ g # inorder b @ p # inorder a) @ after k)"
  obtains s' where "rb_rotate_set_parents s g p (bits e) = Some s'" "zip_is v s' k (Nd cg (Nd e u g b) p a)"
    "same_out (before k @ (inorder u @ g # inorder b @ p # inorder a) @ after k) s s'"
proof -
  note c = refs_ok_ctx [OF ok]
  have "g \<noteq> p" using c(1) by (auto simp: refs_ok_def)
  note f = rotate_frame [OF ok _ _ this]
  obtain s' where s': "rb_rotate_set_parents s g p (bits e) = Some s'" "rep_ctx v (heap s') (root s') p k"
    "heap s' g = Some (nodev v p e (ref_of u) (ref_of b) g)" "heap s' p = Some (nodev v (ctx_ref k) cg g (ref_of a) p)"
    "\<And>b. b \<notin> ctx_refs k \<Longrightarrow> b \<noteq> g \<Longrightarrow> b \<noteq> p \<Longrightarrow> heap s' b = heap s b"
    by (rule rotate [OF r(1) n f]) auto
  have h: "heap s' x = heap s x" if "x \<in> set (inorder a) \<union> set (inorder b) \<union> set (inorder u)" for x
    by (rule s'(5)) (use that c(1,3) in \<open>auto simp: refs_ok_def\<close>)
  have "rep v (heap s') p a" "rep v (heap s') g b" "rep v (heap s') g u"
    by (rule rep_cong [OF r(2)] rep_cong [OF r(3)] rep_cong [OF r(4)], simp add: h)+
  then have "zip_is v s' k (Nd cg (Nd e u g b) p a)" using s'(2-4) ok by (simp add: zip_is_def)
  moreover have "same_out (before k @ (inorder u @ g # inorder b @ p # inorder a) @ after k) s s'"
    using s'(5) by (auto simp: same_out_def ctx_refs_def)
  ultimately show ?thesis using that s'(1) by blast
qed

subsection \<open>The repair after an insertion\<close>

lemma fixup_left_outer:
  assumes z: "zip_is v s (CL Red (CL cg k g u) p r) t" and t: "t \<noteq> Lf" and u: "col u = Black"
  obtains s' where "fixup_left s (ref_of t) p g (ref_of u) = Some (s', None)"
    "zip_is v s' k (Nd cg t p (Nd Red (blacken r) g u))"
    "same_out (before k @ (inorder t @ p # inorder r @ g # inorder u) @ after k) s s'"
proof -
  let ?xs = "inorder t @ p # inorder r @ g # inorder u"
  have ok: "refs_ok (before k @ ?xs @ after k)" using z by (simp add: zip_is_def)
  note c = refs_ok_ctx [OF ok]
  have d: "distinct ?xs" "\<forall>a \<in> set ?xs. a \<noteq> 0 \<and> aligned a" using c(1) unfolding refs_ok_def by blast+
  have h: "heap s g = Some (nodev v (ctx_ref k) cg p (ref_of u) g)" "heap s p = Some (nodev v g Red (ref_of t) (ref_of r) p)"
    "rep v (heap s) g u" "rep v (heap s) p r" "rep v (heap s) p t" "rep_ctx v (heap s) (root s) g k"
    using z by (auto simp: zip_is_def)
  have nr: "ref_of t \<noteq> ref_of r" using d t ref_of_in [of t] ref_of_in [of r] by (cases r) auto
  let ?s = "s\<lparr>heap := (heap s)(g \<mapsto> nodev v (ctx_ref k) cg (ref_of r) (ref_of u) g, p \<mapsto> nodev v g Red (ref_of t) g p)\<rparr>"
  have "rep v (heap ?s) p r" "refs_ok (inorder r)" using h d by (auto simp: refs_ok_def)
  then obtain s1 where s1: "set_pc_if ?s (ref_of r) g RB_BLACK = Some s1" "root s1 = root ?s" "rep v (heap s1) g (blacken r)"
    "\<And>b. b \<notin> set (inorder r) \<Longrightarrow> heap s1 b = heap ?s b" by (rule set_pc_if_rep) blast
  have f: "heap s1 b = heap s b" if "b \<notin> set (inorder r)" "b \<noteq> g" "b \<noteq> p" for b using s1(4) [OF that(1)] that by simp
  have "rep_ctx v (heap s1) (root s1) g k" "rep v (heap s1) p t" "rep v (heap s1) g u"
    using s1(2) by (auto intro!: rep_ctx_cong [OF h(6)] rep_cong [OF h(5)] rep_cong [OF h(3)] f) (use d c(3) in auto)
  moreover have "heap s1 g = Some (nodev v (ctx_ref k) cg (ref_of (blacken r)) (ref_of u) g)" "heap s1 p = Some (nodev v g Red (ref_of t) g p)"
    using s1(4) d by auto
  ultimately obtain s2 where s2: "rb_rotate_set_parents s1 g p (bits Red) = Some s2"
    "zip_is v s2 k (Nd cg t p (Nd Red (blacken r) g u))" "same_out (before k @ ?xs @ after k) s1 s2"
    using ok s1(3) by (rule_tac rotate_right [of v s1 g k p t "blacken r" u cg g Red Red]) auto
  have un: "(if ref_of u \<noteq> 0 then rb_is_red s (ref_of u) else Some False) = Some False"
    using uncle_red [OF h(3)] d u by (simp add: refs_ok_def)
  have "fixup_left s (ref_of t) p g (ref_of u) = Some (s2, None)"
    using d nr h s1(1) s2(1) unfolding fixup_left_def un by (simp add: set_left_def set_right_def rb_put_def Let_def)
  moreover have "same_out (before k @ ?xs @ after k) s s1" using f by (auto simp: same_out_def)
  ultimately show ?thesis using that s2(2,3) same_out_trans by blast
qed


lemma fixup_left_inner:
  assumes z: "zip_is v s (CR Red l p (CL cg k g u)) (Nd c nl n nr)" and u: "col u = Black"
  obtains s' where "fixup_left s n p g (ref_of u) = Some (s', None)"
    "zip_is v s' k (Nd cg (Nd Red l p (blacken nl)) n (Nd Red (blacken nr) g u))"
    "same_out (before k @ (inorder l @ p # inorder nl @ n # inorder nr @ g # inorder u) @ after k) s s'"
proof -
  let ?xs = "inorder l @ p # inorder nl @ n # inorder nr @ g # inorder u"
  have ok: "refs_ok (before k @ ?xs @ after k)" using z by (simp add: zip_is_def)
  note c = refs_ok_ctx [OF ok]
  have d: "distinct ?xs" "\<forall>a \<in> set ?xs. a \<noteq> 0 \<and> aligned a" using c(1) unfolding refs_ok_def by blast+
  have h: "heap s g = Some (nodev v (ctx_ref k) cg p (ref_of u) g)" "heap s p = Some (nodev v g Red (ref_of l) n p)"
    "heap s n = Some (nodev v p c (ref_of nl) (ref_of nr) n)" "rep v (heap s) g u" "rep v (heap s) p l"
    "rep v (heap s) n nl" "rep v (heap s) n nr" "rep_ctx v (heap s) (root s) g k"
    using z by (auto simp: zip_is_def)
  let ?s = "s\<lparr>heap := (heap s)(p \<mapsto> nodev v g Red (ref_of l) (ref_of nl) p, n \<mapsto> nodev v p c p (ref_of nr) n)\<rparr>"
  have "rep v (heap ?s) n nl" "refs_ok (inorder nl)" using h d by (auto simp: refs_ok_def)
  then obtain s1 where s1: "set_pc_if ?s (ref_of nl) p RB_BLACK = Some s1" "root s1 = root ?s" "rep v (heap s1) p (blacken nl)"
    "\<And>b. b \<notin> set (inorder nl) \<Longrightarrow> heap s1 b = heap ?s b" by (rule set_pc_if_rep) blast
  have n1: "heap s1 p = Some (nodev v g Red (ref_of l) (ref_of nl) p)" "heap s1 n = Some (nodev v p c p (ref_of nr) n)"
    "heap s1 g = Some (nodev v (ctx_ref k) cg p (ref_of u) g)" using s1(4) d h by auto
  let ?t = "s1\<lparr>heap := (heap s1)(p \<mapsto> nodev v n Red (ref_of l) (ref_of nl) p,
    g \<mapsto> nodev v (ctx_ref k) cg (ref_of nr) (ref_of u) g, n \<mapsto> nodev v p c p g n)\<rparr>"
  have f1: "heap s1 b = heap s b" if "b \<notin> set (inorder nl)" "b \<noteq> p" "b \<noteq> n" for b using s1(4) [OF that(1)] that by simp
  have "rep v (heap s1) n nr" by (rule rep_cong [OF h(7)], rule f1) (use d in auto)
  then have "rep v (heap ?t) n nr" "refs_ok (inorder nr)" using d by (auto simp: refs_ok_def)
  then obtain s2 where s2: "set_pc_if ?t (ref_of nr) g RB_BLACK = Some s2" "root s2 = root ?t" "rep v (heap s2) g (blacken nr)"
    "\<And>b. b \<notin> set (inorder nr) \<Longrightarrow> heap s2 b = heap ?t b" by (rule set_pc_if_rep) blast
  have f2: "heap s2 b = heap s1 b" if "b \<notin> set (inorder nr)" "b \<noteq> p" "b \<noteq> g" "b \<noteq> n" for b using s2(4) [OF that(1)] that by simp
  have f: "heap s2 b = heap s b" if "b \<notin> set (inorder nr)" "b \<notin> set (inorder nl)" "b \<noteq> p" "b \<noteq> g" "b \<noteq> n" for b
    using f1 [of b] f2 [of b] that by simp
  have "rep_ctx v (heap s2) (root s2) g k" "rep v (heap s2) p l" "rep v (heap s2) g u"
    using s1(2) s2(2) by (auto intro!: rep_ctx_cong [OF h(8)] rep_cong [OF h(5)] rep_cong [OF h(4)] f) (use d c(3) in auto)
  moreover have "rep v (heap s2) p (blacken nl)"
    by (rule rep_cong [OF s1(3)], rule f2) (use d in auto)
  moreover have "heap s2 g = Some (nodev v (ctx_ref k) cg (ref_of (blacken nr)) (ref_of u) g)" "heap s2 n = Some (nodev v p c p g n)"
    "heap s2 p = Some (nodev v n Red (ref_of l) (ref_of nl) p)"
    using s2(4) d by auto
  ultimately obtain s3 where s3: "rb_rotate_set_parents s2 g n (bits Red) = Some s3"
    "zip_is v s3 k (Nd cg (Nd Red l p (blacken nl)) n (Nd Red (blacken nr) g u))" "same_out (before k @ ?xs @ after k) s2 s3"
    using ok s2(3) by (rule_tac rotate_right [of v s2 g k n "Nd Red l p (blacken nl)" "blacken nr" u cg p c Red]) auto
  have ne: "p \<noteq> 0" "n \<noteq> 0" "g \<noteq> 0" "p \<noteq> n" "p \<noteq> g" "n \<noteq> g" "n \<noteq> p" "g \<noteq> p" "g \<noteq> n" using d by auto
  have un: "(if ref_of u \<noteq> 0 then rb_is_red s (ref_of u) else Some False) = Some False"
    using uncle_red [OF h(4)] d u by (simp add: refs_ok_def)
  have "fixup_left s n p g (ref_of u) = Some (s3, None)"
    using ne h s1(1) s2(1) s3(1) n1 unfolding fixup_left_def un
    by (simp add: set_left_def set_right_def rb_put_def Let_def rb_set_parent_color_def set_pc_def or_pack)
  moreover have "same_out (before k @ ?xs @ after k) s s2" using f by (auto simp: same_out_def)
  ultimately show ?thesis using that s3(2,3) same_out_trans by blast
qed


lemma fixup_left_flip:
  assumes z: "zip_is v s k (Nd cg (Nd Red a p b) g u)" and u: "col u = Red"
  obtains s' where "fixup_left s n p g (ref_of u) = Some (s', Some (g, ctx_ref k))"
    "zip_is v s' k (Nd Red (Nd Black a p b) g (blacken u))"
    "same_out (before k @ (inorder a @ p # inorder b @ g # inorder u) @ after k) s s'"
proof -
  obtain ul u0 ur where u': "u = Nd Red ul u0 ur" using u by (cases u) auto
  let ?xs = "inorder a @ p # inorder b @ g # inorder u"
  have ok: "refs_ok (before k @ ?xs @ after k)" using z by (simp add: zip_is_def)
  note c = refs_ok_ctx [OF ok]
  have d: "distinct ?xs" "\<forall>a \<in> set ?xs. a \<noteq> 0 \<and> aligned a" using c(1) unfolding refs_ok_def by blast+
  have ne: "p \<noteq> 0" "g \<noteq> 0" "u0 \<noteq> 0" "p \<noteq> g" "p \<noteq> u0" "u0 \<noteq> g" "aligned g" "aligned (ctx_ref k)"
    "p \<notin> ctx_refs k" "g \<notin> ctx_refs k" "u0 \<notin> ctx_refs k" using d u' c(3,5) by auto
  have h: "heap s g = Some (nodev v (ctx_ref k) cg p u0 g)" "heap s p = Some (nodev v g Red (ref_of a) (ref_of b) p)"
    "heap s u0 = Some (nodev v g Red (ref_of ul) (ref_of ur) u0)"
    using z u' by (auto simp: zip_is_def)
  let ?s = "s\<lparr>heap := (heap s)(u0 \<mapsto> nodev v g Black (ref_of ul) (ref_of ur) u0, p \<mapsto> nodev v g Black (ref_of a) (ref_of b) p,
    g \<mapsto> nodev v (ctx_ref k) Red p u0 g)\<rparr>"
  have "fixup_left s n p g (ref_of u) = Some (?s, Some (g, ctx_ref k))"
    using ne h u' by (simp add: fixup_left_def rb_defs)
  moreover have "zip_is v ?s k (Nd Red (Nd Black a p b) g (blacken u))"
    using z u' ne d by (auto simp: zip_is_def)
  moreover have "same_out (before k @ ?xs @ after k) s ?s" using u' by (auto simp: same_out_def)
  ultimately show ?thesis using that by blast
qed

lemma fixup_right_flip:
  assumes z: "zip_is v s k (Nd cg u g (Nd Red a p b))" and u: "col u = Red"
  obtains s' where "fixup_right s n p g = Some (s', Some (g, ctx_ref k))"
    "zip_is v s' k (Nd Red (blacken u) g (Nd Black a p b))"
    "same_out (before k @ (inorder u @ g # inorder a @ p # inorder b) @ after k) s s'"
proof -
  obtain ul u0 ur where u': "u = Nd Red ul u0 ur" using u by (cases u) auto
  let ?xs = "inorder u @ g # inorder a @ p # inorder b"
  have ok: "refs_ok (before k @ ?xs @ after k)" using z by (simp add: zip_is_def)
  note c = refs_ok_ctx [OF ok]
  have d: "distinct ?xs" "\<forall>a \<in> set ?xs. a \<noteq> 0 \<and> aligned a" using c(1) unfolding refs_ok_def by blast+
  have ne: "p \<noteq> 0" "g \<noteq> 0" "u0 \<noteq> 0" "p \<noteq> g" "p \<noteq> u0" "u0 \<noteq> g" "aligned g" "aligned (ctx_ref k)"
    "p \<notin> ctx_refs k" "g \<notin> ctx_refs k" "u0 \<notin> ctx_refs k" using d u' c(3,5) by auto
  have h: "heap s g = Some (nodev v (ctx_ref k) cg u0 p g)" "heap s p = Some (nodev v g Red (ref_of a) (ref_of b) p)"
    "heap s u0 = Some (nodev v g Red (ref_of ul) (ref_of ur) u0)"
    using z u' by (auto simp: zip_is_def)
  let ?s = "s\<lparr>heap := (heap s)(u0 \<mapsto> nodev v g Black (ref_of ul) (ref_of ur) u0, p \<mapsto> nodev v g Black (ref_of a) (ref_of b) p,
    g \<mapsto> nodev v (ctx_ref k) Red u0 p g)\<rparr>"
  have "fixup_right s n p g = Some (?s, Some (g, ctx_ref k))"
    using ne h u' by (simp add: fixup_right_def rb_defs)
  moreover have "zip_is v ?s k (Nd Red (blacken u) g (Nd Black a p b))"
    using z u' ne d by (auto simp: zip_is_def)
  moreover have "same_out (before k @ ?xs @ after k) s ?s" using u' by (auto simp: same_out_def)
  ultimately show ?thesis using that by blast
qed

lemma fixup_right_outer:
  assumes z: "zip_is v s (CR Red l p (CR cg u g k)) t" and t: "t \<noteq> Lf" and u: "col u = Black"
  obtains s' where "fixup_right s (ref_of t) p g = Some (s', None)"
    "zip_is v s' k (Nd cg (Nd Red u g (blacken l)) p t)"
    "same_out (before k @ (inorder u @ g # inorder l @ p # inorder t) @ after k) s s'"
proof -
  let ?xs = "inorder u @ g # inorder l @ p # inorder t"
  have ok: "refs_ok (before k @ ?xs @ after k)" using z by (simp add: zip_is_def)
  note c = refs_ok_ctx [OF ok]
  have d: "distinct ?xs" "\<forall>a \<in> set ?xs. a \<noteq> 0 \<and> aligned a" using c(1) unfolding refs_ok_def by blast+
  have h: "heap s g = Some (nodev v (ctx_ref k) cg (ref_of u) p g)" "heap s p = Some (nodev v g Red (ref_of l) (ref_of t) p)"
    "rep v (heap s) g u" "rep v (heap s) p l" "rep v (heap s) p t" "rep_ctx v (heap s) (root s) g k"
    using z by (auto simp: zip_is_def)
  have nr: "ref_of t \<noteq> ref_of l" using d t ref_of_in [of t] ref_of_in [of l] by (cases l) auto
  let ?s = "s\<lparr>heap := (heap s)(g \<mapsto> nodev v (ctx_ref k) cg (ref_of u) (ref_of l) g, p \<mapsto> nodev v g Red g (ref_of t) p)\<rparr>"
  have "rep v (heap ?s) p l" "refs_ok (inorder l)" using h d by (auto simp: refs_ok_def)
  then obtain s1 where s1: "set_pc_if ?s (ref_of l) g RB_BLACK = Some s1" "root s1 = root ?s" "rep v (heap s1) g (blacken l)"
    "\<And>b. b \<notin> set (inorder l) \<Longrightarrow> heap s1 b = heap ?s b" by (rule set_pc_if_rep) blast
  have f: "heap s1 b = heap s b" if "b \<notin> set (inorder l)" "b \<noteq> g" "b \<noteq> p" for b using s1(4) [OF that(1)] that by simp
  have "rep_ctx v (heap s1) (root s1) g k" "rep v (heap s1) p t" "rep v (heap s1) g u"
    using s1(2) by (auto intro!: rep_ctx_cong [OF h(6)] rep_cong [OF h(5)] rep_cong [OF h(3)] f) (use d c(3) in auto)
  moreover have "heap s1 g = Some (nodev v (ctx_ref k) cg (ref_of u) (ref_of (blacken l)) g)" "heap s1 p = Some (nodev v g Red g (ref_of t) p)"
    using s1(4) d by auto
  ultimately obtain s2 where s2: "rb_rotate_set_parents s1 g p (bits Red) = Some s2"
    "zip_is v s2 k (Nd cg (Nd Red u g (blacken l)) p t)" "same_out (before k @ ?xs @ after k) s1 s2"
    using ok s1(3) by (rule_tac rotate_left [of v s1 g k p t "blacken l" u cg g Red Red]) auto
  have "p \<noteq> g" "g \<noteq> p" "p \<noteq> 0" "g \<noteq> 0" using d by auto
  then have "fixup_right s (ref_of t) p g = Some (s2, None)"
    using d(2) nr h u s1(1) s2(1) unfolding fixup_right_def
    by (cases u) (simp_all add: set_left_def set_right_def rb_put_def Let_def rb_is_red_def)
  moreover have "same_out (before k @ ?xs @ after k) s s1" using f by (auto simp: same_out_def)
  ultimately show ?thesis using that s2(2,3) same_out_trans by blast
qed

lemma fixup_right_inner:
  assumes z: "zip_is v s (CL Red (CR cg u g k) p r) (Nd c nl n nr)" and u: "col u = Black"
  obtains s' where "fixup_right s n p g = Some (s', None)"
    "zip_is v s' k (Nd cg (Nd Red u g (blacken nl)) n (Nd Red (blacken nr) p r))"
    "same_out (before k @ (inorder u @ g # inorder nl @ n # inorder nr @ p # inorder r) @ after k) s s'"
proof -
  let ?xs = "inorder u @ g # inorder nl @ n # inorder nr @ p # inorder r"
  have ok: "refs_ok (before k @ ?xs @ after k)" using z by (simp add: zip_is_def)
  note c = refs_ok_ctx [OF ok]
  have d: "distinct ?xs" "\<forall>a \<in> set ?xs. a \<noteq> 0 \<and> aligned a" using c(1) unfolding refs_ok_def by blast+
  have h: "heap s g = Some (nodev v (ctx_ref k) cg (ref_of u) p g)" "heap s p = Some (nodev v g Red n (ref_of r) p)"
    "heap s n = Some (nodev v p c (ref_of nl) (ref_of nr) n)" "rep v (heap s) g u" "rep v (heap s) p r"
    "rep v (heap s) n nl" "rep v (heap s) n nr" "rep_ctx v (heap s) (root s) g k"
    using z by (auto simp: zip_is_def)
  let ?s = "s\<lparr>heap := (heap s)(p \<mapsto> nodev v g Red (ref_of nr) (ref_of r) p, n \<mapsto> nodev v p c (ref_of nl) p n)\<rparr>"
  have "rep v (heap ?s) n nr" "refs_ok (inorder nr)" using h d by (auto simp: refs_ok_def)
  then obtain s1 where s1: "set_pc_if ?s (ref_of nr) p RB_BLACK = Some s1" "root s1 = root ?s" "rep v (heap s1) p (blacken nr)"
    "\<And>b. b \<notin> set (inorder nr) \<Longrightarrow> heap s1 b = heap ?s b" by (rule set_pc_if_rep) blast
  have n1: "heap s1 p = Some (nodev v g Red (ref_of nr) (ref_of r) p)" "heap s1 n = Some (nodev v p c (ref_of nl) p n)"
    "heap s1 g = Some (nodev v (ctx_ref k) cg (ref_of u) p g)" using s1(4) d h by auto
  let ?t = "s1\<lparr>heap := (heap s1)(p \<mapsto> nodev v n Red (ref_of nr) (ref_of r) p,
    g \<mapsto> nodev v (ctx_ref k) cg (ref_of u) (ref_of nl) g, n \<mapsto> nodev v p c g p n)\<rparr>"
  have f1: "heap s1 b = heap s b" if "b \<notin> set (inorder nr)" "b \<noteq> p" "b \<noteq> n" for b using s1(4) [OF that(1)] that by simp
  have "rep v (heap s1) n nl" by (rule rep_cong [OF h(6)], rule f1) (use d in auto)
  then have "rep v (heap ?t) n nl" "refs_ok (inorder nl)" using d by (auto simp: refs_ok_def)
  then obtain s2 where s2: "set_pc_if ?t (ref_of nl) g RB_BLACK = Some s2" "root s2 = root ?t" "rep v (heap s2) g (blacken nl)"
    "\<And>b. b \<notin> set (inorder nl) \<Longrightarrow> heap s2 b = heap ?t b" by (rule set_pc_if_rep) blast
  have f2: "heap s2 b = heap s1 b" if "b \<notin> set (inorder nl)" "b \<noteq> p" "b \<noteq> g" "b \<noteq> n" for b using s2(4) [OF that(1)] that by simp
  have f: "heap s2 b = heap s b" if "b \<notin> set (inorder nr)" "b \<notin> set (inorder nl)" "b \<noteq> p" "b \<noteq> g" "b \<noteq> n" for b
    using f1 [of b] f2 [of b] that by simp
  have "rep_ctx v (heap s2) (root s2) g k" "rep v (heap s2) p r" "rep v (heap s2) g u"
    using s1(2) s2(2) by (auto intro!: rep_ctx_cong [OF h(8)] rep_cong [OF h(5)] rep_cong [OF h(4)] f) (use d c(3) in auto)
  moreover have "rep v (heap s2) p (blacken nr)"
    by (rule rep_cong [OF s1(3)], rule f2) (use d in auto)
  moreover have "heap s2 g = Some (nodev v (ctx_ref k) cg (ref_of u) (ref_of (blacken nl)) g)" "heap s2 n = Some (nodev v p c g p n)"
    "heap s2 p = Some (nodev v n Red (ref_of nr) (ref_of r) p)"
    using s2(4) d by auto
  ultimately obtain s3 where s3: "rb_rotate_set_parents s2 g n (bits Red) = Some s3"
    "zip_is v s3 k (Nd cg (Nd Red u g (blacken nl)) n (Nd Red (blacken nr) p r))" "same_out (before k @ ?xs @ after k) s2 s3"
    using ok s2(3) by (rule_tac rotate_left [of v s2 g k n "Nd Red (blacken nr) p r" "blacken nl" u cg p c Red]) auto
  have ne: "p \<noteq> 0" "n \<noteq> 0" "g \<noteq> 0" "p \<noteq> n" "p \<noteq> g" "n \<noteq> g" "n \<noteq> p" "g \<noteq> p" "g \<noteq> n" using d by auto
  have "fixup_right s n p g = Some (s3, None)"
    using ne d(2) h u s1(1) s2(1) s3(1) n1 unfolding fixup_right_def
    by (cases u) (simp_all add: rb_is_red_def set_left_def set_right_def rb_put_def Let_def rb_set_parent_color_def set_pc_def or_pack)
  moreover have "same_out (before k @ ?xs @ after k) s s2" using f by (auto simp: same_out_def)
  ultimately show ?thesis using that s3(2,3) same_out_trans by blast
qed


lemma fixup_step:
  assumes "heap s p = Some (nodev v g Red l r p)" "heap s g = Some (nodev v q cg gl gr g)" "p \<noteq> 0" "g \<noteq> 0" "aligned g"
  shows "fixup_loop s n p = do {
    (s, next) \<leftarrow> (if p \<noteq> gr then fixup_left s n p g gr else fixup_right s n p g);
    case next of None \<Rightarrow> Some s | Some (node, parent) \<Rightarrow> fixup_loop s node parent }"
  using assms by (subst fixup_loop.simps) (simp add: rb_is_black_def rb_red_parent_def pack_red Let_def)

lemma fixup_black:
  assumes "heap s p = Some (nodev v q Black l r p)" "p \<noteq> 0" "aligned q"
  shows "fixup_loop s n p = Some s"
  using assms by (subst fixup_loop.simps) (simp add: rb_is_black_def)

lemma fixup_top:
  assumes "zip_is v s Top t" "t \<noteq> Lf"
  obtains s' where "fixup_loop s (ref_of t) 0 = Some s'" "tree_is v s' (blacken t)" "same_out (inorder t) s s'"
proof -
  obtain c l a r where t: "t = Nd c l a r" using assms(2) by (cases t) auto
  let ?s = "s\<lparr>heap := (heap s)(a \<mapsto> nodev v 0 Black (ref_of l) (ref_of r) a)\<rparr>"
  have "fixup_loop s (ref_of t) 0 = Some ?s"
    using assms t by (subst fixup_loop.simps) (auto simp: zip_is_def rb_defs refs_ok_def)
  moreover have "tree_is v ?s (blacken t)" "same_out (inorder t) s ?s"
    using assms t by (auto simp: zip_is_def tree_is_def refs_ok_def same_out_def)
  ultimately show ?thesis using that by blast
qed

definition fixed :: "(u32 \<Rightarrow> nat) \<Rightarrow> rb_tree \<Rightarrow> ctx \<Rightarrow> rbt \<Rightarrow> rb_tree option \<Rightarrow> rbt \<Rightarrow> bool" where
  "fixed v s k t res t' \<longleftrightarrow> (\<exists>s'. res = Some s' \<and> tree_is v s' t' \<and> same_out (before k @ inorder t @ after k) s s')"

lemma fixed_done:
  assumes "zip_is v s' k' t'" "same_out (before k @ inorder t @ after k) s s'"
  shows "fixed v s k t (Some s') (plug k' t')"
  using assms by (auto simp: fixed_def zip_is_plug)

lemma fixed_up:
  assumes "fixed v s1 k' t1 res t'" "same_out (before k @ inorder t @ after k) s s1"
    "before k' @ inorder t1 @ after k' = before k @ inorder t @ after k"
  shows "fixed v s k t res t'"
  using assms by (auto simp: fixed_def intro: same_out_trans)

lemma fixup_loop_black:
  "zip_is v s (CL Black k p r) t \<Longrightarrow> fixed v s (CL Black k p r) t (fixup_loop s (ref_of t) p) (plug k (Nd Black t p r))"
  "zip_is v s (CR Black l p k) t \<Longrightarrow> fixed v s (CR Black l p k) t (fixup_loop s (ref_of t) p) (plug k (Nd Black l p t))"
proof -
  show "fixed v s (CL Black k p r) t (fixup_loop s (ref_of t) p) (plug k (Nd Black t p r))" if z: "zip_is v s (CL Black k p r) t"
  proof -
    have "aligned (ctx_ref k)" "p \<noteq> 0" using z refs_ok_ctx(5) [of k "inorder t @ p # inorder r"] by (auto simp: zip_is_def refs_ok_def)
    then have "fixup_loop s (ref_of t) p = Some s" using z by (intro fixup_black) (auto simp: zip_is_def)
    then show ?thesis using z by (auto simp: fixed_def zip_is_plug same_out_def)
  qed
  show "fixed v s (CR Black l p k) t (fixup_loop s (ref_of t) p) (plug k (Nd Black l p t))" if z: "zip_is v s (CR Black l p k) t"
  proof -
    have "aligned (ctx_ref k)" "p \<noteq> 0" using z refs_ok_ctx(5) [of k "inorder l @ p # inorder t"] by (auto simp: zip_is_def refs_ok_def)
    then have "fixup_loop s (ref_of t) p = Some s" using z by (intro fixup_black) (auto simp: zip_is_def)
    then show ?thesis using z by (auto simp: fixed_def zip_is_plug same_out_def)
  qed
qed

lemma fixup_loop_ok:
  "zip_is v s k t \<Longrightarrow> t \<noteq> Lf \<Longrightarrow> ctxc k Black \<Longrightarrow> fixed v s k t (fixup_loop s (ref_of t) (ctx_ref k)) (ins_fix k t)"
proof (induction k t arbitrary: s rule: ins_fix.induct)
  case (1 cg k g u p r t)
  let ?k = "CL Red (CL cg k g u) p r"
  have h: "heap s p = Some (nodev v g Red (ref_of t) (ref_of r) p)" "heap s g = Some (nodev v (ctx_ref k) cg p (ref_of u) g)"
    "p \<noteq> 0" "g \<noteq> 0" "aligned g" "p \<noteq> ref_of u"
    using 1(2) ref_of_in [of u] by (auto simp: zip_is_def refs_ok_def) (cases u; auto)
  show ?case
  proof (cases "col u = Red")
    case True
    have "zip_is v s k (Nd cg (Nd Red t p r) g u)" using 1(2) by (simp add: zip_is_plug)
    from fixup_left_flip [OF this True, of "ref_of t"] obtain s1 where
      s1: "fixup_left s (ref_of t) p g (ref_of u) = Some (s1, Some (g, ctx_ref k))"
      "zip_is v s1 k (Nd Red (Nd Black t p r) g (blacken u))"
      "same_out (before k @ (inorder t @ p # inorder r @ g # inorder u) @ after k) s s1" .
    have "fixed v s1 k (Nd Red (Nd Black t p r) g (blacken u)) (fixup_loop s1 g (ctx_ref k)) (ins_fix ?k t)"
      using 1(1) [OF True s1(2)] 1(4) True by (auto intro: ctxc_mono)
    then show ?thesis using s1(1,3) h(6) unfolding fixup_step [OF h(1-5)] ctx_ref.simps by (auto elim!: fixed_up)
  next
    case False
    then have "col u = Black" by simp
    from fixup_left_outer [OF 1(2,3) this] obtain s1 where
      s1: "fixup_left s (ref_of t) p g (ref_of u) = Some (s1, None)" "zip_is v s1 k (Nd cg t p (Nd Red (blacken r) g u))"
      "same_out (before k @ (inorder t @ p # inorder r @ g # inorder u) @ after k) s s1" .
    then show ?thesis using False h(6) fixed_done [OF s1(2)] unfolding fixup_step [OF h(1-5)] ctx_ref.simps by simp
  qed
next
  case (2 l p cg k g u t)
  let ?k = "CR Red l p (CL cg k g u)"
  have h: "heap s p = Some (nodev v g Red (ref_of l) (ref_of t) p)" "heap s g = Some (nodev v (ctx_ref k) cg p (ref_of u) g)"
    "p \<noteq> 0" "g \<noteq> 0" "aligned g" "p \<noteq> ref_of u"
    using 2(2) ref_of_in [of u] by (auto simp: zip_is_def refs_ok_def) (cases u; auto)
  show ?case
  proof (cases "col u = Red")
    case True
    have "zip_is v s k (Nd cg (Nd Red l p t) g u)" using 2(2) by (simp add: zip_is_plug)
    from fixup_left_flip [OF this True, of "ref_of t"] obtain s1 where
      s1: "fixup_left s (ref_of t) p g (ref_of u) = Some (s1, Some (g, ctx_ref k))"
      "zip_is v s1 k (Nd Red (Nd Black l p t) g (blacken u))"
      "same_out (before k @ (inorder l @ p # inorder t @ g # inorder u) @ after k) s s1" .
    have "fixed v s1 k (Nd Red (Nd Black l p t) g (blacken u)) (fixup_loop s1 g (ctx_ref k)) (ins_fix ?k t)"
      using 2(1) [OF True s1(2)] 2(4) True by (auto intro: ctxc_mono)
    then show ?thesis using s1(1,3) h(6) unfolding fixup_step [OF h(1-5)] ctx_ref.simps by (auto elim!: fixed_up)
  next
    case False
    then have "col u = Black" by simp
    moreover obtain c nl n nr where t: "t = Nd c nl n nr" using 2(3) by (cases t) auto
    ultimately obtain s1 where
      s1: "fixup_left s n p g (ref_of u) = Some (s1, None)"
      "zip_is v s1 k (Nd cg (Nd Red l p (blacken nl)) n (Nd Red (blacken nr) g u))"
      "same_out (before k @ (inorder l @ p # inorder nl @ n # inorder nr @ g # inorder u) @ after k) s s1"
      using fixup_left_inner [OF 2(2) [unfolded t]] by metis
    then show ?thesis using False h(6) t fixed_done [OF s1(2)] unfolding fixup_step [OF h(1-5)] ctx_ref.simps by simp
  qed
next
  case (3 l p cg u g k t)
  let ?k = "CR Red l p (CR cg u g k)"
  have h: "heap s p = Some (nodev v g Red (ref_of l) (ref_of t) p)" "heap s g = Some (nodev v (ctx_ref k) cg (ref_of u) p g)"
    "p \<noteq> 0" "g \<noteq> 0" "aligned g"
    using 3(2) by (auto simp: zip_is_def refs_ok_def)
  show ?case
  proof (cases "col u = Red")
    case True
    have "zip_is v s k (Nd cg u g (Nd Red l p t))" using 3(2) by (simp add: zip_is_plug)
    from fixup_right_flip [OF this True, of "ref_of t"] obtain s1 where
      s1: "fixup_right s (ref_of t) p g = Some (s1, Some (g, ctx_ref k))"
      "zip_is v s1 k (Nd Red (blacken u) g (Nd Black l p t))"
      "same_out (before k @ (inorder u @ g # inorder l @ p # inorder t) @ after k) s s1" .
    have "fixed v s1 k (Nd Red (blacken u) g (Nd Black l p t)) (fixup_loop s1 g (ctx_ref k)) (ins_fix ?k t)"
      using 3(1) [OF True s1(2)] 3(4) True by (auto intro: ctxc_mono)
    then show ?thesis using s1(1,3) unfolding fixup_step [OF h] ctx_ref.simps by (auto elim!: fixed_up)
  next
    case False
    then have "col u = Black" by simp
    from fixup_right_outer [OF 3(2,3) this] obtain s1 where
      s1: "fixup_right s (ref_of t) p g = Some (s1, None)" "zip_is v s1 k (Nd cg (Nd Red u g (blacken l)) p t)"
      "same_out (before k @ (inorder u @ g # inorder l @ p # inorder t) @ after k) s s1" .
    then show ?thesis using False fixed_done [OF s1(2)] unfolding fixup_step [OF h] ctx_ref.simps by simp
  qed
next
  case (4 cg u g k p r t)
  let ?k = "CL Red (CR cg u g k) p r"
  have h: "heap s p = Some (nodev v g Red (ref_of t) (ref_of r) p)" "heap s g = Some (nodev v (ctx_ref k) cg (ref_of u) p g)"
    "p \<noteq> 0" "g \<noteq> 0" "aligned g"
    using 4(2) by (auto simp: zip_is_def refs_ok_def)
  show ?case
  proof (cases "col u = Red")
    case True
    have "zip_is v s k (Nd cg u g (Nd Red t p r))" using 4(2) by (simp add: zip_is_plug)
    from fixup_right_flip [OF this True, of "ref_of t"] obtain s1 where
      s1: "fixup_right s (ref_of t) p g = Some (s1, Some (g, ctx_ref k))"
      "zip_is v s1 k (Nd Red (blacken u) g (Nd Black t p r))"
      "same_out (before k @ (inorder u @ g # inorder t @ p # inorder r) @ after k) s s1" .
    have "fixed v s1 k (Nd Red (blacken u) g (Nd Black t p r)) (fixup_loop s1 g (ctx_ref k)) (ins_fix ?k t)"
      using 4(1) [OF True s1(2)] 4(4) True by (auto intro: ctxc_mono)
    then show ?thesis using s1(1,3) unfolding fixup_step [OF h] ctx_ref.simps by (auto elim!: fixed_up)
  next
    case False
    then have "col u = Black" by simp
    moreover obtain c nl n nr where t: "t = Nd c nl n nr" using 4(3) by (cases t) auto
    ultimately obtain s1 where
      s1: "fixup_right s n p g = Some (s1, None)"
      "zip_is v s1 k (Nd cg (Nd Red u g (blacken nl)) n (Nd Red (blacken nr) p r))"
      "same_out (before k @ (inorder u @ g # inorder nl @ n # inorder nr @ p # inorder r) @ after k) s s1"
      using fixup_right_inner [OF 4(2) [unfolded t]] by metis
    then show ?thesis using False t fixed_done [OF s1(2)] unfolding fixup_step [OF h] ctx_ref.simps by simp
  qed
next
  case (5 t)
  then show ?case using fixup_top [of v s t] by (auto simp: fixed_def)
qed (auto dest!: fixup_loop_black)

end
