(* ===== verification/Rbtree_Erase.thy ===== *)
theory Rbtree_Erase
  imports Rbtree_Heap
begin

text \<open>
  The removal on the pointer representation: each case of the repair loop and of the unlinking of a
  node computes on the heap what the functions of \<open>Rbtree_Abs\<close> compute on values.
\<close>

subsection \<open>The repair loop\<close>

lemma nodev_pack [simp]: "nodev v (pack q c) Black l r a = nodev v q Black l r a"
  using pack_or [of q c] by (simp add: nodev_def pack_def)

lemma set_parent_rep:
  assumes "rep v (heap s) q t" "refs_ok (inorder t)" "aligned q"
  obtains s' where "set_parent_if s (ref_of t) p = Some s'" "root s' = root s" "rep v (heap s') p t"
    "\<And>b. b \<notin> set (inorder t) \<Longrightarrow> heap s' b = heap s b"
proof (cases t)
  case Lf
  then show ?thesis using that [of s] by (simp add: set_parent_if_def)
next
  case (Nd c l a r)
  then show ?thesis
    using assms that [of "s\<lparr>heap := (heap s)(a \<mapsto> nodev v p c (ref_of l) (ref_of r) a)\<rparr>"]
    by (auto simp: rb_defs set_parent_if_def refs_ok_def)
qed

lemma refs_okD:
  assumes "refs_ok (before k @ xs @ after k)"
  shows "distinct xs" "\<forall>a \<in> set xs. a \<noteq> 0 \<and> aligned a" "\<forall>a \<in> set xs. a \<notin> ctx_refs k" "aligned (ctx_ref k)"
  using refs_ok_ctx [OF assms] by (auto simp: refs_ok_def)

definition next_up :: "ctx \<Rightarrow> u32 \<Rightarrow> bool \<Rightarrow> (u32 \<times> u32) option" where
  "next_up k p short = (if short \<and> ctx_ref k \<noteq> 0 then Some (p, ctx_ref k) else None)"

lemma erase_flip_left:
  assumes z: "zip_is v s k (Nd cp t p (Nd cs sl s0 sr))"
  obtains s' where "erase_flip s p s0 = Some (s', next_up k p (cp = Black))" "zip_is v s' k (Nd Black t p (Nd Red sl s0 sr))"
    "same_out (before k @ (inorder t @ p # inorder sl @ s0 # inorder sr) @ after k) s s'"
proof -
  let ?xs = "inorder t @ p # inorder sl @ s0 # inorder sr"
  have ok: "refs_ok (before k @ ?xs @ after k)" using z by (simp add: zip_is_def)
  note d = refs_okD [OF ok]
  have h: "heap s p = Some (nodev v (ctx_ref k) cp (ref_of t) s0 p)" "heap s s0 = Some (nodev v p cs (ref_of sl) (ref_of sr) s0)"
    using z by (auto simp: zip_is_def)
  have ne: "p \<noteq> 0" "s0 \<noteq> 0" "p \<noteq> s0" "aligned p" "p \<notin> ctx_refs k" "s0 \<notin> ctx_refs k" using d by auto
  let ?s = "s\<lparr>heap := (heap s)(s0 \<mapsto> nodev v p Red (ref_of sl) (ref_of sr) s0, p \<mapsto> nodev v (ctx_ref k) Black (ref_of t) s0 p)\<rparr>"
  have p: "(heap s)(s0 \<mapsto> x) = (heap s)(s0 \<mapsto> x, p \<mapsto> nodev v (ctx_ref k) Black (ref_of t) s0 p)" if "cp = Black" for x
    using h(1) ne that by auto
  have "erase_flip s p s0 = Some (?s, next_up k p (cp = Black))"
    using ne h d(4) p by (cases cp) (auto simp: erase_flip_def rb_defs next_up_def Let_def)
  moreover have "zip_is v ?s k (Nd Black t p (Nd Red sl s0 sr))" using z ne d by (auto simp: zip_is_def)
  moreover have "same_out (before k @ ?xs @ after k) s ?s" by (auto simp: same_out_def)
  ultimately show ?thesis using that by blast
qed

lemma erase_left_outer:
  assumes z: "zip_is v s k (Nd cp t p (Nd cs sl s0 sr))" and c: "col sr = Red"
  obtains s' where "erase_left_black s p s0 = Some (s', None)" "zip_is v s' k (Nd cp (Nd Black t p sl) s0 (blacken sr))"
    "same_out (before k @ (inorder t @ p # inorder sl @ s0 # inorder sr) @ after k) s s'"
proof -
  obtain rl r0 rr where sr: "sr = Nd Red rl r0 rr" using c by (cases sr) auto
  let ?xs = "inorder t @ p # inorder sl @ s0 # inorder sr"
  have ok: "refs_ok (before k @ ?xs @ after k)" using z by (simp add: zip_is_def)
  note d = refs_okD [OF ok]
  have h: "heap s p = Some (nodev v (ctx_ref k) cp (ref_of t) s0 p)" "heap s s0 = Some (nodev v p cs (ref_of sl) r0 s0)"
    "heap s r0 = Some (nodev v s0 Red (ref_of rl) (ref_of rr) r0)" "rep v (heap s) p t" "rep v (heap s) s0 sl" "rep v (heap s) s0 sr"
    "rep_ctx v (heap s) (root s) p k" using z sr by (auto simp: zip_is_def)
  have ne: "p \<noteq> 0" "s0 \<noteq> 0" "r0 \<noteq> 0" "p \<noteq> s0" "p \<noteq> r0" "s0 \<noteq> r0" "s0 \<noteq> p" "r0 \<noteq> p" "r0 \<noteq> s0" "aligned p" "aligned s0"
    using d sr by auto
  let ?s = "s\<lparr>heap := (heap s)(p \<mapsto> nodev v (ctx_ref k) cp (ref_of t) (ref_of sl) p, s0 \<mapsto> nodev v p cs p r0 s0,
    r0 \<mapsto> nodev v s0 Black (ref_of rl) (ref_of rr) r0)\<rparr>"
  have "rep v (heap ?s) s0 sl" "refs_ok (inorder sl)" "aligned s0" using h(5) d sr ne by (auto simp: refs_ok_def)
  then obtain s1 where s1: "set_parent_if ?s (ref_of sl) p = Some s1" "root s1 = root ?s"
    "rep v (heap s1) p sl" "\<And>b. b \<notin> set (inorder sl) \<Longrightarrow> heap s1 b = heap ?s b" by (rule set_parent_rep) blast
  have f: "heap s1 b = heap s b" if "b \<notin> set (inorder sl)" "b \<noteq> p" "b \<noteq> s0" "b \<noteq> r0" for b using s1(4) [OF that(1)] that by simp
  have "rep_ctx v (heap s1) (root s1) p k" "rep v (heap s1) p t"
    using s1(2) by (auto intro!: rep_ctx_cong [OF h(7)] rep_cong [OF h(4)] f) (use d sr in auto)
  moreover have n1: "heap s1 p = Some (nodev v (ctx_ref k) cp (ref_of t) (ref_of sl) p)" "heap s1 s0 = Some (nodev v p cs p r0 s0)"
    "heap s1 r0 = Some (nodev v s0 Black (ref_of rl) (ref_of rr) r0)" using s1(4) d sr ne by auto
  moreover have "rep v (heap s1) r0 rl" "rep v (heap s1) r0 rr"
    by (rule rep_cong [of v "heap s"], use h(6) sr in simp, rule f; use d sr in auto)+
  then have "rep v (heap s1) s0 (blacken sr)" using n1 sr by simp
  ultimately obtain s2 where s2: "rb_rotate_set_parents s1 p s0 (bits Black) = Some s2"
    "zip_is v s2 k (Nd cp (Nd Black t p sl) s0 (blacken sr))" "same_out (before k @ ?xs @ after k) s1 s2"
    using ok s1(3) sr by (rule_tac rotate_left [of v s1 p k s0 "blacken sr" sl t cp p cs Black]) auto
  have b: "null_or_black s r0 = Some False" using h(3) ne by (simp add: rb_defs)
  have "erase_left_black s p s0 = Some (s2, None)"
    using ne h s1(1) s2(1) b unfolding erase_left_black_def
    by (simp add: set_left_def set_right_def rb_put_def Let_def rb_set_parent_color_def set_pc_def or_pack)
  moreover have "same_out (before k @ ?xs @ after k) s s1" using f sr by (auto simp: same_out_def)
  ultimately show ?thesis using that s2(2,3) same_out_trans by blast
qed


lemma erase_left_inner:
  assumes z: "zip_is v s k (Nd cp t p (Nd cs (Nd Red a x b) s0 sr))" and c: "col sr = Black"
  obtains s' where "erase_left_black s p s0 = Some (s', None)" "zip_is v s' k (Nd cp (Nd Black t p a) x (Nd Black (blacken b) s0 sr))"
    "same_out (before k @ (inorder t @ p # inorder a @ x # inorder b @ s0 # inorder sr) @ after k) s s'"
proof -
  let ?xs = "inorder t @ p # inorder a @ x # inorder b @ s0 # inorder sr"
  have ok: "refs_ok (before k @ ?xs @ after k)" using z by (simp add: zip_is_def)
  note d = refs_okD [OF ok]
  have h: "heap s p = Some (nodev v (ctx_ref k) cp (ref_of t) s0 p)" "heap s s0 = Some (nodev v p cs x (ref_of sr) s0)"
    "heap s x = Some (nodev v s0 Red (ref_of a) (ref_of b) x)" "rep v (heap s) p t" "rep v (heap s) x a" "rep v (heap s) x b"
    "rep v (heap s) s0 sr" "rep_ctx v (heap s) (root s) p k" using z by (auto simp: zip_is_def)
  have ne: "p \<noteq> 0" "s0 \<noteq> 0" "x \<noteq> 0" "p \<noteq> s0" "p \<noteq> x" "s0 \<noteq> x" "s0 \<noteq> p" "x \<noteq> p" "x \<noteq> s0" "aligned p" "aligned s0" "aligned x"
    using d by auto
  let ?s = "s\<lparr>heap := (heap s)(s0 \<mapsto> nodev v p cs (ref_of b) (ref_of sr) s0, x \<mapsto> nodev v s0 Red (ref_of a) s0 x,
    p \<mapsto> nodev v (ctx_ref k) cp (ref_of t) x p)\<rparr>"
  have "rep v (heap ?s) x b" "refs_ok (inorder b)" using h(6) d by (auto simp: refs_ok_def)
  then obtain s1 where s1: "set_pc_if ?s (ref_of b) s0 RB_BLACK = Some s1" "root s1 = root ?s" "rep v (heap s1) s0 (blacken b)"
    "\<And>y. y \<notin> set (inorder b) \<Longrightarrow> heap s1 y = heap ?s y" by (rule set_pc_if_rep) blast
  have n1: "heap s1 p = Some (nodev v (ctx_ref k) cp (ref_of t) x p)" "heap s1 x = Some (nodev v s0 Red (ref_of a) s0 x)"
    "heap s1 s0 = Some (nodev v p cs (ref_of b) (ref_of sr) s0)" using s1(4) d ne by auto
  have f1: "heap s1 y = heap s y" if "y \<notin> set (inorder b)" "y \<noteq> p" "y \<noteq> x" "y \<noteq> s0" for y using s1(4) [OF that(1)] that by simp
  let ?t = "s1\<lparr>heap := (heap s1)(p \<mapsto> nodev v (ctx_ref k) cp (ref_of t) (ref_of a) p, x \<mapsto> nodev v s0 Red p s0 x,
    s0 \<mapsto> nodev v x Black (ref_of b) (ref_of sr) s0)\<rparr>"
  have "rep v (heap s1) x a" by (rule rep_cong [OF h(5)], rule f1) (use d in auto)
  then have "rep v (heap ?t) x a" "refs_ok (inorder a)" "aligned x" using d ne by (auto simp: refs_ok_def)
  then obtain s2 where s2: "set_parent_if ?t (ref_of a) p = Some s2" "root s2 = root ?t" "rep v (heap s2) p a"
    "\<And>y. y \<notin> set (inorder a) \<Longrightarrow> heap s2 y = heap ?t y" by (rule set_parent_rep) blast
  have f2: "heap s2 y = heap s1 y" if "y \<notin> set (inorder a)" "y \<noteq> p" "y \<noteq> x" "y \<noteq> s0" for y using s2(4) [OF that(1)] that by simp
  have f: "heap s2 y = heap s y" if "y \<notin> set (inorder a)" "y \<notin> set (inorder b)" "y \<noteq> p" "y \<noteq> x" "y \<noteq> s0" for y
    using f1 [of y] f2 [of y] that by simp
  have "rep_ctx v (heap s2) (root s2) p k" "rep v (heap s2) p t" "rep v (heap s2) s0 sr"
    using s1(2) s2(2) by (auto intro!: rep_ctx_cong [OF h(8)] rep_cong [OF h(4)] rep_cong [OF h(7)] f) (use d in auto)
  moreover have "rep v (heap s2) s0 (blacken b)" by (rule rep_cong [OF s1(3)], rule f2) (use d in auto)
  moreover have "heap s2 p = Some (nodev v (ctx_ref k) cp (ref_of t) (ref_of a) p)" "heap s2 x = Some (nodev v s0 Red p s0 x)"
    "heap s2 s0 = Some (nodev v x Black (ref_of b) (ref_of sr) s0)" using s2(4) d ne by auto
  ultimately obtain s3 where s3: "rb_rotate_set_parents s2 p x (bits Black) = Some s3"
    "zip_is v s3 k (Nd cp (Nd Black t p a) x (Nd Black (blacken b) s0 sr))" "same_out (before k @ ?xs @ after k) s2 s3"
    using ok s2(3) by (rule_tac rotate_left [of v s2 p k x "Nd Black (blacken b) s0 sr" a t cp s0 Red Black]) auto
  have b: "null_or_black s (ref_of sr) = Some True" "null_or_black s x = Some False"
    using null_or_black_rep [OF h(7)] d c h(3) ne by (auto simp: refs_ok_def rb_defs)
  have "erase_left_black s p s0 = Some (s3, None)"
    using ne h(1-3) s1(1) s2(1) s3(1) b n1 unfolding erase_left_black_def
    by (simp add: set_left_def set_right_def rb_put_def Let_def rb_set_parent_color_def set_pc_def or_pack)
  moreover have "same_out (before k @ ?xs @ after k) s s2" using f by (auto simp: same_out_def)
  ultimately show ?thesis using that s3(2,3) same_out_trans by blast
qed

text \<open>With a black sibling.\<close>

lemma erase_left_black_ok:
  assumes z: "zip_is v s k (Nd cp t p sib)" and n: "sib \<noteq> Lf"
  obtains s' where "erase_left_black s p (ref_of sib) = Some (s', next_up k p (snd (bal_left cp t p sib)))"
    "zip_is v s' k (fst (bal_left cp t p sib))" "same_out (before k @ (inorder t @ p # inorder sib) @ after k) s s'"
proof -
  obtain cs sl s0 sr where sib: "sib = Nd cs sl s0 sr" using n by (cases sib) auto
  note z' = z [unfolded sib]
  consider "col sr = Red" | "col sr = Black" "col sl = Red" | "col sr = Black" "col sl = Black" by fastforce
  then show ?thesis
  proof cases
    case 1
    then show ?thesis using erase_left_outer [OF z' 1] that by (auto simp: sib next_up_def)
  next
    case 2
    then obtain a x b where sl: "sl = Nd Red a x b" by (cases sl) auto
    show ?thesis using erase_left_inner [OF z' [unfolded sl] 2(1)] that 2 by (auto simp: sib sl next_up_def)
  next
    case 3
    have h: "rep v (heap s) s0 sl" "rep v (heap s) s0 sr" "heap s s0 = Some (nodev v p cs (ref_of sl) (ref_of sr) s0)" using z' by (auto simp: zip_is_def)
    have "refs_ok (before k @ (inorder t @ p # inorder sl @ s0 # inorder sr) @ after k)" using z' by (simp add: zip_is_def)
    note d = refs_okD [OF this]
    have b: "null_or_black s (ref_of sl) = Some True" "null_or_black s (ref_of sr) = Some True"
      using null_or_black_rep [OF h(1)] null_or_black_rep [OF h(2)] d 3 by (auto simp: refs_ok_def)
    have "erase_left_black s p s0 = erase_flip s p s0" using h(3) d b by (simp add: erase_left_black_def)
    moreover have "bal_left cp t p sib = (Nd Black t p (Nd Red sl s0 sr), cp = Black)"
      using 3 by (cases sl) (auto simp: sib)
    ultimately show ?thesis using erase_flip_left [OF z'] that by (auto simp: sib)
  qed
qed


text \<open>The mirror images.\<close>

lemma erase_flip_right:
  assumes z: "zip_is v s k (Nd cp (Nd cs sl s0 sr) p t)"
  obtains s' where "erase_flip s p s0 = Some (s', next_up k p (cp = Black))" "zip_is v s' k (Nd Black (Nd Red sl s0 sr) p t)"
    "same_out (before k @ (inorder sl @ s0 # inorder sr @ p # inorder t) @ after k) s s'"
proof -
  let ?xs = "inorder sl @ s0 # inorder sr @ p # inorder t"
  have ok: "refs_ok (before k @ ?xs @ after k)" using z by (simp add: zip_is_def)
  note d = refs_okD [OF ok]
  have h: "heap s p = Some (nodev v (ctx_ref k) cp s0 (ref_of t) p)" "heap s s0 = Some (nodev v p cs (ref_of sl) (ref_of sr) s0)"
    using z by (auto simp: zip_is_def)
  have ne: "p \<noteq> 0" "s0 \<noteq> 0" "p \<noteq> s0" "aligned p" "p \<notin> ctx_refs k" "s0 \<notin> ctx_refs k" using d by auto
  let ?s = "s\<lparr>heap := (heap s)(s0 \<mapsto> nodev v p Red (ref_of sl) (ref_of sr) s0, p \<mapsto> nodev v (ctx_ref k) Black s0 (ref_of t) p)\<rparr>"
  have p: "(heap s)(s0 \<mapsto> x) = (heap s)(s0 \<mapsto> x, p \<mapsto> nodev v (ctx_ref k) Black s0 (ref_of t) p)" if "cp = Black" for x
    using h(1) ne that by auto
  have "erase_flip s p s0 = Some (?s, next_up k p (cp = Black))"
    using ne h d(4) p by (cases cp) (auto simp: erase_flip_def rb_defs next_up_def Let_def)
  moreover have "zip_is v ?s k (Nd Black (Nd Red sl s0 sr) p t)" using z ne d by (auto simp: zip_is_def)
  moreover have "same_out (before k @ ?xs @ after k) s ?s" by (auto simp: same_out_def)
  ultimately show ?thesis using that by blast
qed

lemma erase_right_outer:
  assumes z: "zip_is v s k (Nd cp (Nd cs sl s0 sr) p t)" and c: "col sl = Red"
  obtains s' where "erase_right_black s p s0 = Some (s', None)" "zip_is v s' k (Nd cp (blacken sl) s0 (Nd Black sr p t))"
    "same_out (before k @ (inorder sl @ s0 # inorder sr @ p # inorder t) @ after k) s s'"
proof -
  obtain rl r0 rr where sl: "sl = Nd Red rl r0 rr" using c by (cases sl) auto
  let ?xs = "inorder sl @ s0 # inorder sr @ p # inorder t"
  have ok: "refs_ok (before k @ ?xs @ after k)" using z by (simp add: zip_is_def)
  note d = refs_okD [OF ok]
  have h: "heap s p = Some (nodev v (ctx_ref k) cp s0 (ref_of t) p)" "heap s s0 = Some (nodev v p cs r0 (ref_of sr) s0)"
    "heap s r0 = Some (nodev v s0 Red (ref_of rl) (ref_of rr) r0)" "rep v (heap s) p t" "rep v (heap s) s0 sr" "rep v (heap s) s0 sl"
    "rep_ctx v (heap s) (root s) p k" using z sl by (auto simp: zip_is_def)
  have ne: "p \<noteq> 0" "s0 \<noteq> 0" "r0 \<noteq> 0" "p \<noteq> s0" "p \<noteq> r0" "s0 \<noteq> r0" "s0 \<noteq> p" "r0 \<noteq> p" "r0 \<noteq> s0" "aligned p" "aligned s0"
    using d sl by auto
  let ?s = "s\<lparr>heap := (heap s)(p \<mapsto> nodev v (ctx_ref k) cp (ref_of sr) (ref_of t) p, s0 \<mapsto> nodev v p cs r0 p s0,
    r0 \<mapsto> nodev v s0 Black (ref_of rl) (ref_of rr) r0)\<rparr>"
  have "rep v (heap ?s) s0 sr" "refs_ok (inorder sr)" "aligned s0" using h(5) d sl ne by (auto simp: refs_ok_def)
  then obtain s1 where s1: "set_parent_if ?s (ref_of sr) p = Some s1" "root s1 = root ?s"
    "rep v (heap s1) p sr" "\<And>b. b \<notin> set (inorder sr) \<Longrightarrow> heap s1 b = heap ?s b" by (rule set_parent_rep) blast
  have f: "heap s1 b = heap s b" if "b \<notin> set (inorder sr)" "b \<noteq> p" "b \<noteq> s0" "b \<noteq> r0" for b using s1(4) [OF that(1)] that by simp
  have "rep_ctx v (heap s1) (root s1) p k" "rep v (heap s1) p t"
    using s1(2) by (auto intro!: rep_ctx_cong [OF h(7)] rep_cong [OF h(4)] f) (use d sl in auto)
  moreover have n1: "heap s1 p = Some (nodev v (ctx_ref k) cp (ref_of sr) (ref_of t) p)" "heap s1 s0 = Some (nodev v p cs r0 p s0)"
    "heap s1 r0 = Some (nodev v s0 Black (ref_of rl) (ref_of rr) r0)" using s1(4) d sl ne by auto
  moreover have "rep v (heap s1) r0 rl" "rep v (heap s1) r0 rr"
    by (rule rep_cong [of v "heap s"], use h(6) sl in simp, rule f; use d sl in auto)+
  then have "rep v (heap s1) s0 (blacken sl)" using n1 sl by simp
  ultimately obtain s2 where s2: "rb_rotate_set_parents s1 p s0 (bits Black) = Some s2"
    "zip_is v s2 k (Nd cp (blacken sl) s0 (Nd Black sr p t))" "same_out (before k @ ?xs @ after k) s1 s2"
    using ok s1(3) sl by (rule_tac rotate_right [of v s1 p k s0 "blacken sl" sr t cp p cs Black]) auto
  have b: "null_or_black s r0 = Some False" using h(3) ne by (simp add: rb_defs)
  have "erase_right_black s p s0 = Some (s2, None)"
    using ne h s1(1) s2(1) b unfolding erase_right_black_def
    by (simp add: set_left_def set_right_def rb_put_def Let_def rb_set_parent_color_def set_pc_def or_pack)
  moreover have "same_out (before k @ ?xs @ after k) s s1" using f sl by (auto simp: same_out_def)
  ultimately show ?thesis using that s2(2,3) same_out_trans by blast
qed

lemma erase_right_inner:
  assumes z: "zip_is v s k (Nd cp (Nd cs sl s0 (Nd Red a x b)) p t)" and c: "col sl = Black"
  obtains s' where "erase_right_black s p s0 = Some (s', None)" "zip_is v s' k (Nd cp (Nd Black sl s0 (blacken a)) x (Nd Black b p t))"
    "same_out (before k @ (inorder sl @ s0 # inorder a @ x # inorder b @ p # inorder t) @ after k) s s'"
proof -
  let ?xs = "inorder sl @ s0 # inorder a @ x # inorder b @ p # inorder t"
  have ok: "refs_ok (before k @ ?xs @ after k)" using z by (simp add: zip_is_def)
  note d = refs_okD [OF ok]
  have h: "heap s p = Some (nodev v (ctx_ref k) cp s0 (ref_of t) p)" "heap s s0 = Some (nodev v p cs (ref_of sl) x s0)"
    "heap s x = Some (nodev v s0 Red (ref_of a) (ref_of b) x)" "rep v (heap s) p t" "rep v (heap s) x b" "rep v (heap s) x a"
    "rep v (heap s) s0 sl" "rep_ctx v (heap s) (root s) p k" using z by (auto simp: zip_is_def)
  have ne: "p \<noteq> 0" "s0 \<noteq> 0" "x \<noteq> 0" "p \<noteq> s0" "p \<noteq> x" "s0 \<noteq> x" "s0 \<noteq> p" "x \<noteq> p" "x \<noteq> s0" "aligned p" "aligned s0" "aligned x"
    using d by auto
  let ?s = "s\<lparr>heap := (heap s)(s0 \<mapsto> nodev v p cs (ref_of sl) (ref_of a) s0, x \<mapsto> nodev v s0 Red s0 (ref_of b) x,
    p \<mapsto> nodev v (ctx_ref k) cp x (ref_of t) p)\<rparr>"
  have "rep v (heap ?s) x a" "refs_ok (inorder a)" using h(6) d by (auto simp: refs_ok_def)
  then obtain s1 where s1: "set_pc_if ?s (ref_of a) s0 RB_BLACK = Some s1" "root s1 = root ?s" "rep v (heap s1) s0 (blacken a)"
    "\<And>y. y \<notin> set (inorder a) \<Longrightarrow> heap s1 y = heap ?s y" by (rule set_pc_if_rep) blast
  have n1: "heap s1 p = Some (nodev v (ctx_ref k) cp x (ref_of t) p)" "heap s1 x = Some (nodev v s0 Red s0 (ref_of b) x)"
    "heap s1 s0 = Some (nodev v p cs (ref_of sl) (ref_of a) s0)" using s1(4) d ne by auto
  have f1: "heap s1 y = heap s y" if "y \<notin> set (inorder a)" "y \<noteq> p" "y \<noteq> x" "y \<noteq> s0" for y using s1(4) [OF that(1)] that by simp
  let ?t = "s1\<lparr>heap := (heap s1)(p \<mapsto> nodev v (ctx_ref k) cp (ref_of b) (ref_of t) p, x \<mapsto> nodev v s0 Red s0 p x,
    s0 \<mapsto> nodev v x Black (ref_of sl) (ref_of a) s0)\<rparr>"
  have "rep v (heap s1) x b" by (rule rep_cong [OF h(5)], rule f1) (use d in auto)
  then have "rep v (heap ?t) x b" "refs_ok (inorder b)" "aligned x" using d ne by (auto simp: refs_ok_def)
  then obtain s2 where s2: "set_parent_if ?t (ref_of b) p = Some s2" "root s2 = root ?t" "rep v (heap s2) p b"
    "\<And>y. y \<notin> set (inorder b) \<Longrightarrow> heap s2 y = heap ?t y" by (rule set_parent_rep) blast
  have f2: "heap s2 y = heap s1 y" if "y \<notin> set (inorder b)" "y \<noteq> p" "y \<noteq> x" "y \<noteq> s0" for y using s2(4) [OF that(1)] that by simp
  have f: "heap s2 y = heap s y" if "y \<notin> set (inorder a)" "y \<notin> set (inorder b)" "y \<noteq> p" "y \<noteq> x" "y \<noteq> s0" for y
    using f1 [of y] f2 [of y] that by simp
  have "rep_ctx v (heap s2) (root s2) p k" "rep v (heap s2) p t" "rep v (heap s2) s0 sl"
    using s1(2) s2(2) by (auto intro!: rep_ctx_cong [OF h(8)] rep_cong [OF h(4)] rep_cong [OF h(7)] f) (use d in auto)
  moreover have "rep v (heap s2) s0 (blacken a)" by (rule rep_cong [OF s1(3)], rule f2) (use d in auto)
  moreover have "heap s2 p = Some (nodev v (ctx_ref k) cp (ref_of b) (ref_of t) p)" "heap s2 x = Some (nodev v s0 Red s0 p x)"
    "heap s2 s0 = Some (nodev v x Black (ref_of sl) (ref_of a) s0)" using s2(4) d ne by auto
  ultimately obtain s3 where s3: "rb_rotate_set_parents s2 p x (bits Black) = Some s3"
    "zip_is v s3 k (Nd cp (Nd Black sl s0 (blacken a)) x (Nd Black b p t))" "same_out (before k @ ?xs @ after k) s2 s3"
    using ok s2(3) by (rule_tac rotate_right [of v s2 p k x "Nd Black sl s0 (blacken a)" b t cp s0 Red Black]) auto
  have b: "null_or_black s (ref_of sl) = Some True" "null_or_black s x = Some False"
    using null_or_black_rep [OF h(7)] d c h(3) ne by (auto simp: refs_ok_def rb_defs)
  have "erase_right_black s p s0 = Some (s3, None)"
    using ne h(1-3) s1(1) s2(1) s3(1) b n1 unfolding erase_right_black_def
    by (simp add: set_left_def set_right_def rb_put_def Let_def rb_set_parent_color_def set_pc_def or_pack)
  moreover have "same_out (before k @ ?xs @ after k) s s2" using f by (auto simp: same_out_def)
  ultimately show ?thesis using that s3(2,3) same_out_trans by blast
qed

lemma erase_right_black_ok:
  assumes z: "zip_is v s k (Nd cp sib p t)" and n: "sib \<noteq> Lf"
  obtains s' where "erase_right_black s p (ref_of sib) = Some (s', next_up k p (snd (bal_right cp sib p t)))"
    "zip_is v s' k (fst (bal_right cp sib p t))" "same_out (before k @ (inorder sib @ p # inorder t) @ after k) s s'"
proof -
  obtain cs sl s0 sr where sib: "sib = Nd cs sl s0 sr" using n by (cases sib) auto
  note z' = z [unfolded sib]
  consider "col sl = Red" | "col sl = Black" "col sr = Red" | "col sl = Black" "col sr = Black" by fastforce
  then show ?thesis
  proof cases
    case 1
    then show ?thesis using erase_right_outer [OF z' 1] that by (auto simp: sib next_up_def)
  next
    case 2
    then obtain a x b where sr: "sr = Nd Red a x b" by (cases sr) auto
    show ?thesis using erase_right_inner [OF z' [unfolded sr] 2(1)] that 2 by (auto simp: sib sr next_up_def)
  next
    case 3
    have h: "rep v (heap s) s0 sl" "rep v (heap s) s0 sr" "heap s s0 = Some (nodev v p cs (ref_of sl) (ref_of sr) s0)" using z' by (auto simp: zip_is_def)
    have "refs_ok (before k @ (inorder sl @ s0 # inorder sr @ p # inorder t) @ after k)" using z' by (simp add: zip_is_def)
    note d = refs_okD [OF this]
    have b: "null_or_black s (ref_of sl) = Some True" "null_or_black s (ref_of sr) = Some True"
      using null_or_black_rep [OF h(1)] null_or_black_rep [OF h(2)] d 3 by (auto simp: refs_ok_def)
    have "erase_right_black s p s0 = erase_flip s p s0" using h(3) d b by (simp add: erase_right_black_def)
    moreover have "bal_right cp sib p t = (Nd Black (Nd Red sl s0 sr) p t, cp = Black)"
      using 3 by (cases sr) (auto simp: sib)
    ultimately show ?thesis using erase_flip_right [OF z'] that by (auto simp: sib)
  qed
qed


text \<open>A red sibling is rotated away first.\<close>

lemma erase_left_red:
  assumes z: "zip_is v s k (Nd cp t p (Nd Red sl s0 sr))" and n: "sl \<noteq> Lf"
  obtains s' where "erase_left s p s0 = erase_left_black s' p (ref_of sl)" "zip_is v s' (CL cp k s0 sr) (Nd Red t p (blacken sl))"
    "same_out (before k @ (inorder t @ p # inorder sl @ s0 # inorder sr) @ after k) s s'"
proof -
  let ?xs = "inorder t @ p # inorder sl @ s0 # inorder sr"
  have ok: "refs_ok (before k @ ?xs @ after k)" using z by (simp add: zip_is_def)
  note d = refs_okD [OF ok]
  have h: "heap s p = Some (nodev v (ctx_ref k) cp (ref_of t) s0 p)" "heap s s0 = Some (nodev v p Red (ref_of sl) (ref_of sr) s0)"
    "rep v (heap s) p t" "rep v (heap s) s0 sl" "rep v (heap s) s0 sr" "rep_ctx v (heap s) (root s) p k" using z by (auto simp: zip_is_def)
  have ne: "p \<noteq> 0" "s0 \<noteq> 0" "p \<noteq> s0" "s0 \<noteq> p" "aligned p" "aligned s0" "ref_of sl \<noteq> 0" using d n ref_of_in [OF n] by auto
  let ?s = "s\<lparr>heap := (heap s)(p \<mapsto> nodev v (ctx_ref k) cp (ref_of t) (ref_of sl) p, s0 \<mapsto> nodev v p Red p (ref_of sr) s0)\<rparr>"
  have "rep v (heap ?s) s0 sl" "refs_ok (inorder sl)" using h(4) d by (auto simp: refs_ok_def)
  then obtain s1 where s1: "set_pc_if ?s (ref_of sl) p RB_BLACK = Some s1" "root s1 = root ?s" "rep v (heap s1) p (blacken sl)"
    "\<And>y. y \<notin> set (inorder sl) \<Longrightarrow> heap s1 y = heap ?s y" by (rule set_pc_if_rep) blast
  have f: "heap s1 b = heap s b" if "b \<notin> set (inorder sl)" "b \<noteq> p" "b \<noteq> s0" for b using s1(4) [OF that(1)] that by simp
  have "rep_ctx v (heap s1) (root s1) p k" "rep v (heap s1) p t" "rep v (heap s1) s0 sr"
    using s1(2) by (auto intro!: rep_ctx_cong [OF h(6)] rep_cong [OF h(3)] rep_cong [OF h(5)] f) (use d in auto)
  moreover have "heap s1 p = Some (nodev v (ctx_ref k) cp (ref_of t) (ref_of sl) p)" "heap s1 s0 = Some (nodev v p Red p (ref_of sr) s0)"
    using s1(4) d ne by auto
  ultimately obtain s2 where s2: "rb_rotate_set_parents s1 p s0 (bits Red) = Some s2"
    "zip_is v s2 k (Nd cp (Nd Red t p (blacken sl)) s0 sr)" "same_out (before k @ ?xs @ after k) s1 s2"
    using ok s1(3) by (rule_tac rotate_left [of v s1 p k s0 sr "blacken sl" t cp p Red Red]) auto
  have "erase_left s p s0 = erase_left_black s2 p (ref_of sl)"
    using ne h(1,2) s1(1) s2(1) unfolding erase_left_def
    by (simp add: set_left_def set_right_def rb_put_def Let_def rb_is_red_def set_pc_if_def)
  moreover have "zip_is v s2 (CL cp k s0 sr) (Nd Red t p (blacken sl))" using s2(2) by (simp add: zip_is_plug)
  moreover have "same_out (before k @ ?xs @ after k) s s1" using f by (auto simp: same_out_def)
  ultimately show ?thesis using that s2(3) same_out_trans by blast
qed

lemma erase_right_red:
  assumes z: "zip_is v s k (Nd cp (Nd Red sl s0 sr) p t)" and n: "sr \<noteq> Lf"
  obtains s' where "erase_right s p s0 = erase_right_black s' p (ref_of sr)" "zip_is v s' (CR cp sl s0 k) (Nd Red (blacken sr) p t)"
    "same_out (before k @ (inorder sl @ s0 # inorder sr @ p # inorder t) @ after k) s s'"
proof -
  let ?xs = "inorder sl @ s0 # inorder sr @ p # inorder t"
  have ok: "refs_ok (before k @ ?xs @ after k)" using z by (simp add: zip_is_def)
  note d = refs_okD [OF ok]
  have h: "heap s p = Some (nodev v (ctx_ref k) cp s0 (ref_of t) p)" "heap s s0 = Some (nodev v p Red (ref_of sl) (ref_of sr) s0)"
    "rep v (heap s) p t" "rep v (heap s) s0 sr" "rep v (heap s) s0 sl" "rep_ctx v (heap s) (root s) p k" using z by (auto simp: zip_is_def)
  have ne: "p \<noteq> 0" "s0 \<noteq> 0" "p \<noteq> s0" "s0 \<noteq> p" "aligned p" "aligned s0" "ref_of sr \<noteq> 0" using d n ref_of_in [OF n] by auto
  let ?s = "s\<lparr>heap := (heap s)(p \<mapsto> nodev v (ctx_ref k) cp (ref_of sr) (ref_of t) p, s0 \<mapsto> nodev v p Red (ref_of sl) p s0)\<rparr>"
  have "rep v (heap ?s) s0 sr" "refs_ok (inorder sr)" using h(4) d by (auto simp: refs_ok_def)
  then obtain s1 where s1: "set_pc_if ?s (ref_of sr) p RB_BLACK = Some s1" "root s1 = root ?s" "rep v (heap s1) p (blacken sr)"
    "\<And>y. y \<notin> set (inorder sr) \<Longrightarrow> heap s1 y = heap ?s y" by (rule set_pc_if_rep) blast
  have f: "heap s1 b = heap s b" if "b \<notin> set (inorder sr)" "b \<noteq> p" "b \<noteq> s0" for b using s1(4) [OF that(1)] that by simp
  have "rep_ctx v (heap s1) (root s1) p k" "rep v (heap s1) p t" "rep v (heap s1) s0 sl"
    using s1(2) by (auto intro!: rep_ctx_cong [OF h(6)] rep_cong [OF h(3)] rep_cong [OF h(5)] f) (use d in auto)
  moreover have "heap s1 p = Some (nodev v (ctx_ref k) cp (ref_of sr) (ref_of t) p)" "heap s1 s0 = Some (nodev v p Red (ref_of sl) p s0)"
    using s1(4) d ne by auto
  ultimately obtain s2 where s2: "rb_rotate_set_parents s1 p s0 (bits Red) = Some s2"
    "zip_is v s2 k (Nd cp sl s0 (Nd Red (blacken sr) p t))" "same_out (before k @ ?xs @ after k) s1 s2"
    using ok s1(3) by (rule_tac rotate_right [of v s1 p k s0 sl "blacken sr" t cp p Red Red]) auto
  have "erase_right s p s0 = erase_right_black s2 p (ref_of sr)"
    using ne h(1,2) s1(1) s2(1) unfolding erase_right_def
    by (simp add: set_left_def set_right_def rb_put_def Let_def rb_is_red_def set_pc_if_def)
  moreover have "zip_is v s2 (CR cp sl s0 k) (Nd Red (blacken sr) p t)" using s2(2) by (simp add: zip_is_plug)
  moreover have "same_out (before k @ ?xs @ after k) s s1" using f by (auto simp: same_out_def)
  ultimately show ?thesis using that s2(3) same_out_trans by blast
qed

lemma ctx_ref_0: "zip_is v s k t \<Longrightarrow> ctx_ref k = 0 \<longleftrightarrow> k = Top"
  by (cases k) (auto simp: zip_is_def refs_ok_def)

lemma erase_loop_left:
  assumes IH: "\<And>u s. zip_is v s k u \<Longrightarrow> k \<noteq> Top \<Longrightarrow> invc u \<Longrightarrow> invh u \<Longrightarrow> col u = Black \<Longrightarrow> ctxc k Black \<Longrightarrow>
      ctxh k (bheight u + 1) \<Longrightarrow> fixed v s k u (erase_color_loop s (ref_of u) (ctx_ref k)) (del_fix k u)"
    and z: "zip_is v s (CL cp k p sib) t" and t: "invc t" "invh t" "col t = Black"
    and c: "ctxc (CL cp k p sib) Black" "ctxh (CL cp k p sib) (bheight t + 1)"
  shows "fixed v s (CL cp k p sib) t (erase_color_loop s (ref_of t) p) (del_fix (CL cp k p sib) t)"
proof -
  have z1: "zip_is v s k (Nd cp t p sib)" using z by (simp add: zip_is_plug)
  have sib: "sib \<noteq> Lf" "invc sib" "invh sib" "bheight sib = bheight t + 1" using c by auto
  have ok: "refs_ok (before k @ (inorder t @ p # inorder sib) @ after k)" using z1 by (simp add: zip_is_def)
  note d = refs_okD [OF ok]
  have h: "heap s p = Some (nodev v (ctx_ref k) cp (ref_of t) (ref_of sib) p)" "heap s (ref_of sib) \<noteq> None" using z sib(1) by (cases sib; auto simp: zip_is_def)+
  have ne: "p \<noteq> 0" "ref_of t \<noteq> ref_of sib" "aligned p" using d ref_of_in [OF sib(1)] ref_of_in [of t] by (cases t; auto)+
  have loop: "erase_color_loop s (ref_of t) p = do {
      (s, next) \<leftarrow> erase_left s p (ref_of sib);
      case next of None \<Rightarrow> Some s | Some (node, parent) \<Rightarrow> erase_color_loop s node parent }"
    using h(1) ne by (subst erase_color_loop.simps) simp
  show ?thesis
  proof (cases "col sib = Red")
    case True
    then obtain sl s0 sr where s0: "sib = Nd Red sl s0 sr" using sib(1) by (cases sib) auto
    have sl: "sl \<noteq> Lf" using red_sibling(1) sib(2-4) unfolding s0 by blast
    obtain s1 where s1: "erase_left s p s0 = erase_left_black s1 p (ref_of sl)" "zip_is v s1 (CL cp k s0 sr) (Nd Red t p (blacken sl))"
      "same_out (before k @ (inorder t @ p # inorder sl @ s0 # inorder sr) @ after k) s s1"
      using erase_left_red [OF z1 [unfolded s0] sl] by blast
    have "blacken sl \<noteq> Lf" using sl by simp
    then obtain s2 where
      s2: "erase_left_black s1 p (ref_of (blacken sl)) = Some (s2, next_up (CL cp k s0 sr) p (snd (bal_left Red t p (blacken sl))))"
      "zip_is v s2 (CL cp k s0 sr) (fst (bal_left Red t p (blacken sl)))"
      "same_out (before (CL cp k s0 sr) @ (inorder t @ p # inorder (blacken sl)) @ after (CL cp k s0 sr)) s1 s2"
      by (rule erase_left_black_ok [OF s1(2)])
    have "\<not> snd (bal_left Red t p (blacken sl))" using sl by (cases sl) (auto split: rbt.splits colour.splits)
    then have "erase_color_loop s (ref_of t) p = Some s2" using s1(1) s2(1) by (simp add: loop s0 next_up_def)
    moreover have "same_out (before (CL cp k p sib) @ inorder t @ after (CL cp k p sib)) s s2"
      using same_out_trans s1(3) s2(3) by (simp add: s0)
    moreover have "del_fix (CL cp k p sib) t = plug (CL cp k s0 sr) (fst (bal_left Red t p (blacken sl)))" by (simp add: s0)
    ultimately show ?thesis using s2(2) by (simp only: fixed_done)
  next
    case False
    then have b: "col sib = Black" by simp
    obtain u short where u: "bal_left cp t p sib = (u, short)" by fastforce
    have e: "del_fix (CL cp k p sib) t = (if short then del_fix k u else plug k u)"
      using b u by (cases sib) (simp_all del: bal_left.simps bal_right.simps)
    have "rb_is_red s (ref_of sib) = Some False"
      using z b sib(1) ne(3) d(2) by (cases sib) (auto simp: zip_is_def rb_is_red_def)
    then have el: "erase_left s p (ref_of sib) = erase_left_black s p (ref_of sib)" by (simp add: erase_left_def)
    from erase_left_black_ok [OF z1 sib(1)] obtain s1 where
      s1: "erase_left_black s p (ref_of sib) = Some (s1, next_up k p short)" "zip_is v s1 k u"
      "same_out (before k @ (inorder t @ p # inorder sib) @ after k) s s1" by (auto simp: u)
    have uo: "invc u" "invh u" "u \<noteq> Lf" "inorder u = inorder t @ p # inorder sib" "short \<longrightarrow> col u = Black \<and> bheight u = bheight t + 1 \<and> cp = Black \<and> ref_of u = p"
      using bal_left_ok [OF u t(1,2) sib(2,3) b sib(4)] t(3) u b sib(1)
      by (cases sib; auto split: if_splits rbt.splits colour.splits)+
    show ?thesis
    proof (cases "short \<and> k \<noteq> Top")
      case True
      then have "fixed v s1 k u (erase_color_loop s1 p (ctx_ref k)) (del_fix k u)"
        using IH [OF s1(2)] uo c by auto
      then show ?thesis using True s1 uo(4) ctx_ref_0 [OF s1(2)] by (auto simp: loop el next_up_def e intro: fixed_up simp del: del_fix.simps)
    next
      case False
      then have "del_fix (CL cp k p sib) t = plug k u" using e by auto
      moreover have "erase_color_loop s (ref_of t) p = Some s1" using False s1(1) ctx_ref_0 [OF s1(2)] by (auto simp: loop el next_up_def)
      ultimately show ?thesis using fixed_done [OF s1(2)] s1(3) by (simp del: del_fix.simps)
    qed
  qed
qed

lemma erase_loop_right:
  assumes IH: "\<And>u s. zip_is v s k u \<Longrightarrow> k \<noteq> Top \<Longrightarrow> invc u \<Longrightarrow> invh u \<Longrightarrow> col u = Black \<Longrightarrow> ctxc k Black \<Longrightarrow>
      ctxh k (bheight u + 1) \<Longrightarrow> fixed v s k u (erase_color_loop s (ref_of u) (ctx_ref k)) (del_fix k u)"
    and z: "zip_is v s (CR cp sib p k) t" and t: "invc t" "invh t" "col t = Black"
    and c: "ctxc (CR cp sib p k) Black" "ctxh (CR cp sib p k) (bheight t + 1)"
  shows "fixed v s (CR cp sib p k) t (erase_color_loop s (ref_of t) p) (del_fix (CR cp sib p k) t)"
proof -
  have z1: "zip_is v s k (Nd cp sib p t)" using z by (simp add: zip_is_plug)
  have sib: "sib \<noteq> Lf" "invc sib" "invh sib" "bheight sib = bheight t + 1" using c by auto
  have ok: "refs_ok (before k @ (inorder sib @ p # inorder t) @ after k)" using z1 by (simp add: zip_is_def)
  note d = refs_okD [OF ok]
  have h: "heap s p = Some (nodev v (ctx_ref k) cp (ref_of sib) (ref_of t) p)" "heap s (ref_of sib) \<noteq> None" using z sib(1) by (cases sib; auto simp: zip_is_def)+
  have ne: "p \<noteq> 0" "aligned p" using d by auto
  have loop: "erase_color_loop s (ref_of t) p = do {
      (s, next) \<leftarrow> erase_right s p (ref_of sib);
      case next of None \<Rightarrow> Some s | Some (node, parent) \<Rightarrow> erase_color_loop s node parent }"
    using h(1) ne by (subst erase_color_loop.simps) simp
  show ?thesis
  proof (cases "col sib = Red")
    case True
    then obtain sl s0 sr where s0: "sib = Nd Red sl s0 sr" using sib(1) by (cases sib) auto
    have sr: "sr \<noteq> Lf" using red_sibling(2) sib(2-4) unfolding s0 by blast
    obtain s1 where s1: "erase_right s p s0 = erase_right_black s1 p (ref_of sr)" "zip_is v s1 (CR cp sl s0 k) (Nd Red (blacken sr) p t)"
      "same_out (before k @ (inorder sl @ s0 # inorder sr @ p # inorder t) @ after k) s s1"
      using erase_right_red [OF z1 [unfolded s0] sr] by blast
    have "blacken sr \<noteq> Lf" using sr by simp
    then obtain s2 where
      s2: "erase_right_black s1 p (ref_of (blacken sr)) = Some (s2, next_up (CR cp sl s0 k) p (snd (bal_right Red (blacken sr) p t)))"
      "zip_is v s2 (CR cp sl s0 k) (fst (bal_right Red (blacken sr) p t))"
      "same_out (before (CR cp sl s0 k) @ (inorder (blacken sr) @ p # inorder t) @ after (CR cp sl s0 k)) s1 s2"
      by (rule erase_right_black_ok [OF s1(2)])
    have "\<not> snd (bal_right Red (blacken sr) p t)" using sr by (cases sr) (auto split: rbt.splits colour.splits)
    then have "erase_color_loop s (ref_of t) p = Some s2" using s1(1) s2(1) by (simp add: loop s0 next_up_def)
    moreover have "same_out (before (CR cp sib p k) @ inorder t @ after (CR cp sib p k)) s s2"
      using same_out_trans s1(3) s2(3) by (simp add: s0)
    moreover have "del_fix (CR cp sib p k) t = plug (CR cp sl s0 k) (fst (bal_right Red (blacken sr) p t))" by (simp add: s0)
    ultimately show ?thesis using s2(2) by (simp only: fixed_done)
  next
    case False
    then have b: "col sib = Black" by simp
    obtain u short where u: "bal_right cp sib p t = (u, short)" by fastforce
    have e: "del_fix (CR cp sib p k) t = (if short then del_fix k u else plug k u)"
      using b u by (cases sib) (simp_all del: bal_left.simps bal_right.simps)
    have "rb_is_red s (ref_of sib) = Some False"
      using z b sib(1) ne(2) d(2) by (cases sib) (auto simp: zip_is_def rb_is_red_def)
    then have el: "erase_right s p (ref_of sib) = erase_right_black s p (ref_of sib)" by (simp add: erase_right_def)
    from erase_right_black_ok [OF z1 sib(1)] obtain s1 where
      s1: "erase_right_black s p (ref_of sib) = Some (s1, next_up k p short)" "zip_is v s1 k u"
      "same_out (before k @ (inorder sib @ p # inorder t) @ after k) s s1" by (auto simp: u)
    have uo: "invc u" "invh u" "u \<noteq> Lf" "inorder u = inorder sib @ p # inorder t" "short \<longrightarrow> col u = Black \<and> bheight u = bheight t + 1 \<and> cp = Black \<and> ref_of u = p"
      using bal_right_ok [OF u t(1,2) sib(2,3) b sib(4)] t(3) u b sib(1)
      by (cases sib; auto split: if_splits rbt.splits colour.splits)+
    show ?thesis
    proof (cases "short \<and> k \<noteq> Top")
      case True
      then have "fixed v s1 k u (erase_color_loop s1 p (ctx_ref k)) (del_fix k u)"
        using IH [OF s1(2)] uo c by auto
      then show ?thesis using True s1 uo(4) ctx_ref_0 [OF s1(2)] by (auto simp: loop el next_up_def e intro: fixed_up simp del: del_fix.simps)
    next
      case False
      then have "del_fix (CR cp sib p k) t = plug k u" using e by auto
      moreover have "erase_color_loop s (ref_of t) p = Some s1" using False s1(1) ctx_ref_0 [OF s1(2)] by (auto simp: loop el next_up_def)
      ultimately show ?thesis using fixed_done [OF s1(2)] s1(3) by (simp del: del_fix.simps)
    qed
  qed
qed

lemma erase_color_loop_ok:
  "zip_is v s k t \<Longrightarrow> k \<noteq> Top \<Longrightarrow> invc t \<Longrightarrow> invh t \<Longrightarrow> col t = Black \<Longrightarrow> ctxc k Black \<Longrightarrow> ctxh k (bheight t + 1) \<Longrightarrow>
    fixed v s k t (erase_color_loop s (ref_of t) (ctx_ref k)) (del_fix k t)"
proof (induction k arbitrary: t s)
  case (CL cp k p sib)
  show ?case unfolding ctx_ref.simps
    by (rule erase_loop_left, rule CL.IH) (use CL.prems in auto)
next
  case (CR cp sib p k)
  show ?case unfolding ctx_ref.simps
    by (rule erase_loop_right, rule CR.IH) (use CR.prems in auto)
qed simp

end
