(* ===== verification/Memory.thy ===== *)
theory Memory
  imports Prelude
begin

text \<open>
  The memory functions of \<^verbatim>\<open>src/kernel/lib\<close>: \<^verbatim>\<open>memset.c\<close>, \<^verbatim>\<open>memcpy.c\<close>,
  \<^verbatim>\<open>memmove.c\<close>, \<^verbatim>\<open>memcmp.c\<close> and \<^verbatim>\<open>memchr.c\<close>. Memory is a partial map from addresses to
  bytes; an access to an address that is not mapped is \<open>None\<close>. Source and destination live in
  the same map, so overlapping regions are covered. Addresses are natural numbers: the regions
  a caller passes do not wrap around the address space.
\<close>

subsection \<open>Model\<close>

type_synonym bmem = "nat \<rightharpoonup> u8"

definition st :: "bmem \<Rightarrow> nat \<Rightarrow> u8 \<Rightarrow> bmem panicking" where
  "st m p v = (if m p = None then None else Some (m(p \<mapsto> v)))"

text \<open>Reading and then writing a word of four bytes.\<close>

definition ld4 :: "bmem \<Rightarrow> nat \<Rightarrow> (u8 \<times> u8 \<times> u8 \<times> u8) panicking" where
  "ld4 m p = do { a \<leftarrow> m p; b \<leftarrow> m (p + 1); c \<leftarrow> m (p + 2); d \<leftarrow> m (p + 3); Some (a, b, c, d) }"

definition st4 :: "bmem \<Rightarrow> nat \<Rightarrow> u8 \<times> u8 \<times> u8 \<times> u8 \<Rightarrow> bmem panicking" where
  "st4 m p w = (case w of (a, b, c, d) \<Rightarrow> do {
     m1 \<leftarrow> st m p a; m2 \<leftarrow> st m1 (p + 1) b; m3 \<leftarrow> st m2 (p + 2) c; st m3 (p + 3) d })"

fun memset :: "bmem \<Rightarrow> nat \<Rightarrow> u8 \<Rightarrow> nat \<Rightarrow> bmem panicking" where
  "memset m p c 0 = Some m"
| "memset m p c (Suc n) = do { m' \<leftarrow> st m p c; memset m' (p + 1) c n }"

fun copy_bytes :: "bmem \<Rightarrow> nat \<Rightarrow> nat \<Rightarrow> nat \<Rightarrow> bmem panicking" where
  "copy_bytes m d s 0 = Some m"
| "copy_bytes m d s (Suc n) = do { v \<leftarrow> m s; m' \<leftarrow> st m d v; copy_bytes m' (d + 1) (s + 1) n }"

function copy_words :: "bmem \<Rightarrow> nat \<Rightarrow> nat \<Rightarrow> nat \<Rightarrow> (bmem \<times> nat \<times> nat \<times> nat) panicking" where
  "copy_words m d s n =
     (if n \<ge> 4 then do {
        w \<leftarrow> ld4 m s; m' \<leftarrow> st4 m d w; copy_words m' (d + 4) (s + 4) (n - 4) }
      else Some (m, d, s, n))"
  by pat_completeness auto
termination
  by (relation "measure (\<lambda>(m, d, s, n). n)") auto

declare copy_words.simps [simp del]

definition memcpy :: "bmem \<Rightarrow> nat \<Rightarrow> nat \<Rightarrow> nat \<Rightarrow> bmem panicking" where
  "memcpy m dst src len = do {
     (m1, d, s, n) \<leftarrow>
       (if src mod 4 = 0 \<and> dst mod 4 = 0 then copy_words m dst src len else Some (m, dst, src, len));
     copy_bytes m1 d s n
   }"

text \<open>
  The first loop of the forward and of the backward branch of \<^verbatim>\<open>memmove\<close>: single bytes until
  the destination is aligned. \<open>True\<close> is the early return.
\<close>

fun align_fwd :: "bmem \<Rightarrow> nat \<Rightarrow> nat \<Rightarrow> nat \<Rightarrow> (bool \<times> bmem \<times> nat \<times> nat \<times> nat) panicking" where
  "align_fwd m d s 0 = Some (d mod 4 \<noteq> 0, m, d, s, 0)"
| "align_fwd m d s (Suc n) =
     (if d mod 4 \<noteq> 0 then do { v \<leftarrow> m s; m' \<leftarrow> st m d v; align_fwd m' (d + 1) (s + 1) n }
      else Some (False, m, d, s, Suc n))"

fun align_bwd :: "bmem \<Rightarrow> nat \<Rightarrow> nat \<Rightarrow> nat \<Rightarrow> (bool \<times> bmem \<times> nat) panicking" where
  "align_bwd m d s 0 = Some (d mod 4 \<noteq> 0, m, 0)"
| "align_bwd m d s (Suc n) =
     (if (d + Suc n) mod 4 \<noteq> 0 then do { v \<leftarrow> m (s + n); m' \<leftarrow> st m (d + n) v; align_bwd m' d s n }
      else Some (False, m, Suc n))"

function words_bwd :: "bmem \<Rightarrow> nat \<Rightarrow> nat \<Rightarrow> nat \<Rightarrow> (bmem \<times> nat) panicking" where
  "words_bwd m d s n =
     (if n \<ge> 4 then do {
        w \<leftarrow> ld4 m (s + (n - 4)); m' \<leftarrow> st4 m (d + (n - 4)) w; words_bwd m' d s (n - 4) }
      else Some (m, n))"
  by pat_completeness auto
termination
  by (relation "measure (\<lambda>(m, d, s, n). n)") auto

declare words_bwd.simps [simp del]

fun bytes_bwd :: "bmem \<Rightarrow> nat \<Rightarrow> nat \<Rightarrow> nat \<Rightarrow> bmem panicking" where
  "bytes_bwd m d s 0 = Some m"
| "bytes_bwd m d s (Suc n) = do { v \<leftarrow> m (s + n); m' \<leftarrow> st m (d + n) v; bytes_bwd m' d s n }"

definition memmove :: "bmem \<Rightarrow> nat \<Rightarrow> nat \<Rightarrow> nat \<Rightarrow> bmem panicking" where
  "memmove m d s n =
     (if d = s then Some m
      else if s + n \<le> d \<or> d + n \<le> s then memcpy m d s n
      else if d < s then do {
        (ret, m1, d1, s1, n1) \<leftarrow>
          (if s mod 4 = d mod 4 then do {
             (ret, m1, d1, s1, n1) \<leftarrow> align_fwd m d s n;
             if ret then Some (True, m1, d1, s1, n1)
             else do { (m2, d2, s2, n2) \<leftarrow> copy_words m1 d1 s1 n1; Some (False, m2, d2, s2, n2) } }
           else Some (False, m, d, s, n));
        if ret then Some m1 else copy_bytes m1 d1 s1 n1 }
      else do {
        (ret, m1, n1) \<leftarrow>
          (if s mod 4 = d mod 4 then do {
             (ret, m1, n1) \<leftarrow> align_bwd m d s n;
             if ret then Some (True, m1, n1)
             else do { (m2, n2) \<leftarrow> words_bwd m1 d s n1; Some (False, m2, n2) } }
           else Some (False, m, n));
        if ret then Some m1 else bytes_bwd m1 d s n1 })"

text \<open>The results 1, -1 and 0 of the C function.\<close>

fun memcmp :: "bmem \<Rightarrow> nat \<Rightarrow> nat \<Rightarrow> nat \<Rightarrow> int panicking" where
  "memcmp m p q 0 = Some 0"
| "memcmp m p q (Suc n) = do {
     a \<leftarrow> m p; b \<leftarrow> m q;
     if a > b then Some 1 else if a < b then Some (- 1) else memcmp m (p + 1) (q + 1) n }"

text \<open>The null pointer is \<open>Some None\<close>.\<close>

fun memchr :: "bmem \<Rightarrow> nat \<Rightarrow> u8 \<Rightarrow> nat \<Rightarrow> nat option panicking" where
  "memchr m p c 0 = Some None"
| "memchr m p c (Suc n) = do { a \<leftarrow> m p; if a = c then Some (Some p) else memchr m (p + 1) c n }"

fun memrchr :: "bmem \<Rightarrow> nat \<Rightarrow> u8 \<Rightarrow> nat \<Rightarrow> nat option panicking" where
  "memrchr m p c 0 = Some None"
| "memrchr m p c (Suc n) = do { a \<leftarrow> m (p + n); if a = c then Some (Some (p + n)) else memrchr m p c n }"

subsection \<open>Copying as one simultaneous assignment\<close>

definition mapped :: "bmem \<Rightarrow> nat \<Rightarrow> nat \<Rightarrow> bool" where
  "mapped m p n \<longleftrightarrow> (\<forall>i < n. m (p + i) \<noteq> None)"

definition copied :: "bmem \<Rightarrow> nat \<Rightarrow> nat \<Rightarrow> nat \<Rightarrow> bmem" where
  "copied m d s n = (\<lambda>p. if d \<le> p \<and> p < d + n then m (s + (p - d)) else m p)"

lemma copied_0 [simp]: "copied m d s 0 = m"
  by (rule ext) (auto simp: copied_def)

lemma copied_fwd:
  assumes "d \<le> s \<or> s + k + n \<le> d"
  shows "copied (copied m d s k) (d + k) (s + k) n = copied m d s (k + n)"
  using assms by (auto simp: copied_def fun_eq_iff)

lemma copied_bwd:
  assumes "s \<le> d \<or> d + n + k \<le> s"
  shows "copied (copied m (d + n) (s + n) k) d s n = copied m d s (n + k)"
  using assms by (auto simp: copied_def fun_eq_iff)

lemma mapped_sub:
  assumes "mapped m p n" "p \<le> q" "q + k \<le> p + n"
  shows "mapped m q k"
  unfolding mapped_def
proof (intro allI impI)
  fix i assume "i < k"
  then have i: "q + i = p + (q - p + i)" "q - p + i < n" using assms(2,3) by simp_all
  then show "m (q + i) \<noteq> None" using assms(1) unfolding mapped_def by metis
qed

lemma copied_keeps:
  assumes "mapped m s n" "mapped m p k"
  shows "mapped (copied m d s n) p k"
  unfolding mapped_def
proof (intro allI impI)
  fix i assume "i < k"
  show "copied m d s n (p + i) \<noteq> None"
  proof (cases "d \<le> p + i \<and> p + i < d + n")
    case True
    then have "p + i - d < n" by auto
    with assms(1) have "m (s + (p + i - d)) \<noteq> None" unfolding mapped_def by blast
    with True show ?thesis by (simp add: copied_def)
  next
    case False
    then have "copied m d s n (p + i) = m (p + i)" unfolding copied_def by (rule if_not_P)
    with assms(2) \<open>i < k\<close> show ?thesis by (simp add: mapped_def)
  qed
qed

lemma copy_one:
  assumes "mapped m s 1" "mapped m d 1"
  obtains v where "m s = Some v" "st m d v = Some (copied m d s 1)"
proof -
  from assms obtain v where v: "m s = Some v" "m d \<noteq> None" by (auto simp: mapped_def)
  then have "st m d v = Some (copied m d s 1)"
    by (auto simp: st_def copied_def fun_eq_iff)
  with v(1) show ?thesis by (rule that)
qed

lemma copy_four:
  assumes "mapped m s 4" "mapped m d 4"
  obtains w where "ld4 m s = Some w" "st4 m d w = Some (copied m d s 4)"
proof -
  have "m s \<noteq> None" "m (s + 1) \<noteq> None" "m (s + 2) \<noteq> None" "m (s + 3) \<noteq> None"
    "m d \<noteq> None" "m (d + 1) \<noteq> None" "m (d + 2) \<noteq> None" "m (d + 3) \<noteq> None"
    using assms [unfolded mapped_def, rule_format, of 0] assms [unfolded mapped_def, rule_format, of 1]
      assms [unfolded mapped_def, rule_format, of 2] assms [unfolded mapped_def, rule_format, of 3]
    by simp_all
  then obtain a b c e where v: "m s = Some a" "m (s + 1) = Some b" "m (s + 2) = Some c" "m (s + 3) = Some e"
    "m d \<noteq> None" "m (d + 1) \<noteq> None" "m (d + 2) \<noteq> None" "m (d + 3) \<noteq> None"
    by auto
  have "copied m d s 4 = m(d \<mapsto> a, d + 1 \<mapsto> b, d + 2 \<mapsto> c, d + 3 \<mapsto> e)"
  proof
    fix p
    consider "p < d" | "p = d" | "p = d + 1" | "p = d + 2" | "p = d + 3" | "p \<ge> d + 4" by linarith
    then show "copied m d s 4 p = (m(d \<mapsto> a, d + 1 \<mapsto> b, d + 2 \<mapsto> c, d + 3 \<mapsto> e)) p"
      using v(1-4) by cases (simp_all add: copied_def)
  qed
  with v show ?thesis
    by (intro that [of "(a, b, c, e)"]) (simp_all add: ld4_def st4_def st_def)
qed

subsection \<open>The loops\<close>

lemma memset_run:
  "mapped m p n \<Longrightarrow> memset m p c n = Some (\<lambda>q. if p \<le> q \<and> q < p + n then Some c else m q)"
proof (induction n arbitrary: m p)
  case 0
  then show ?case by (auto simp: fun_eq_iff)
next
  case (Suc n)
  have "m p \<noteq> None" using Suc.prems by (force simp: mapped_def)
  then have "st m p c = Some (m(p \<mapsto> c))" by (simp add: st_def)
  moreover have "mapped (m(p \<mapsto> c)) (p + 1) n"
    using mapped_sub [OF Suc.prems, of "p + 1" n] by (simp add: mapped_def)
  note Suc.IH [OF this]
  ultimately have "memset m p c (Suc n) =
      Some (\<lambda>q. if p + 1 \<le> q \<and> q < p + 1 + n then Some c else (m(p \<mapsto> c)) q)"
    by (simp only: memset.simps Option.bind.bind_lunit)
  also have "(\<lambda>q. if p + 1 \<le> q \<and> q < p + 1 + n then Some c else (m(p \<mapsto> c)) q) =
      (\<lambda>q. if p \<le> q \<and> q < p + Suc n then Some c else m q)"
    by (rule ext) auto
  finally show ?case .
qed

lemma copy_bytes_run:
  "mapped m s n \<Longrightarrow> mapped m d n \<Longrightarrow> d \<le> s \<or> s + n \<le> d \<Longrightarrow>
   copy_bytes m d s n = Some (copied m d s n)"
proof (induction n arbitrary: m d s)
  case 0
  then show ?case by simp
next
  case (Suc n)
  have one: "mapped m s 1" "mapped m d 1"
    using mapped_sub [OF Suc.prems(1), of s 1] mapped_sub [OF Suc.prems(2), of d 1] by simp_all
  obtain v where v: "m s = Some v" "st m d v = Some (copied m d s 1)" by (rule copy_one [OF one])
  have "mapped (copied m d s 1) (s + 1) n" "mapped (copied m d s 1) (d + 1) n"
    using mapped_sub [OF Suc.prems(1), of "s + 1" n] mapped_sub [OF Suc.prems(2), of "d + 1" n]
    by - (rule copied_keeps [OF one(1)], simp)+
  with Suc.IH [of "copied m d s 1" "s + 1" "d + 1"] copied_fwd [of d s 1 n m] Suc.prems(3) v
  show ?case by auto
qed

lemma copy_words_run:
  "mapped m s n \<Longrightarrow> mapped m d n \<Longrightarrow> d \<le> s \<or> s + n \<le> d \<Longrightarrow>
   copy_words m d s n =
     Some (copied m d s (n div 4 * 4), d + n div 4 * 4, s + n div 4 * 4, n mod 4)"
proof (induction n arbitrary: m d s rule: less_induct)
  case (less n)
  show ?case
  proof (cases "n \<ge> 4")
    case False
    then show ?thesis by (simp add: copy_words.simps)
  next
    case True
    then obtain k where k: "n = 4 + k" using le_Suc_ex by blast
    have div4: "(4 + k) div 4 * 4 = 4 + k div 4 * 4" by presburger
    have four: "mapped m s 4" "mapped m d 4"
      using mapped_sub [OF less.prems(1), of s 4] mapped_sub [OF less.prems(2), of d 4] True by simp_all
    obtain w where w: "ld4 m s = Some w" "st4 m d w = Some (copied m d s 4)" by (rule copy_four [OF four])
    have rest: "mapped (copied m d s 4) (s + 4) k" "mapped (copied m d s 4) (d + 4) k"
      using mapped_sub [OF less.prems(1), of "s + 4" k] mapped_sub [OF less.prems(2), of "d + 4" k] k
      by - (rule copied_keeps [OF four(1)], simp)+
    have "copy_words m d s n = copy_words (copied m d s 4) (d + 4) (s + 4) k"
      unfolding k by (subst copy_words.simps) (simp add: w)
    also have "\<dots> = Some (copied (copied m d s 4) (d + 4) (s + 4) (k div 4 * 4),
        d + 4 + k div 4 * 4, s + 4 + k div 4 * 4, k mod 4)"
      using k rest less.prems(3) by (intro less.IH) auto
    also have "copied (copied m d s 4) (d + 4) (s + 4) (k div 4 * 4) = copied m d s (4 + k div 4 * 4)"
      using less.prems(3) k by (intro copied_fwd) auto
    finally show ?thesis using k div4 by (simp add: add.assoc)
  qed
qed

lemma fwd_copy_run:
  assumes "mapped m s n" "mapped m d n" "d \<le> s \<or> s + n \<le> d"
  shows "do { (m1, d1, s1, n1) \<leftarrow> copy_words m d s n; copy_bytes m1 d1 s1 n1 } = Some (copied m d s n)"
proof -
  let ?k = "n div 4 * 4"
  have le: "?k + n mod 4 = n" "?k \<le> n" by simp_all
  have m1: "mapped m s ?k" using mapped_sub [OF assms(1), of s ?k] le(2) by simp
  have rest: "mapped (copied m d s ?k) (s + ?k) (n mod 4)" "mapped (copied m d s ?k) (d + ?k) (n mod 4)"
    using mapped_sub [OF assms(1), of "s + ?k" "n mod 4"] mapped_sub [OF assms(2), of "d + ?k" "n mod 4"]
    by - (rule copied_keeps [OF m1], simp)+
  have "copy_bytes (copied m d s ?k) (d + ?k) (s + ?k) (n mod 4) =
      Some (copied (copied m d s ?k) (d + ?k) (s + ?k) (n mod 4))"
    using rest assms(3) le(1) by (intro copy_bytes_run) auto
  also have "copied (copied m d s ?k) (d + ?k) (s + ?k) (n mod 4) = copied m d s (?k + n mod 4)"
    using assms(3) le(1) by (intro copied_fwd) (metis add.assoc)
  finally show ?thesis using copy_words_run [OF assms] by simp
qed

lemma memcpy_run:
  assumes "mapped m s n" "mapped m d n" "d \<le> s \<or> s + n \<le> d"
  shows "memcpy m d s n = Some (copied m d s n)"
  using fwd_copy_run [OF assms] copy_bytes_run [OF assms] by (simp add: memcpy_def)

lemma align_fwd_run:
  "mapped m s n \<Longrightarrow> mapped m d n \<Longrightarrow> d \<le> s \<Longrightarrow>
   \<exists>k \<le> n. align_fwd m d s n = Some (k = n \<and> (d + k) mod 4 \<noteq> 0, copied m d s k, d + k, s + k, n - k)"
proof (induction n arbitrary: m d s)
  case 0
  then show ?case by simp
next
  case (Suc n)
  show ?case
  proof (cases "d mod 4 = 0")
    case True
    then show ?thesis by (intro exI [of _ 0]) simp
  next
    case False
    have one: "mapped m s 1" "mapped m d 1"
      using mapped_sub [OF Suc.prems(1), of s 1] mapped_sub [OF Suc.prems(2), of d 1] by simp_all
    obtain v where v: "m s = Some v" "st m d v = Some (copied m d s 1)" by (rule copy_one [OF one])
    have "mapped (copied m d s 1) (s + 1) n" "mapped (copied m d s 1) (d + 1) n"
      using mapped_sub [OF Suc.prems(1), of "s + 1" n] mapped_sub [OF Suc.prems(2), of "d + 1" n]
      by - (rule copied_keeps [OF one(1)], simp)+
    from Suc.IH [OF this] Suc.prems(3) obtain k where k: "k \<le> n"
      "align_fwd (copied m d s 1) (d + 1) (s + 1) n =
        Some (k = n \<and> (d + 1 + k) mod 4 \<noteq> 0, copied (copied m d s 1) (d + 1) (s + 1) k,
          d + 1 + k, s + 1 + k, n - k)"
      by auto
    with v False Suc.prems(3) copied_fwd [of d s 1 k m] show ?thesis
      by (intro exI [of _ "Suc k"]) auto
  qed
qed

lemma bytes_bwd_run:
  "mapped m s n \<Longrightarrow> mapped m d n \<Longrightarrow> s \<le> d \<Longrightarrow> bytes_bwd m d s n = Some (copied m d s n)"
proof (induction n arbitrary: m)
  case 0
  then show ?case by simp
next
  case (Suc n)
  have one: "mapped m (s + n) 1" "mapped m (d + n) 1"
    using mapped_sub [OF Suc.prems(1), of "s + n" 1] mapped_sub [OF Suc.prems(2), of "d + n" 1]
    by simp_all
  obtain v where v: "m (s + n) = Some v" "st m (d + n) v = Some (copied m (d + n) (s + n) 1)"
    by (rule copy_one [OF one])
  have "mapped (copied m (d + n) (s + n) 1) s n" "mapped (copied m (d + n) (s + n) 1) d n"
    using mapped_sub [OF Suc.prems(1), of s n] mapped_sub [OF Suc.prems(2), of d n]
    by - (rule copied_keeps [OF one(1)], simp)+
  with Suc.IH Suc.prems(3) v copied_bwd [of s d n 1 m] show ?case by auto
qed

lemma align_bwd_run:
  "mapped m s n \<Longrightarrow> mapped m d n \<Longrightarrow> s \<le> d \<Longrightarrow>
   \<exists>k \<le> n. align_bwd m d s n =
     Some (k = 0 \<and> d mod 4 \<noteq> 0, copied m (d + k) (s + k) (n - k), k)"
proof (induction n arbitrary: m)
  case 0
  then show ?case by simp
next
  case (Suc n)
  show ?case
  proof (cases "(d + Suc n) mod 4 = 0")
    case True
    then show ?thesis by (intro exI [of _ "Suc n"]) simp
  next
    case False
    have one: "mapped m (s + n) 1" "mapped m (d + n) 1"
      using mapped_sub [OF Suc.prems(1), of "s + n" 1] mapped_sub [OF Suc.prems(2), of "d + n" 1]
      by simp_all
    obtain v where v: "m (s + n) = Some v" "st m (d + n) v = Some (copied m (d + n) (s + n) 1)"
      by (rule copy_one [OF one])
    have "mapped (copied m (d + n) (s + n) 1) s n" "mapped (copied m (d + n) (s + n) 1) d n"
      using mapped_sub [OF Suc.prems(1), of s n] mapped_sub [OF Suc.prems(2), of d n]
      by - (rule copied_keeps [OF one(1)], simp)+
    from Suc.IH [OF this Suc.prems(3)] obtain k where k: "k \<le> n"
      "align_bwd (copied m (d + n) (s + n) 1) d s n =
        Some (k = 0 \<and> d mod 4 \<noteq> 0, copied (copied m (d + n) (s + n) 1) (d + k) (s + k) (n - k), k)"
      by auto
    have "copied (copied m (d + k + (n - k)) (s + k + (n - k)) 1) (d + k) (s + k) (n - k) =
        copied m (d + k) (s + k) (n - k + 1)"
      using Suc.prems(3) by (intro copied_bwd) simp
    with k v False show ?thesis by (intro exI [of _ k]) (auto simp: Suc_diff_le)
  qed
qed

lemma words_bwd_run:
  "mapped m s n \<Longrightarrow> mapped m d n \<Longrightarrow> s \<le> d \<Longrightarrow>
   words_bwd m d s n = Some (copied m (d + n mod 4) (s + n mod 4) (n div 4 * 4), n mod 4)"
proof (induction n arbitrary: m rule: less_induct)
  case (less n)
  show ?case
  proof (cases "n \<ge> 4")
    case False
    then show ?thesis by (simp add: words_bwd.simps)
  next
    case True
    then obtain k where k: "n = k + 4" by (metis le_Suc_ex add.commute)
    have div4: "(k + 4) div 4 * 4 = k div 4 * 4 + 4" "k = k mod 4 + k div 4 * 4" by presburger+
    have four: "mapped m (s + k) 4" "mapped m (d + k) 4"
      using mapped_sub [OF less.prems(1), of "s + k" 4] mapped_sub [OF less.prems(2), of "d + k" 4] k
      by simp_all
    obtain w where w: "ld4 m (s + k) = Some w" "st4 m (d + k) w = Some (copied m (d + k) (s + k) 4)"
      by (rule copy_four [OF four])
    have "mapped (copied m (d + k) (s + k) 4) s k" "mapped (copied m (d + k) (s + k) 4) d k"
      using mapped_sub [OF less.prems(1), of s k] mapped_sub [OF less.prems(2), of d k] k
      by - (rule copied_keeps [OF four(1)], simp)+
    then have IH: "words_bwd (copied m (d + k) (s + k) 4) d s k =
        Some (copied (copied m (d + k) (s + k) 4) (d + k mod 4) (s + k mod 4) (k div 4 * 4), k mod 4)"
      using less.prems(3) k by (intro less.IH) auto
    have "copied (copied m (d + k mod 4 + k div 4 * 4) (s + k mod 4 + k div 4 * 4) 4)
        (d + k mod 4) (s + k mod 4) (k div 4 * 4) =
        copied m (d + k mod 4) (s + k mod 4) (k div 4 * 4 + 4)"
      using less.prems(3) by (intro copied_bwd) simp
    moreover have "words_bwd m d s n = words_bwd (copied m (d + k) (s + k) 4) d s k"
      unfolding k by (subst words_bwd.simps) (simp add: w)
    ultimately show ?thesis using IH k div4 by (metis add.assoc mod_add_self2)
  qed
qed

lemma memmove_fwd:
  assumes m: "mapped m s n" "mapped m d n" and fwd: "d < s" "\<not> (s + n \<le> d \<or> d + n \<le> s)"
  shows "memmove m d s n = Some (copied m d s n)"
proof -
  obtain k where k: "k \<le> n" "align_fwd m d s n =
      Some (k = n \<and> (d + k) mod 4 \<noteq> 0, copied m d s k, d + k, s + k, n - k)"
    using align_fwd_run [OF m] fwd(1) by auto
  have mk: "mapped m s k" using mapped_sub [OF m(1), of s k] k(1) by simp
  have rest: "mapped (copied m d s k) (s + k) (n - k)" "mapped (copied m d s k) (d + k) (n - k)"
    using mapped_sub [OF m(1), of "s + k" "n - k"] mapped_sub [OF m(2), of "d + k" "n - k"] k(1)
    by - (rule copied_keeps [OF mk], simp)+
  have "copied (copied m d s k) (d + k) (s + k) (n - k) = copied m d s (k + (n - k))"
    using fwd(1) by (intro copied_fwd) simp
  then have go: "do { (m1, d1, s1, n1) \<leftarrow> copy_words (copied m d s k) (d + k) (s + k) (n - k);
      copy_bytes m1 d1 s1 n1 } = Some (copied m d s n)"
    using fwd_copy_run [OF rest] fwd(1) k(1) by simp
  show ?thesis
  proof (cases "s mod 4 = d mod 4")
    case True
    show ?thesis
    proof (cases "k = n \<and> (d + k) mod 4 \<noteq> 0")
      case ret: True
      then have "k = n" "0 < (d + n) mod 4" by auto
      then show ?thesis using fwd True k(2) by (simp add: memmove_def)
    next
      case False
      obtain m2 d2 s2 n2 where "copy_words (copied m d s k) (d + k) (s + k) (n - k) = Some (m2, d2, s2, n2)"
        using go by (cases "copy_words (copied m d s k) (d + k) (s + k) (n - k)") auto
      with go fwd True k(2) False show ?thesis by (simp add: memmove_def)
    qed
  next
    case False
    with fwd copy_bytes_run [OF m] show ?thesis by (simp add: memmove_def)
  qed
qed

lemma memmove_bwd:
  assumes m: "mapped m s n" "mapped m d n" and bwd: "s < d" "\<not> (s + n \<le> d \<or> d + n \<le> s)"
  shows "memmove m d s n = Some (copied m d s n)"
proof -
  obtain k where k: "k \<le> n" "align_bwd m d s n =
      Some (k = 0 \<and> d mod 4 \<noteq> 0, copied m (d + k) (s + k) (n - k), k)"
    using align_bwd_run [OF m] bwd(1) by auto
  let ?m1 = "copied m (d + k) (s + k) (n - k)" and ?r = "k mod 4" and ?q = "k div 4 * 4"
  have mk: "mapped m (s + k) (n - k)" using mapped_sub [OF m(1), of "s + k" "n - k"] k(1) by simp
  have r1: "mapped ?m1 s k" "mapped ?m1 d k"
    using mapped_sub [OF m(1), of s k] mapped_sub [OF m(2), of d k] k(1)
    by - (rule copied_keeps [OF mk], simp)+
  have w: "words_bwd ?m1 d s k = Some (copied ?m1 (d + ?r) (s + ?r) ?q, ?r)"
    using words_bwd_run [OF r1] bwd(1) by simp
  have mr: "mapped ?m1 (s + ?r) ?q" using mapped_sub [OF r1(1), of "s + ?r" ?q] by simp
  have r2: "mapped (copied ?m1 (d + ?r) (s + ?r) ?q) s ?r" "mapped (copied ?m1 (d + ?r) (s + ?r) ?q) d ?r"
    using mapped_sub [OF r1(1), of s ?r] mapped_sub [OF r1(2), of d ?r]
    by - (rule copied_keeps [OF mr], simp)+
  have b: "bytes_bwd (copied ?m1 (d + ?r) (s + ?r) ?q) d s ?r =
      Some (copied (copied ?m1 (d + ?r) (s + ?r) ?q) d s ?r)"
    using bytes_bwd_run [OF r2] bwd(1) by simp
  have c1: "copied (copied ?m1 (d + ?r) (s + ?r) ?q) d s ?r = copied ?m1 d s (?r + ?q)"
    using bwd(1) by (intro copied_bwd) simp
  have c2: "copied ?m1 d s k = copied m d s (k + (n - k))"
    using bwd(1) by (intro copied_bwd) simp
  show ?thesis
  proof (cases "s mod 4 = d mod 4")
    case True
    show ?thesis
    proof (cases "k = 0 \<and> d mod 4 \<noteq> 0")
      case ret: True
      then have "k = 0" "0 < d mod 4" by auto
      then show ?thesis using bwd True k(2) by (simp add: memmove_def)
    next
      case False
      have "memmove m d s n = bytes_bwd (copied ?m1 (d + ?r) (s + ?r) ?q) d s ?r"
        using bwd True k(2) False w by (simp add: memmove_def)
      also have "\<dots> = Some (copied m d s n)" using b c1 c2 k(1) by simp
      finally show ?thesis .
    qed
  next
    case False
    with bwd bytes_bwd_run [OF m] show ?thesis by (simp add: memmove_def)
  qed
qed

lemma memmove_run:
  assumes m: "mapped m s n" "mapped m d n"
  shows "memmove m d s n = Some (copied m d s n)"
proof -
  consider "d = s" | "d \<noteq> s" "s + n \<le> d \<or> d + n \<le> s"
    | (fwd) "d < s" "\<not> (s + n \<le> d \<or> d + n \<le> s)" | (bwd) "s < d" "\<not> (s + n \<le> d \<or> d + n \<le> s)"
    by linarith
  then show ?thesis
  proof cases
    case 1
    moreover have "copied m s s n = m" by (rule ext) (simp add: copied_def)
    ultimately show ?thesis by (simp add: memmove_def)
  next
    case 2
    then have "d \<le> s \<or> s + n \<le> d" by linarith
    with 2 show ?thesis using memcpy_run [OF m] by (simp add: memmove_def)
  next
    case fwd
    with m show ?thesis by (rule memmove_fwd)
  next
    case bwd
    with m show ?thesis by (rule memmove_bwd)
  qed
qed

lemma memcmp_0_iff:
  "mapped m p n \<Longrightarrow> mapped m q n \<Longrightarrow>
   memcmp m p q n = Some 0 \<longleftrightarrow> (\<forall>i < n. m (p + i) = m (q + i))"
proof (induction n arbitrary: p q)
  case 0
  then show ?case by simp
next
  case (Suc n)
  have r: "mapped m (p + 1) n" "mapped m (q + 1) n"
    using mapped_sub [OF Suc.prems(1), of "p + 1" n] mapped_sub [OF Suc.prems(2), of "q + 1" n] by simp_all
  from Suc.prems obtain a b where "m p = Some a" "m q = Some b" by (force simp: mapped_def)
  with Suc.IH [OF r] show ?case
    by (auto simp: less_Suc_eq_0_disj)
qed

subsection \<open>Properties\<close>

text \<open>C9. For every two mapped regions, however they overlap and are aligned, \<^verbatim>\<open>memmove\<close> leaves
  in the destination exactly the bytes the source held before the call and changes nothing
  else; it never touches unmapped memory.\<close>

theorem memmove_correct:
  assumes "mapped m s n" "mapped m d n"
  shows "\<exists>m'. memmove m d s n = Some m' \<and> (\<forall>i < n. m' (d + i) = m (s + i)) \<and>
    (\<forall>p. p < d \<or> d + n \<le> p \<longrightarrow> m' p = m p)"
  using memmove_run [OF assms] by (auto simp: copied_def)

definition ramp :: bmem where
  "ramp = (\<lambda>p. if p < 16 then Some (of_nat p) else None)"

theorem memmove_correct_witness:
  "\<exists>m'. memmove ramp 3 1 9 = Some m' \<and> m' 3 = Some 1 \<and> m' 11 = Some 9 \<and> m' 12 = Some 12"
proof -
  have "mapped ramp 1 9" "mapped ramp 3 9" by (simp_all add: mapped_def ramp_def)
  from memmove_correct [OF this] obtain m' where m': "memmove ramp 3 1 9 = Some m'"
    "\<forall>i < 9. m' (3 + i) = ramp (1 + i)" "\<forall>p. p < 3 \<or> 3 + 9 \<le> p \<longrightarrow> m' p = ramp p"
    by blast
  with m'(2) [rule_format, of 0] m'(2) [rule_format, of 8] m'(3) [rule_format, of 12] show ?thesis
    by (auto simp: ramp_def)
qed

end
