(* ===== verification/Strings.thy ===== *)
theory Strings
  imports Memory
begin

text \<open>
  The string functions of \<^verbatim>\<open>src/kernel/lib\<close> (\<^verbatim>\<open>strlen.c\<close>, \<^verbatim>\<open>strcmp.c\<close>, \<^verbatim>\<open>strcpy.c\<close>,
  \<^verbatim>\<open>strcat.c\<close>, \<^verbatim>\<open>strchr.c\<close>, \<^verbatim>\<open>strcasecmp.c\<close>, \<^verbatim>\<open>strreverse.c\<close>, \<^verbatim>\<open>strdup.c\<close>, \<^verbatim>\<open>concat.c\<close>) and the
  character class macros of \<^verbatim>\<open>lib/string.h\<close>, over the byte memory of theory \<open>Memory\<close>. A string
  is read through memory, so a function that runs past mapped memory, or that overwrites the
  terminator it is looking for, does not return: its value is \<open>None\<close>. \<open>cstr m p xs\<close> says that
  the zero terminated string at \<open>p\<close> is \<open>xs\<close>. \<^verbatim>\<open>char\<close> is signed on this machine, so where the
  code compares a \<^verbatim>\<open>char\<close> with an \<^verbatim>\<open>int\<close> the byte is read with \<open>sint\<close>.
\<close>

subsection \<open>Model\<close>

definition isupper :: "int \<Rightarrow> bool" where
  "isupper c \<longleftrightarrow> c \<ge> 65 \<and> c \<le> 90"

definition islower :: "int \<Rightarrow> bool" where
  "islower c \<longleftrightarrow> c \<ge> 97 \<and> c \<le> 122"

definition isdigit :: "int \<Rightarrow> bool" where
  "isdigit c \<longleftrightarrow> c \<ge> 48 \<and> c \<le> 57"

definition isalpha :: "int \<Rightarrow> bool" where
  "isalpha c \<longleftrightarrow> islower c \<or> isupper c"

definition isalnum :: "int \<Rightarrow> bool" where
  "isalnum c \<longleftrightarrow> isalpha c \<or> isdigit c"

definition isspace :: "int \<Rightarrow> bool" where
  "isspace c \<longleftrightarrow> c = 32 \<or> c = 9 \<or> c = 13 \<or> c = 10 \<or> c = 12 \<or> c = 11"

definition ispunct :: "int \<Rightarrow> bool" where
  "ispunct c \<longleftrightarrow> c \<ge> 33 \<and> c \<le> 47 \<or> c \<ge> 58 \<and> c \<le> 64 \<or> c \<ge> 91 \<and> c \<le> 96 \<or> c \<ge> 123 \<and> c \<le> 126"

definition isgraph :: "int \<Rightarrow> bool" where
  "isgraph c \<longleftrightarrow> ispunct c \<or> isalnum c"

definition isprint :: "int \<Rightarrow> bool" where
  "isprint c \<longleftrightarrow> isgraph c \<or> isspace c"

definition isblank :: "int \<Rightarrow> bool" where
  "isblank c \<longleftrightarrow> c = 32 \<or> c = 9"

definition iscntrl :: "int \<Rightarrow> bool" where
  "iscntrl c \<longleftrightarrow> c \<ge> 0 \<and> c \<le> 8"

definition isxdigit :: "int \<Rightarrow> bool" where
  "isxdigit c \<longleftrightarrow> isdigit c \<or> c \<ge> 97 \<and> c \<le> 102 \<or> c \<ge> 65 \<and> c \<le> 70"

definition tolower :: "int \<Rightarrow> int" where
  "tolower c = (if isupper c then c + 97 - 65 else c)"

definition toupper :: "int \<Rightarrow> int" where
  "toupper c = (if islower c then c + 65 - 97 else c)"

partial_function (option) str_end :: "bmem \<Rightarrow> nat \<Rightarrow> nat panicking" where
  [code]: "str_end m s = do { c \<leftarrow> m s; if c = 0 then Some s else str_end m (s + 1) }"

definition strlen :: "bmem \<Rightarrow> nat \<Rightarrow> nat panicking" where
  "strlen m str = do { s \<leftarrow> str_end m str; Some (s - str) }"

function strnlen_loop :: "bmem \<Rightarrow> nat \<Rightarrow> nat \<Rightarrow> nat \<Rightarrow> nat panicking" where
  "strnlen_loop m s mx n =
     (if n < mx then do { c \<leftarrow> m (s + n); if c = 0 then Some n else strnlen_loop m s mx (n + 1) }
      else Some n)"
  by pat_completeness auto
termination
  by (relation "measure (\<lambda>(m, s, mx, n). mx - n)") auto

declare strnlen_loop.simps [simp del]

definition strnlen :: "bmem \<Rightarrow> nat \<Rightarrow> nat \<Rightarrow> nat panicking" where
  "strnlen m s mx = do { kassert (mx \<noteq> 0); strnlen_loop m s mx 0 }"

partial_function (option) strchr :: "bmem \<Rightarrow> nat \<Rightarrow> int \<Rightarrow> nat option panicking" where
  [code]: "strchr m s c = do {
     x \<leftarrow> m s;
     if x = 0 then Some None
     else if sint x = c then Some (Some s)
     else strchr m (s + 1) c }"

fun strrchr_loop :: "bmem \<Rightarrow> nat \<Rightarrow> int \<Rightarrow> nat \<Rightarrow> nat option panicking" where
  "strrchr_loop m str c i = do {
     x \<leftarrow> m (str + i);
     if sint x = c then Some (Some (str + i))
     else (case i of 0 \<Rightarrow> Some None | Suc j \<Rightarrow> strrchr_loop m str c j) }"

declare strrchr_loop.simps [simp del]

definition strrchr :: "bmem \<Rightarrow> nat \<Rightarrow> int \<Rightarrow> nat option panicking" where
  "strrchr m str c = do { i \<leftarrow> strlen m str; strrchr_loop m str c i }"

partial_function (option) strcmp :: "bmem \<Rightarrow> nat \<Rightarrow> nat \<Rightarrow> int panicking" where
  [code]: "strcmp m s1 s2 = do {
     a \<leftarrow> m s1; b \<leftarrow> m s2;
     if a = b then (if a = 0 then Some 0 else strcmp m (s1 + 1) (s2 + 1))
     else Some (if a < b then - 1 else 1) }"

text \<open>The loop shared by \<^verbatim>\<open>strcpy\<close> and the second half of \<^verbatim>\<open>strcat\<close>.\<close>

partial_function (option) str_copy :: "bmem \<Rightarrow> nat \<Rightarrow> nat \<Rightarrow> bmem panicking" where
  [code]: "str_copy m dst src = do {
     c \<leftarrow> m src; m' \<leftarrow> st m dst c;
     if c = 0 then Some m' else str_copy m' (dst + 1) (src + 1) }"

definition strcpy :: "bmem \<Rightarrow> nat \<Rightarrow> nat \<Rightarrow> bmem panicking" where
  "strcpy m dest src = str_copy m dest src"

definition strcat :: "bmem \<Rightarrow> nat \<Rightarrow> nat \<Rightarrow> bmem panicking" where
  "strcat m dst src = do { d \<leftarrow> str_end m dst; str_copy m d src }"

text \<open>
  The loop \<^verbatim>\<open>while(--n > 0 && (*dst++ = *s++) != '\0')\<close>, entered with the value of \<^verbatim>\<open>n\<close> before
  the decrement; it returns memory, \<^verbatim>\<open>dst\<close>, \<^verbatim>\<open>s\<close> and \<^verbatim>\<open>n\<close>. The case \<open>0\<close> is not reached: the
  assertion excludes it.
\<close>

fun strlcpy_loop :: "bmem \<Rightarrow> nat \<Rightarrow> nat \<Rightarrow> nat \<Rightarrow> (bmem \<times> nat \<times> nat \<times> nat) panicking" where
  "strlcpy_loop m dst s 0 = None"
| "strlcpy_loop m dst s (Suc n) =
     (if n > 0 then do {
        c \<leftarrow> m s; m' \<leftarrow> st m dst c;
        if c = 0 then Some (m', dst + 1, s + 1, n) else strlcpy_loop m' (dst + 1) (s + 1) n }
      else Some (m, dst, s, n))"

definition strlcpy :: "bmem \<Rightarrow> nat \<Rightarrow> nat \<Rightarrow> nat \<Rightarrow> (bmem \<times> nat) panicking" where
  "strlcpy m dst src mx = do {
     kassert (mx \<noteq> 0);
     (m1, d, s, n) \<leftarrow> strlcpy_loop m dst src mx;
     if n = 0 then do {
       m2 \<leftarrow> st m1 d 0;
       e \<leftarrow> str_end m2 s;
       Some (m2, e + 1 - src - 1) }
     else Some (m1, s - src - 1) }"

fun strncat_loop :: "bmem \<Rightarrow> nat \<Rightarrow> nat \<Rightarrow> nat \<Rightarrow> (bmem \<times> nat) panicking" where
  "strncat_loop m dst src 0 = Some (m, dst)"
| "strncat_loop m dst src (Suc n) = do {
     c \<leftarrow> m src; m' \<leftarrow> st m dst c;
     if c = 0 then Some (m', dst) else strncat_loop m' (dst + 1) (src + 1) n }"

definition strncat :: "bmem \<Rightarrow> nat \<Rightarrow> nat \<Rightarrow> nat \<Rightarrow> bmem panicking" where
  "strncat m dst src mx = do {
     kassert (mx \<noteq> 0);
     e \<leftarrow> str_end m dst;
     (m1, d) \<leftarrow> strncat_loop m (e + 1) src mx;
     st m1 d 0 }"

partial_function (option) strcasecmp :: "bmem \<Rightarrow> nat \<Rightarrow> nat \<Rightarrow> int panicking" where
  [code]: "strcasecmp m s1 s2 = do {
     a \<leftarrow> m s1; b \<leftarrow> m s2;
     let c1 = tolower (sint a); c2 = tolower (sint b) in
     if c1 = c2 \<and> c1 \<noteq> 0 then strcasecmp m (s1 + 1) (s2 + 1) else Some (c1 - c2) }"

fun strncasecmp_loop :: "bmem \<Rightarrow> nat \<Rightarrow> nat \<Rightarrow> nat \<Rightarrow> int panicking" where
  "strncasecmp_loop m s1 s2 0 = None"
| "strncasecmp_loop m s1 s2 (Suc n) = do {
     a \<leftarrow> m s1; b \<leftarrow> m s2;
     let (c1, c2) = (if a = b then (uint a, uint b) else (tolower (uint a), tolower (uint b))) in
     if c1 \<noteq> c2 \<or> n = 0 then Some (c1 - c2) else strncasecmp_loop m (s1 + 1) (s2 + 1) n }"

definition strncasecmp :: "bmem \<Rightarrow> nat \<Rightarrow> nat \<Rightarrow> nat \<Rightarrow> int panicking" where
  "strncasecmp m s1 s2 mx = do { kassert (mx \<noteq> 0); strncasecmp_loop m s1 s2 mx }"

function reverse_loop :: "bmem \<Rightarrow> nat \<Rightarrow> nat \<Rightarrow> bmem panicking" where
  "reverse_loop m src dst =
     (if src < dst then do {
        tmp \<leftarrow> m src; x \<leftarrow> m dst;
        m1 \<leftarrow> st m src x; m2 \<leftarrow> st m1 dst tmp;
        reverse_loop m2 (src + 1) (dst - 1) }
      else Some m)"
  by pat_completeness auto
termination
  by (relation "measure (\<lambda>(m, src, dst). dst - src)") auto

declare reverse_loop.simps [simp del]

definition strreverse :: "bmem \<Rightarrow> nat \<Rightarrow> bmem panicking" where
  "strreverse m str = do {
     len \<leftarrow> strlen m str;
     if len < 1 then Some m else reverse_loop m str (str + len - 1) }"

text \<open>
  \<^verbatim>\<open>strdup\<close> and \<^verbatim>\<open>concat\<close> call \<^verbatim>\<open>kmalloc\<close>, which is an argument: it returns the memory with the
  new block and the address of the block.
\<close>

type_synonym allocator = "bmem \<Rightarrow> nat \<Rightarrow> bmem \<times> nat"

definition strdup :: "allocator \<Rightarrow> bmem \<Rightarrow> nat \<Rightarrow> (bmem \<times> nat) panicking" where
  "strdup kmalloc m s = do {
     len \<leftarrow> strlen m s;
     let (m1, cpy) = kmalloc m (len + 1);
     m2 \<leftarrow> memcpy m1 cpy s (len + 1);
     Some (m2, cpy) }"

definition concat_str :: "allocator \<Rightarrow> bmem \<Rightarrow> nat \<Rightarrow> nat \<Rightarrow> (bmem \<times> nat) panicking" where
  "concat_str kmalloc m str1 str2 = do {
     len1 \<leftarrow> strlen m str1;
     l2 \<leftarrow> strlen m str2;
     let len2 = l2 + 1;
     let (m1, out) = kmalloc m (len1 + len2);
     m2 \<leftarrow> memcpy m1 out str1 len1;
     m3 \<leftarrow> memcpy m2 (out + len1) str2 len2;
     Some (m3, out) }"

subsection \<open>Strings in memory\<close>

fun cstr :: "bmem \<Rightarrow> nat \<Rightarrow> u8 list \<Rightarrow> bool" where
  "cstr m p [] \<longleftrightarrow> m p = Some 0"
| "cstr m p (x # xs) \<longleftrightarrow> m p = Some x \<and> x \<noteq> 0 \<and> cstr m (p + 1) xs"

primrec wr :: "bmem \<Rightarrow> nat \<Rightarrow> u8 list \<Rightarrow> bmem" where
  "wr m p [] = m"
| "wr m p (x # xs) = wr (m(p \<mapsto> x)) (p + 1) xs"

lemma cstr_iff:
  "cstr m p xs \<longleftrightarrow> (\<forall>i < length xs. m (p + i) = Some (xs ! i)) \<and> m (p + length xs) = Some 0 \<and> 0 \<notin> set xs"
  by (induction xs arbitrary: p) (auto simp: nth_Cons less_Suc_eq_0_disj split: nat.splits)

lemma cstr_cong:
  assumes "\<And>i. i \<le> length xs \<Longrightarrow> m' (p + i) = m (p + i)"
  shows "cstr m' p xs = cstr m p xs"
  using assms by (simp add: cstr_iff)

lemma cstr_mapped: "cstr m p xs \<Longrightarrow> n \<le> length xs + 1 \<Longrightarrow> mapped m p n"
  by (auto simp: cstr_iff mapped_def) (metis add_diff_cancel_left' less_antisym not_Some_eq option.distinct(1) order_less_le_trans Suc_eq_plus1)

lemma cstr_drop: "cstr m p xs \<Longrightarrow> k \<le> length xs \<Longrightarrow> cstr m (p + k) (drop k xs)"
proof (induction k arbitrary: p xs)
  case (Suc k)
  then obtain x ys where "xs = x # ys" by (cases xs) auto
  with Suc.IH [of "p + 1" ys] Suc.prems show ?case by simp
qed simp

lemma cstr_unique: "cstr m p xs \<Longrightarrow> cstr m p ys \<Longrightarrow> xs = ys"
proof (induction xs arbitrary: p ys)
  case Nil
  then show ?case by (cases ys) auto
next
  case (Cons x xs)
  then show ?case by (cases ys) auto
qed

lemma wr_other: "q < p \<or> p + length xs \<le> q \<Longrightarrow> wr m p xs q = m q"
  by (induction xs arbitrary: m p) auto

lemma wr_at: "i < length xs \<Longrightarrow> wr m p xs (p + i) = Some (xs ! i)"
proof (induction xs arbitrary: m p i)
  case (Cons x xs)
  show ?case
  proof (cases i)
    case (Suc j)
    with Cons.IH [of j "m(p \<mapsto> x)" "Suc p"] Cons.prems show ?thesis by (simp add: fun_upd_def)
  qed (simp add: wr_other)
qed simp

lemma wr_append: "wr m p (xs @ ys) = wr (wr m p xs) (p + length xs) ys"
  by (induction xs arbitrary: m p) auto

lemma wr_upd: "q < p \<or> p + length xs \<le> q \<Longrightarrow> wr (m(q \<mapsto> v)) p xs = (wr m p xs)(q \<mapsto> v)"
  by (induction xs arbitrary: m p) (auto simp: fun_upd_twist)

lemma wr_mapped: "mapped m q n \<Longrightarrow> mapped (wr m p xs) q n"
proof (induction xs arbitrary: m p)
  case (Cons x xs)
  then have "mapped (m(p \<mapsto> x)) q n" by (simp add: mapped_def)
  then show ?case using Cons.IH by simp
qed simp

lemma cstr_wr: "0 \<notin> set xs \<Longrightarrow> cstr (wr m p (xs @ [0])) p xs"
  by (simp add: cstr_iff wr_at [of _ "xs @ [0]"] nth_append)

lemma mapped_Suc: "mapped m p (Suc n) \<longleftrightarrow> m p \<noteq> None \<and> mapped m (p + 1) n"
  by (auto simp: mapped_def less_Suc_eq_0_disj)

lemma mapped_upd: "mapped m q n \<Longrightarrow> mapped (m(p \<mapsto> v)) q n"
  by (simp add: mapped_def)

lemma cstr_upd: "q < p \<or> p + length xs < q \<Longrightarrow> cstr (m(q \<mapsto> v)) p xs = cstr m p xs"
  by (rule cstr_cong) auto

subsection \<open>What the functions compute\<close>

lemma str_end_run: "cstr m p xs \<Longrightarrow> str_end m p = Some (p + length xs)"
  by (induction xs arbitrary: p) (simp_all add: str_end.simps)

lemma strlen_run: "cstr m p xs \<Longrightarrow> strlen m p = Some (length xs)"
  by (simp add: strlen_def str_end_run)

lemma strnlen_loop_run:
  "cstr m (s + n) xs \<Longrightarrow> n \<le> mx \<Longrightarrow> strnlen_loop m s mx n = Some (min mx (n + length xs))"
proof (induction xs arbitrary: n)
  case Nil
  then show ?case by (simp add: strnlen_loop.simps min_def)
next
  case (Cons x xs)
  show ?case
  proof (cases "n < mx")
    case True
    with Cons have "strnlen_loop m s mx (n + 1) = Some (min mx (n + 1 + length xs))" by simp
    with True Cons.prems show ?thesis by (subst strnlen_loop.simps) simp
  next
    case False
    with Cons.prems show ?thesis by (subst strnlen_loop.simps) (simp add: min_def)
  qed
qed

lemma strnlen_run: "cstr m s xs \<Longrightarrow> 0 < mx \<Longrightarrow> strnlen m s mx = Some (min mx (length xs))"
  using strnlen_loop_run [of m s 0 xs mx] by (simp add: strnlen_def)

lemma str_copy_run:
  "cstr m s xs \<Longrightarrow> mapped m d (length xs + 1) \<Longrightarrow> d \<le> s \<or> s + length xs < d \<Longrightarrow>
   str_copy m d s = Some (wr m d (xs @ [0]))"
proof (induction xs arbitrary: m d s)
  case Nil
  then show ?case by (simp add: str_copy.simps [of m] st_def mapped_Suc fun_upd_def)
next
  case (Cons x xs)
  have c: "cstr (m(d \<mapsto> x)) (s + 1) xs" using Cons.prems by (auto simp: cstr_upd)
  have mp: "mapped (m(d \<mapsto> x)) (d + 1) (length xs + 1)"
    using Cons.prems(2) by (auto simp: mapped_Suc intro: mapped_upd)
  have "str_copy (m(d \<mapsto> x)) (d + 1) (s + 1) = Some (wr (m(d \<mapsto> x)) (d + 1) (xs @ [0]))"
    using Cons.prems(3) by (intro Cons.IH [OF c mp]) auto
  then show ?case using Cons.prems by (simp add: str_copy.simps [of m] st_def mapped_Suc fun_upd_def)
qed

lemma strcmp_run:
  "cstr m p xs \<Longrightarrow> cstr m q ys \<Longrightarrow>
   strcmp m p q = Some (if xs = ys then 0 else if ord_class.lexordp xs ys then - 1 else 1)"
proof (induction xs arbitrary: p q ys)
  case Nil
  then show ?case by (cases ys) (auto simp: strcmp.simps [of m] word_neq_0_conv)
next
  case (Cons x xs)
  show ?case
  proof (cases ys)
    case Nil
    with Cons.prems show ?thesis by (simp add: strcmp.simps [of m])
  next
    case (Cons y zs)
    with Cons.prems Cons.IH [of "p + 1" "q + 1" zs] show ?thesis
      by (auto simp: strcmp.simps [of m])
  qed
qed

lemma strlcpy_loop_run:
  "cstr m s xs \<Longrightarrow> mapped m d (min (Suc k) (length xs + 1)) \<Longrightarrow> d + k < s \<or> s + length xs < d \<Longrightarrow>
   strlcpy_loop m d s (Suc k) =
     (if length xs < k then Some (wr m d (xs @ [0]), d + length xs + 1, s + length xs + 1, k - length xs)
      else Some (wr m d (take k xs), d + k, s + k, 0))"
proof (induction k arbitrary: m s d xs)
  case 0
  then show ?case by simp
next
  case (Suc k)
  show ?case
  proof (cases xs)
    case Nil
    with Suc.prems show ?thesis by (simp add: st_def mapped_Suc)
  next
    case (Cons x zs)
    have c: "cstr (m(d \<mapsto> x)) (s + 1) zs" using Suc.prems Cons by (auto simp: cstr_upd)
    have mp: "mapped (m(d \<mapsto> x)) (d + 1) (min (Suc k) (length zs + 1))"
      using Suc.prems(2) Cons by (auto simp: mapped_Suc intro: mapped_upd)
    from Suc.IH [OF c mp] Suc.prems Cons show ?thesis
      by (auto simp: st_def mapped_Suc fun_upd_def)
  qed
qed

lemma strlcpy_run:
  assumes "cstr m s xs" "0 < mx" "mapped m d (min mx (length xs + 1))" "d + mx \<le> s \<or> s + length xs < d"
  shows "strlcpy m d s mx = Some (wr m d (take (mx - 1) xs @ [0]), length xs)"
proof -
  obtain k where k: "mx = Suc k" using assms(2) by (cases mx) auto
  have loop: "strlcpy_loop m d s mx =
     (if length xs < k then Some (wr m d (xs @ [0]), d + length xs + 1, s + length xs + 1, k - length xs)
      else Some (wr m d (take k xs), d + k, s + k, 0))"
    using strlcpy_loop_run [OF assms(1), of d k] assms(3,4) k by auto
  show ?thesis
  proof (cases "length xs < k")
    case True
    with loop k show ?thesis by (simp add: strlcpy_def)
  next
    case False
    let ?m1 = "wr m d (take k xs)" and ?m2 = "wr m d (take k xs @ [0])"
    have "?m1 (d + k) \<noteq> None" using assms(3) False k by (auto simp: wr_other mapped_def min_def split: if_splits)
    then have st: "st ?m1 (d + k) 0 = Some ?m2" using False by (simp add: st_def wr_append)
    have "cstr m (s + k) (drop k xs)" using assms(1) False by (intro cstr_drop) auto
    moreover have "cstr ?m2 (s + k) (drop k xs) = cstr m (s + k) (drop k xs)"
      using assms(4) False k by (intro cstr_cong wr_other) auto
    ultimately have "str_end ?m2 (s + k) = Some (s + length xs)"
      using str_end_run [of ?m2 "s + k" "drop k xs"] False by simp
    with loop st False k show ?thesis by (simp add: strlcpy_def)
  qed
qed

lemma reverse_loop_run:
  "xs \<noteq> [] \<Longrightarrow> (\<forall>i < length xs. m (p + i) = Some (xs ! i)) \<Longrightarrow>
   reverse_loop m p (p + length xs - 1) = Some (wr m p (rev xs))"
proof (induction "length xs" arbitrary: m p xs rule: less_induct)
  case less
  obtain a ys where xs: "xs = a # ys" using less.prems(1) by (cases xs) auto
  show ?case
  proof (cases ys rule: rev_cases)
    case Nil
    with less.prems(2) xs have "m(p \<mapsto> a) = m" by (auto simp: fun_eq_iff)
    with Nil xs show ?thesis by (subst reverse_loop.simps) simp
  next
    case (snoc mid b)
    let ?q = "p + 1 + length mid" and ?m = "m(p \<mapsto> b)"
    let ?m2 = "?m(?q \<mapsto> a)"
    have ab: "m p = Some a" "m ?q = Some b"
      using less.prems(2) [rule_format, of 0] less.prems(2) [rule_format, of "1 + length mid"]
        xs snoc by (simp_all add: nth_append)
    have step: "reverse_loop m p (p + length xs - 1) = reverse_loop ?m2 (p + 1) (p + length mid)"
      using ab xs snoc by (subst reverse_loop.simps) (simp add: st_def)
    have "\<forall>i < length mid. ?m2 (p + 1 + i) = Some (mid ! i)"
    proof (intro allI impI)
      fix i assume i: "i < length mid"
      then show "?m2 (p + 1 + i) = Some (mid ! i)"
        using less.prems(2) [rule_format, of "Suc i"] xs snoc by (simp add: nth_append)
    qed
    then have "reverse_loop ?m2 (p + 1) (p + length mid) = Some (wr ?m2 (p + 1) (rev mid))"
      using less.hyps [of mid ?m2 "p + 1"] xs snoc
      by (cases "mid = []") (auto simp: reverse_loop.simps)
    also have "wr ?m2 (p + 1) (rev mid) = (wr ?m (p + 1) (rev mid))(?q \<mapsto> a)"
      by (rule wr_upd) simp
    also have "\<dots> = wr m p (rev xs)" using xs snoc by (simp add: wr_append)
    finally show ?thesis unfolding step .
  qed
qed

lemma strreverse_run:
  assumes "cstr m p xs"
  shows "strreverse m p = Some (wr m p (rev xs))"
  using assms reverse_loop_run [of xs m p] strlen_run [OF assms]
  by (cases "xs = []") (auto simp: strreverse_def cstr_iff Suc_le_eq)

lemma strcat_run:
  assumes "cstr m d xs" "cstr m s ys" "mapped m d (length xs + length ys + 1)"
    "d + length xs \<le> s \<or> s + length ys < d + length xs"
  shows "strcat m d s = Some (wr m (d + length xs) (ys @ [0]))"
proof -
  have "mapped m (d + length xs) (length ys + 1)"
    by (rule mapped_sub [OF assms(3)]) simp_all
  from str_copy_run [OF assms(2) this assms(4)] show ?thesis
    using str_end_run [OF assms(1)] by (simp add: strcat_def)
qed

text \<open>What the callers of \<^verbatim>\<open>kmalloc\<close> rely on: a mapped block that was not in use before.\<close>

definition fresh_alloc :: "allocator \<Rightarrow> bmem \<Rightarrow> nat \<Rightarrow> bool" where
  "fresh_alloc kmalloc m n \<longleftrightarrow> (case kmalloc m n of (m1, a) \<Rightarrow>
     mapped m1 a n \<and> (\<forall>i < n. m (a + i) = None) \<and> (\<forall>q. m q \<noteq> None \<longrightarrow> m1 q = m q))"

lemma cstr_dom: "cstr m p xs \<Longrightarrow> i \<le> length xs \<Longrightarrow> m (p + i) \<noteq> None"
  using cstr_mapped [of m p xs "length xs + 1"] by (simp add: mapped_def less_Suc_eq_le)

lemma fresh_disjoint:
  assumes "fresh_alloc kmalloc m n" "kmalloc m n = (m1, a)" "cstr m s xs" "0 < n"
  shows "a + n \<le> s \<or> s + length xs < a"
proof (rule ccontr)
  assume "\<not> ?thesis"
  then have "s - a < n" "a - s \<le> length xs" "a + (s - a) = s + (a - s)" using assms(4) by auto
  then obtain i j where ij: "i < n" "j \<le> length xs" "a + i = s + j" by blast
  with assms(1,2) have "m (s + j) = None" unfolding fresh_alloc_def by (metis (mono_tags, lifting) case_prodD)
  with cstr_dom [OF assms(3) ij(2)] show False by simp
qed

lemma fresh_keeps_cstr:
  assumes "fresh_alloc kmalloc m n" "kmalloc m n = (m1, a)" "cstr m s xs"
  shows "cstr m1 s xs"
  using assms(1,2) cstr_dom [OF assms(3)] cstr_cong [of xs m1 s m] assms(3)
  by (auto simp: fresh_alloc_def)

lemma cstr_copied:
  assumes "cstr m s xs" "d + length xs < s \<or> s + length xs < d"
  shows "cstr (copied m d s (length xs + 1)) d xs"
  using assms by (simp add: cstr_iff copied_def)

lemma cstr_copied_other:
  assumes "cstr m q xs" "d + n \<le> q \<or> q + length xs < d"
  shows "cstr (copied m d s n) q xs"
  using assms by (subst cstr_cong [of xs _ q m]) (auto simp: copied_def)

lemma cstr_append:
  assumes "\<And>i. i < length xs \<Longrightarrow> m (p + i) = Some (xs ! i)" "0 \<notin> set xs" "cstr m (p + length xs) ys"
  shows "cstr m p (xs @ ys)"
  using assms(3) assms(2) assms(1)
proof (induction xs arbitrary: p)
  case (Cons x xs)
  have "cstr m (p + 1) (xs @ ys)"
    using Cons.prems(3) [of "Suc _"] Cons.prems(1,2) by (intro Cons.IH) auto
  with Cons.prems(2) Cons.prems(3) [of 0] show ?case by simp
qed simp

lemma strdup_run:
  assumes "cstr m s xs" "fresh_alloc kmalloc m (length xs + 1)"
  shows "\<exists>m' a. strdup kmalloc m s = Some (m', a) \<and> cstr m' a xs \<and> cstr m' s xs"
proof -
  obtain m1 a where k: "kmalloc m (length xs + 1) = (m1, a)" by fastforce
  note dis = fresh_disjoint [OF assms(2) k assms(1), simplified]
  have c1: "cstr m1 s xs" by (rule fresh_keeps_cstr [OF assms(2) k assms(1)])
  have "mapped m1 a (length xs + 1)" using assms(2) k by (simp add: fresh_alloc_def)
  with c1 dis have "memcpy m1 a s (length xs + 1) = Some (copied m1 a s (length xs + 1))"
    by (intro memcpy_run cstr_mapped [OF c1]) auto
  moreover have "cstr (copied m1 a s (length xs + 1)) a xs" using c1 dis by (intro cstr_copied) auto
  moreover have "cstr (copied m1 a s (length xs + 1)) s xs" using c1 dis by (intro cstr_copied_other) auto
  ultimately show ?thesis using strlen_run [OF assms(1)] k by (simp add: strdup_def)
qed

lemma concat_run:
  assumes "cstr m s xs" "cstr m t ys" "fresh_alloc kmalloc m (length xs + (length ys + 1))"
  shows "\<exists>m' a. concat_str kmalloc m s t = Some (m', a) \<and> cstr m' a (xs @ ys) \<and>
    (\<forall>i \<le> length (xs @ ys). m (a + i) = None) \<and> (\<forall>q. m q \<noteq> None \<longrightarrow> m' q = m q) \<and>
    cstr m' s xs \<and> cstr m' t ys"
proof -
  let ?n = "length xs" and ?k = "length ys + 1"
  obtain m1 a where k: "kmalloc m (?n + ?k) = (m1, a)" by fastforce
  note ds = fresh_disjoint [OF assms(3) k assms(1), simplified] and dt = fresh_disjoint [OF assms(3) k assms(2), simplified]
  note c1 = fresh_keeps_cstr [OF assms(3) k assms(1)] fresh_keeps_cstr [OF assms(3) k assms(2)]
  have mp: "mapped m1 a (?n + ?k)" using assms(3) k by (simp add: fresh_alloc_def)
  let ?m2 = "copied m1 a s ?n"
  let ?m3 = "copied ?m2 (a + ?n) t ?k"
  have a1: "memcpy m1 a s ?n = Some ?m2"
    using ds by (intro memcpy_run cstr_mapped [OF c1(1)] mapped_sub [OF mp]) auto
  have c2: "cstr ?m2 s xs" "cstr ?m2 t ys" using c1 ds dt by (auto intro!: cstr_copied_other)
  have "mapped ?m2 (a + ?n) ?k"
    by (rule copied_keeps [OF cstr_mapped [OF c1(1)] mapped_sub [OF mp]]) simp_all
  then have a2: "memcpy ?m2 (a + ?n) t ?k = Some ?m3"
    using dt by (intro memcpy_run cstr_mapped [OF c2(2)]) auto
  have c3: "cstr ?m3 s xs" "cstr ?m3 t ys" using c2 ds dt by (auto intro!: cstr_copied_other)
  have "cstr ?m3 (a + ?n) ys" using c2(2) dt by (intro cstr_copied) auto
  moreover have "?m3 (a + i) = Some (xs ! i)" if "i < ?n" for i
    using that c1(1) by (simp add: copied_def cstr_iff)
  moreover have "0 \<notin> set xs" using assms(1) by (simp add: cstr_iff)
  ultimately have "cstr ?m3 a (xs @ ys)" by (intro cstr_append) auto
  moreover have new: "\<forall>i < ?n + ?k. m (a + i) = None" and old: "\<forall>q. m q \<noteq> None \<longrightarrow> m1 q = m q"
    using assms(3) k by (simp_all add: fresh_alloc_def)
  moreover have "?m3 q = m q" if "m q \<noteq> None" for q
  proof -
    have "\<not> (a \<le> q \<and> q < a + (?n + ?k))"
      using new that by (metis le_add_diff_inverse nat_add_left_cancel_less)
    then have "?m3 q = m1 q" by (auto simp: copied_def)
    with old that show ?thesis by simp
  qed
  ultimately show ?thesis
    using a1 a2 c3 strlen_run [OF assms(1)] strlen_run [OF assms(2)] k
    by (auto simp: concat_str_def less_Suc_eq_le)
qed

text \<open>\<^verbatim>\<open>strncat\<close> only writes behind the terminator of the destination.\<close>

lemma strncat_loop_above:
  "strncat_loop m d s n = Some (m', e) \<Longrightarrow> d \<le> e \<and> (\<forall>q < d. m' q = m q)"
proof (induction n arbitrary: m d s)
  case (Suc n)
  from Suc.prems obtain c m1 where c: "m s = Some c" "st m d c = Some m1"
    "(if c = 0 then Some (m1, d) else strncat_loop m1 (d + 1) (s + 1) n) = Some (m', e)"
    by (auto simp: bind_eq_Some_conv)
  have m1: "\<forall>q < d. m1 q = m q" using c(2) by (auto simp: st_def split: if_splits)
  show ?case
  proof (cases "c = 0")
    case True
    with c(3) m1 show ?thesis by simp
  next
    case False
    with c(3) Suc.IH [of m1 "d + 1" "s + 1"] m1 show ?thesis by simp
  qed
qed simp

lemma strncat_keeps_dst:
  assumes "cstr m d xs" "strncat m d s mx = Some m'"
  shows "cstr m' d xs"
proof -
  from assms str_end_run [OF assms(1)] obtain m1 e where
    l: "strncat_loop m (d + length xs + 1) s mx = Some (m1, e)" "st m1 e 0 = Some m'"
    by (auto simp: strncat_def bind_eq_Some_conv)
  from strncat_loop_above [OF l(1)] l(2) have "\<And>i. i \<le> length xs \<Longrightarrow> m' (d + i) = m (d + i)"
    by (auto simp: st_def split: if_splits)
  with assms(1) show ?thesis by (subst cstr_cong [of xs m' d m]) auto
qed

subsection \<open>Properties\<close>

text \<open>C10. On two strings in memory \<^verbatim>\<open>strcmp\<close> ends and returns 0, a negative or a positive number
  as the first is equal to, before or after the second in the lexicographic order of
  unsigned bytes.\<close>

theorem strcmp_lexicographic:
  assumes "cstr m p xs" "cstr m q ys"
  shows "\<exists>r. strcmp m p q = Some r \<and> (r = 0 \<longleftrightarrow> xs = ys) \<and> (r < 0 \<longleftrightarrow> ord_class.lexordp xs ys)"
  using strcmp_run [OF assms] lexordp_irreflexive' [of xs] by auto

definition two_strings :: bmem where
  "two_strings = wr (wr (\<lambda>p. if p < 32 then Some 7 else None) 0 [97, 200, 0]) 8 [97, 98, 99, 0]"

lemma two_strings_cstr: "cstr two_strings 0 [97, 200]" "cstr two_strings 8 [97, 98, 99]"
  by (simp_all add: two_strings_def)

theorem strcmp_lexicographic_witness: "\<exists>r. strcmp two_strings 0 8 = Some r \<and> r > 0"
proof -
  from strcmp_lexicographic [OF two_strings_cstr] obtain r where
    "strcmp two_strings 0 8 = Some r" "r \<noteq> 0" "\<not> r < 0"
    by (auto simp: word_less_nat_alt)
  then show ?thesis by (intro exI [of _ r]) simp
qed

text \<open>C11. \<^verbatim>\<open>strlcpy\<close> returns the length of the source, leaves in the destination the longest
  prefix of it that fits together with the terminator, and writes nothing outside the
  \<^verbatim>\<open>max\<close> bytes of the destination.\<close>

theorem strlcpy_correct:
  assumes "cstr m s xs" "0 < mx" "mapped m d (min mx (length xs + 1))" "d + mx \<le> s \<or> s + length xs < d"
  shows "\<exists>m'. strlcpy m d s mx = Some (m', length xs) \<and> cstr m' d (take (mx - 1) xs) \<and>
    cstr m' s xs \<and> (\<forall>p. p < d \<or> d + mx \<le> p \<longrightarrow> m' p = m p)"
proof -
  let ?m = "wr m d (take (mx - 1) xs @ [0])"
  have "0 \<notin> set (take (mx - 1) xs)" using assms(1) by (auto simp: cstr_iff dest: in_set_takeD)
  then have "cstr ?m d (take (mx - 1) xs)" by (rule cstr_wr)
  moreover have "cstr ?m s xs"
    using assms by (subst cstr_cong [of xs _ s m]) (auto intro!: wr_other)
  moreover have "\<forall>p. p < d \<or> d + mx \<le> p \<longrightarrow> ?m p = m p" using assms(2) by (auto intro!: wr_other)
  ultimately show ?thesis using strlcpy_run [OF assms] by blast
qed

theorem strlcpy_correct_witness:
  "\<exists>m'. strlcpy two_strings 16 8 3 = Some (m', 3) \<and> cstr m' 16 [97, 98] \<and> m' 19 = Some 7"
proof -
  have "mapped two_strings 16 3" by (simp add: mapped_def two_strings_def)
  with strlcpy_correct [OF two_strings_cstr(2), of 3 16] obtain m' where
    m': "strlcpy two_strings 16 8 3 = Some (m', 3)" "cstr m' 16 [97, 98]"
    "\<forall>p. p < 16 \<or> 16 + 3 \<le> p \<longrightarrow> m' p = two_strings p"
    by (auto simp: eval_nat_numeral)
  moreover have "two_strings 19 = Some 7" by (simp add: two_strings_def)
  ultimately show ?thesis by auto
qed

text \<open>C12. \<^verbatim>\<open>strreverse\<close> ends, turns the string into its reversal and changes no other byte;
  applied twice it restores the memory.\<close>

theorem strreverse_involution:
  assumes "cstr m p xs"
  shows "\<exists>m'. strreverse m p = Some m' \<and> cstr m' p (rev xs) \<and>
    (\<forall>q. q < p \<or> p + length xs \<le> q \<longrightarrow> m' q = m q) \<and> strreverse m' p = Some m"
proof -
  let ?m = "wr m p (rev xs)"
  have c: "cstr ?m p (rev xs)"
    using assms wr_at [of _ "rev xs" m p] by (simp add: cstr_iff wr_other)
  have "wr ?m p xs = m"
  proof
    fix q
    show "wr ?m p xs q = m q"
    proof (cases "q < p \<or> p + length xs \<le> q")
      case True
      then show ?thesis by (simp add: wr_other)
    next
      case False
      then have "q = p + (q - p)" "q - p < length xs" by auto
      with wr_at [of "q - p" xs ?m p] assms show ?thesis by (metis cstr_iff)
    qed
  qed
  with strreverse_run [OF assms] strreverse_run [OF c] c show ?thesis
    by (auto simp: wr_other)
qed

theorem strreverse_involution_witness:
  "\<exists>m'. strreverse two_strings 8 = Some m' \<and> cstr m' 8 [99, 98, 97] \<and> strreverse m' 8 = Some two_strings"
  using strreverse_involution [OF two_strings_cstr(2)] by auto

text \<open>C13. If \<^verbatim>\<open>kmalloc\<close> returns an unused block, \<^verbatim>\<open>concat\<close> ends and returns a string that is the
  first argument followed by the second. The string is new: no byte of it, its terminator
  included, is at an address that was in use, and all memory that was in use, the arguments
  among it, keeps its contents.\<close>

theorem concat_correct:
  assumes "cstr m s xs" "cstr m t ys" "fresh_alloc kmalloc m (length xs + (length ys + 1))"
  shows "\<exists>m' a. concat_str kmalloc m s t = Some (m', a) \<and> cstr m' a (xs @ ys) \<and>
    (\<forall>i \<le> length (xs @ ys). m (a + i) = None) \<and> (\<forall>q. m q \<noteq> None \<longrightarrow> m' q = m q) \<and>
    cstr m' s xs \<and> cstr m' t ys"
  using assms by (rule concat_run)

definition bump_alloc :: allocator where
  "bump_alloc m n = ((\<lambda>p. if 32 \<le> p \<and> p < 32 + n then Some 0 else m p), 32)"

theorem concat_correct_witness:
  "\<exists>m' a. concat_str bump_alloc two_strings 0 8 = Some (m', a) \<and> cstr m' a [97, 200, 97, 98, 99] \<and>
     two_strings a = None \<and> cstr m' 8 [97, 98, 99]"
proof -
  have dom: "p < 32" if "two_strings p \<noteq> None" for p
    using that by (auto simp: two_strings_def split: if_splits)
  have "fresh_alloc bump_alloc two_strings (length [97, 200 :: u8] + (length [97, 98, 99 :: u8] + 1))"
    using dom by (force simp: fresh_alloc_def bump_alloc_def mapped_def)
  from concat_correct [OF two_strings_cstr this] show ?thesis by (fastforce dest: spec [of _ 0])
qed

end
