(* ===== verification/Snprintf.thy ===== *)
theory Snprintf
  imports Strings
begin

text \<open>
  Formatted output, \<^verbatim>\<open>src/kernel/lib/snprintf.c\<close>: the state machine of \<^verbatim>\<open>vsnprintf\<close> with its
  states \<^verbatim>\<open>DP_S_*\<close>, the conversions \<^verbatim>\<open>fmtint\<close> and \<^verbatim>\<open>fmtstr\<close>, and the allocating wrappers.
  Buffer, format and string arguments live in one byte memory and may overlap. The variable
  arguments are a list of typed values; reading one at another type is \<open>None\<close>, as is signed
  overflow of a width or precision. Lengths are 32 bit words and wrap.
\<close>

subsection \<open>Model\<close>

definition VM_IS_KERN :: "nat \<Rightarrow> bool" where
  "VM_IS_KERN addr \<longleftrightarrow> addr \<ge> 0xC0000000 \<and> addr \<le> 0xFFFFFFFF"

definition asc :: "char \<Rightarrow> u8" where
  "asc c = of_char c"

definition cint :: "int \<Rightarrow> int panicking" where
  "cint i = (if - (2 ^ 31) \<le> i \<and> i < 2 ^ 31 then Some i else None)"

datatype dp_state = DP_S_DEFAULT | DP_S_FLAGS | DP_S_MIN | DP_S_DOT | DP_S_MAX | DP_S_MOD
  | DP_S_CONV | DP_S_DONE

datatype dp_cflags = DP_C_NONE | DP_C_SHORT | DP_C_LONG | DP_C_LDOUBLE | DP_C_LLONG

record dp_flags =
  F_MINUS :: bool
  F_PLUS :: bool
  F_SPACE :: bool
  F_NUM :: bool
  F_ZERO :: bool
  F_UP :: bool
  F_UNSIGNED :: bool

definition no_flags :: dp_flags where
  "no_flags = \<lparr> F_MINUS = False, F_PLUS = False, F_SPACE = False, F_NUM = False, F_ZERO = False,
     F_UP = False, F_UNSIGNED = False \<rparr>"

text \<open>The memory and \<^verbatim>\<open>currlen\<close>.\<close>

type_synonym out = "bmem \<times> u32"

definition dopr_outch :: "nat \<Rightarrow> u32 \<Rightarrow> u8 \<Rightarrow> out \<Rightarrow> out panicking" where
  "dopr_outch buffer maxlen c out = (case out of (m, currlen) \<Rightarrow> do {
     m' \<leftarrow> (if currlen < maxlen then st m (buffer + unat currlen) c else Some m);
     Some (m', currlen + 1) })"

text \<open>A string argument: a literal of the kernel image or an address.\<close>

datatype strv = Lit "u8 list" | At nat

fun str_rd :: "bmem \<Rightarrow> strv \<Rightarrow> nat \<Rightarrow> u8 panicking" where
  "str_rd m (At p) i = m (p + i)"
| "str_rd m (Lit xs) i = (if i < length xs then Some (xs ! i) else if i = length xs then Some 0 else None)"

partial_function (option) strv_len :: "bmem \<Rightarrow> strv \<Rightarrow> nat \<Rightarrow> nat panicking" where
  [code]: "strv_len m v i = do { c \<leftarrow> str_rd m v i; if c = 0 then Some i else strv_len m v (i + 1) }"

text \<open>The padding loops of \<^verbatim>\<open>fmtstr\<close>; the second one counts up to zero, here its negation counts down.\<close>

function fmtstr_pad :: "nat \<Rightarrow> u32 \<Rightarrow> int \<Rightarrow> int \<Rightarrow> int \<Rightarrow> out \<Rightarrow> (out \<times> int) panicking" where
  "fmtstr_pad buffer maxlen padlen cnt mx out =
     (if padlen > 0 \<and> cnt < mx then do {
        out' \<leftarrow> dopr_outch buffer maxlen (asc CHR '' '') out;
        fmtstr_pad buffer maxlen (padlen - 1) (cnt + 1) mx out' }
      else Some (out, cnt))"
  by pat_completeness auto
termination
  by (relation "measure (\<lambda>(b, l, padlen, cnt, mx, out). nat padlen)") auto

function fmtstr_value :: "nat \<Rightarrow> u32 \<Rightarrow> strv \<Rightarrow> nat \<Rightarrow> int \<Rightarrow> int \<Rightarrow> out \<Rightarrow> (out \<times> int) panicking" where
  "fmtstr_value buffer maxlen v i cnt mx out = do {
     c \<leftarrow> str_rd (fst out) v i;
     if c \<noteq> 0 \<and> cnt < mx then do {
       out' \<leftarrow> dopr_outch buffer maxlen c out;
       fmtstr_value buffer maxlen v (i + 1) (cnt + 1) mx out' }
     else Some (out, cnt) }"
  by pat_completeness auto
termination
  by (relation "measure (\<lambda>(b, l, v, i, cnt, mx, out). nat (mx - cnt))") auto

declare fmtstr_pad.simps [simp del] fmtstr_value.simps [simp del]

definition fmtstr :: "nat \<Rightarrow> u32 \<Rightarrow> strv \<Rightarrow> dp_flags \<Rightarrow> int \<Rightarrow> int \<Rightarrow> out \<Rightarrow> out panicking" where
  "fmtstr buffer maxlen value0 flags mn mx out = do {
     let value = (if value0 = At 0 then Lit (map asc ''<NULL>'') else value0);
     strln \<leftarrow> strv_len (fst out) value 0;
     d \<leftarrow> cint (mn - int strln);
     let padlen = (if d < 0 then 0 else d);
     let padlen = (if F_MINUS flags then - padlen else padlen);
     (out, cnt) \<leftarrow> fmtstr_pad buffer maxlen padlen 0 mx out;
     (out, cnt) \<leftarrow> fmtstr_value buffer maxlen value 0 cnt mx out;
     (out, cnt) \<leftarrow> fmtstr_pad buffer maxlen (if padlen < 0 then - padlen else 0) cnt mx out;
     Some out }"

definition dp_digit :: "bool \<Rightarrow> nat \<Rightarrow> u8" where
  "dp_digit caps d = map asc (if caps then ''0123456789ABCDEF'' else ''0123456789abcdef'') ! d"

text \<open>The digits stored into \<^verbatim>\<open>convert\<close>, the least significant one first.\<close>

function fmt_convert :: "nat \<Rightarrow> bool \<Rightarrow> nat \<Rightarrow> nat \<Rightarrow> u8 list" where
  "fmt_convert base caps uvalue place =
     dp_digit caps (uvalue mod base) #
     (if uvalue div base \<noteq> 0 \<and> place + 1 < 20 then fmt_convert base caps (uvalue div base) (place + 1) else [])"
  by pat_completeness auto
termination
  by (relation "measure (\<lambda>(base, caps, uvalue, place). 20 - place)") auto

declare fmt_convert.simps [simp del]

fun outch_n :: "nat \<Rightarrow> u32 \<Rightarrow> nat \<Rightarrow> u8 \<Rightarrow> out \<Rightarrow> out panicking" where
  "outch_n buffer maxlen 0 c out = Some out"
| "outch_n buffer maxlen (Suc n) c out = do {
     out' \<leftarrow> dopr_outch buffer maxlen c out; outch_n buffer maxlen n c out' }"

fun outch_digits :: "nat \<Rightarrow> u32 \<Rightarrow> u8 list \<Rightarrow> nat \<Rightarrow> out \<Rightarrow> out panicking" where
  "outch_digits buffer maxlen convert 0 out = Some out"
| "outch_digits buffer maxlen convert (Suc place) out = do {
     out' \<leftarrow> dopr_outch buffer maxlen (convert ! place) out;
     outch_digits buffer maxlen convert place out' }"

definition fmt_sign :: "u64 \<Rightarrow> dp_flags \<Rightarrow> u8 option" where
  "fmt_sign value flags =
     (if F_UNSIGNED flags then None
      else if sint value < 0 then Some (asc CHR ''-'')
      else if F_PLUS flags then Some (asc CHR ''+'')
      else if F_SPACE flags then Some (asc CHR '' '')
      else None)"

text \<open>
  The negation of the least \<^verbatim>\<open>long long\<close> is an overflow in the source; here it has the two's
  complement result.
\<close>

definition fmtint :: "nat \<Rightarrow> u32 \<Rightarrow> u64 \<Rightarrow> nat \<Rightarrow> int \<Rightarrow> int \<Rightarrow> dp_flags \<Rightarrow> out \<Rightarrow> out panicking" where
  "fmtint buffer maxlen value base mn mx0 flags out = do {
     let mx = (if mx0 < 0 then 0 else mx0);
     let signvalue = fmt_sign value flags;
     let uvalue = (if \<not> F_UNSIGNED flags \<and> sint value < 0 then - value else value);
     let convert = fmt_convert base (F_UP flags) (unat uvalue) 0;
     let place = (if length convert = 20 then length convert - 1 else length convert);
     let zpadlen = mx - int place;
     spadlen \<leftarrow> cint (mn - max mx (int place) - (if signvalue \<noteq> None then 1 else 0));
     let zpadlen = (if zpadlen < 0 then 0 else zpadlen);
     let spadlen = (if spadlen < 0 then 0 else spadlen);
     let zpadlen' = (if F_ZERO flags then max zpadlen spadlen else zpadlen);
     let spadlen' = (if F_ZERO flags then 0 else spadlen);
     let spadlen'' = (if F_MINUS flags then - spadlen' else spadlen');
     out \<leftarrow> outch_n buffer maxlen (nat spadlen'') (asc CHR '' '') out;
     out \<leftarrow> (case signvalue of None \<Rightarrow> Some out | Some c \<Rightarrow> dopr_outch buffer maxlen c out);
     out \<leftarrow> outch_n buffer maxlen (nat zpadlen') (asc CHR ''0'') out;
     out \<leftarrow> outch_digits buffer maxlen convert place out;
     outch_n buffer maxlen (nat (- spadlen'')) (asc CHR '' '') out }"

datatype va = VInt u32 | VLong u32 | VLLong u64 | VPtr nat

fun va_int :: "va list \<Rightarrow> (u32 \<times> va list) panicking" where
  "va_int (VInt i # args) = Some (i, args)"
| "va_int _ = None"

fun va_ptr :: "va list \<Rightarrow> (nat \<times> va list) panicking" where
  "va_ptr (VPtr p # args) = Some (p, args)"
| "va_ptr _ = None"

text \<open>
  The value of an integer conversion as \<^verbatim>\<open>long long\<close>: signed arguments are sign extended,
  unsigned ones zero extended.
\<close>

fun va_value :: "dp_cflags \<Rightarrow> bool \<Rightarrow> va list \<Rightarrow> (u64 \<times> va list) panicking" where
  "va_value DP_C_LONG sg (VLong i # args) = Some (if sg then scast i else ucast i, args)"
| "va_value DP_C_LLONG sg (VLLong i # args) = Some (i, args)"
| "va_value cf sg (VInt i # args) =
     (if cf = DP_C_LONG \<or> cf = DP_C_LLONG then None else Some (if sg then scast i else ucast i, args))"
| "va_value cf sg _ = None"

record vsn =
  v_state :: dp_state
  v_ch :: u8
  v_format :: nat
  v_args :: "va list"
  v_min :: int
  v_max :: int
  v_flags :: dp_flags
  v_cflags :: dp_cflags
  v_out :: out

definition next_ch :: "vsn \<Rightarrow> vsn panicking" where
  "next_ch v = do { c \<leftarrow> fst (v_out v) (v_format v); Some (v\<lparr>v_ch := c, v_format := v_format v + 1\<rparr>) }"

definition dp_default :: "nat \<Rightarrow> u32 \<Rightarrow> vsn \<Rightarrow> vsn panicking" where
  "dp_default buffer maxlen v =
     (if v_ch v = asc CHR ''%'' then next_ch (v\<lparr>v_state := DP_S_FLAGS\<rparr>)
      else do { out \<leftarrow> dopr_outch buffer maxlen (v_ch v) (v_out v); next_ch (v\<lparr>v_out := out\<rparr>) })"

definition dp_flags_step :: "vsn \<Rightarrow> vsn panicking" where
  "dp_flags_step v =
     (if v_ch v = asc CHR ''-'' then next_ch (v\<lparr>v_flags := (v_flags v)\<lparr>F_MINUS := True\<rparr>\<rparr>)
      else if v_ch v = asc CHR ''+'' then next_ch (v\<lparr>v_flags := (v_flags v)\<lparr>F_PLUS := True\<rparr>\<rparr>)
      else if v_ch v = asc CHR '' '' then next_ch (v\<lparr>v_flags := (v_flags v)\<lparr>F_SPACE := True\<rparr>\<rparr>)
      else if v_ch v = asc CHR ''#'' then next_ch (v\<lparr>v_flags := (v_flags v)\<lparr>F_NUM := True\<rparr>\<rparr>)
      else if v_ch v = asc CHR ''0'' then next_ch (v\<lparr>v_flags := (v_flags v)\<lparr>F_ZERO := True\<rparr>\<rparr>)
      else Some (v\<lparr>v_state := DP_S_MIN\<rparr>))"

definition char_to_int :: "u8 \<Rightarrow> int" where
  "char_to_int c = uint c - 48"

definition dp_min :: "vsn \<Rightarrow> vsn panicking" where
  "dp_min v =
     (if isdigit (uint (v_ch v)) then do {
        mn \<leftarrow> cint (10 * v_min v + char_to_int (v_ch v));
        next_ch (v\<lparr>v_min := mn\<rparr>) }
      else if v_ch v = asc CHR ''*'' then do {
        (i, args) \<leftarrow> va_int (v_args v);
        next_ch (v\<lparr>v_min := sint i, v_args := args, v_state := DP_S_DOT\<rparr>) }
      else Some (v\<lparr>v_state := DP_S_DOT\<rparr>))"

definition dp_dot :: "vsn \<Rightarrow> vsn panicking" where
  "dp_dot v =
     (if v_ch v = asc CHR ''.'' then next_ch (v\<lparr>v_state := DP_S_MAX\<rparr>)
      else Some (v\<lparr>v_state := DP_S_MOD\<rparr>))"

definition dp_max :: "vsn \<Rightarrow> vsn panicking" where
  "dp_max v =
     (if isdigit (uint (v_ch v)) then do {
        mx \<leftarrow> cint (10 * (if v_max v < 0 then 0 else v_max v) + char_to_int (v_ch v));
        next_ch (v\<lparr>v_max := mx\<rparr>) }
      else if v_ch v = asc CHR ''*'' then do {
        (i, args) \<leftarrow> va_int (v_args v);
        next_ch (v\<lparr>v_max := sint i, v_args := args, v_state := DP_S_MOD\<rparr>) }
      else Some (v\<lparr>v_state := DP_S_MOD\<rparr>))"

definition dp_mod :: "vsn \<Rightarrow> vsn panicking" where
  "dp_mod v = do {
     v \<leftarrow> (if v_ch v = asc CHR ''h'' then next_ch (v\<lparr>v_cflags := DP_C_SHORT\<rparr>)
          else if v_ch v = asc CHR ''l'' then do {
            v \<leftarrow> next_ch (v\<lparr>v_cflags := DP_C_LONG\<rparr>);
            if v_ch v = asc CHR ''l'' then next_ch (v\<lparr>v_cflags := DP_C_LLONG\<rparr>) else Some v }
          else if v_ch v = asc CHR ''L'' then next_ch (v\<lparr>v_cflags := DP_C_LDOUBLE\<rparr>)
          else Some v);
     Some (v\<lparr>v_state := DP_S_CONV\<rparr>) }"

definition dp_int :: "nat \<Rightarrow> u32 \<Rightarrow> nat \<Rightarrow> bool \<Rightarrow> vsn \<Rightarrow> vsn panicking" where
  "dp_int buffer maxlen base sg v = do {
     (value, args) \<leftarrow> va_value (v_cflags v) sg (v_args v);
     out \<leftarrow> fmtint buffer maxlen value base (v_min v) (v_max v) (v_flags v) (v_out v);
     Some (v\<lparr>v_args := args, v_out := out\<rparr>) }"

definition dp_str :: "nat \<Rightarrow> u32 \<Rightarrow> vsn \<Rightarrow> vsn panicking" where
  "dp_str buffer maxlen v = do {
     (p, args) \<leftarrow> va_ptr (v_args v);
     let strvalue = (if p = 0 then Lit (map asc ''(NULL)'')
                     else if \<not> VM_IS_KERN p then Lit (map asc ''(INVALID)'') else At p);
     mx \<leftarrow> (if v_max v = - 1 then do { l \<leftarrow> strv_len (fst (v_out v)) strvalue 0; cint (int l) }
           else Some (v_max v));
     let mx = (if v_min v > 0 \<and> mx \<ge> 0 \<and> v_min v > mx then v_min v else mx);
     out \<leftarrow> fmtstr buffer maxlen strvalue (v_flags v) (v_min v) mx (v_out v);
     Some (v\<lparr>v_args := args, v_max := mx, v_out := out\<rparr>) }"

definition dp_ptr :: "nat \<Rightarrow> u32 \<Rightarrow> vsn \<Rightarrow> vsn panicking" where
  "dp_ptr buffer maxlen v = do {
     (p, args) \<leftarrow> va_ptr (v_args v);
     out \<leftarrow> fmtint buffer maxlen (ucast (of_nat p :: u32)) 16 (v_min v) (v_max v) (v_flags v) (v_out v);
     Some (v\<lparr>v_args := args, v_out := out\<rparr>) }"

fun st_le :: "bmem \<Rightarrow> nat \<Rightarrow> nat \<Rightarrow> nat \<Rightarrow> bmem panicking" where
  "st_le m p 0 x = Some m"
| "st_le m p (Suc k) x = do { m' \<leftarrow> st m p (of_nat x); st_le m' (p + 1) k (x div 256) }"

text \<open>The size of the integer \<^verbatim>\<open>%n\<close> stores.\<close>

fun n_size :: "dp_cflags \<Rightarrow> nat" where
  "n_size DP_C_SHORT = 2"
| "n_size DP_C_LLONG = 8"
| "n_size _ = 4"

definition dp_n :: "vsn \<Rightarrow> vsn panicking" where
  "dp_n v = do {
     (num, args) \<leftarrow> va_ptr (v_args v);
     m \<leftarrow> st_le (fst (v_out v)) num (n_size (v_cflags v)) (unat (snd (v_out v)));
     Some (v\<lparr>v_args := args, v_out := (m, snd (v_out v))\<rparr>) }"

definition dp_conv :: "nat \<Rightarrow> u32 \<Rightarrow> vsn \<Rightarrow> vsn panicking" where
  "dp_conv buffer maxlen v = do {
     let c = v_ch v;
     let vu = v\<lparr>v_flags := (v_flags v)\<lparr>F_UNSIGNED := True\<rparr>\<rparr>;
     v \<leftarrow> (if c = asc CHR ''d'' \<or> c = asc CHR ''i'' then dp_int buffer maxlen 10 True v
          else if c = asc CHR ''o'' then dp_int buffer maxlen 8 False vu
          else if c = asc CHR ''u'' then dp_int buffer maxlen 10 False vu
          else if c = asc CHR ''X'' then
            dp_int buffer maxlen 16 False (vu\<lparr>v_flags := (v_flags vu)\<lparr>F_UP := True\<rparr>\<rparr>)
          else if c = asc CHR ''x'' then dp_int buffer maxlen 16 False vu
          else if c = asc CHR ''c'' then do {
            (i, args) \<leftarrow> va_int (v_args v);
            out \<leftarrow> dopr_outch buffer maxlen (ucast i) (v_out v);
            Some (v\<lparr>v_args := args, v_out := out\<rparr>) }
          else if c = asc CHR ''s'' then dp_str buffer maxlen v
          else if c = asc CHR ''p'' then dp_ptr buffer maxlen vu
          else if c = asc CHR ''n'' then dp_n v
          else if c = asc CHR ''%'' then do {
            out \<leftarrow> dopr_outch buffer maxlen c (v_out v); Some (v\<lparr>v_out := out\<rparr>) }
          else if c = asc CHR ''w'' then next_ch v
          else Some v);
     v \<leftarrow> next_ch v;
     Some (v\<lparr>v_state := DP_S_DEFAULT, v_flags := no_flags, v_cflags := DP_C_NONE, v_min := 0, v_max := - 1\<rparr>) }"

text \<open>One iteration of the loop; the test for the end of the format comes first.\<close>

definition vsn_step :: "nat \<Rightarrow> u32 \<Rightarrow> vsn \<Rightarrow> vsn panicking" where
  "vsn_step buffer maxlen v = (case (if v_ch v = 0 then DP_S_DONE else v_state v) of
     DP_S_DEFAULT \<Rightarrow> dp_default buffer maxlen v
   | DP_S_FLAGS \<Rightarrow> dp_flags_step v
   | DP_S_MIN \<Rightarrow> dp_min v
   | DP_S_DOT \<Rightarrow> dp_dot v
   | DP_S_MAX \<Rightarrow> dp_max v
   | DP_S_MOD \<Rightarrow> dp_mod v
   | DP_S_CONV \<Rightarrow> dp_conv buffer maxlen v
   | DP_S_DONE \<Rightarrow> Some (v\<lparr>v_state := DP_S_DONE\<rparr>))"

partial_function (option) vsn_loop :: "nat \<Rightarrow> u32 \<Rightarrow> vsn \<Rightarrow> vsn panicking" where
  [code]: "vsn_loop buffer maxlen v =
     (if v_state v = DP_S_DONE then Some v
      else do { v' \<leftarrow> vsn_step buffer maxlen v; vsn_loop buffer maxlen v' })"

definition vsn_finish :: "nat \<Rightarrow> u32 \<Rightarrow> out \<Rightarrow> bmem panicking" where
  "vsn_finish buffer maxlen out = (case out of (m, currlen) \<Rightarrow>
     (if maxlen \<noteq> 0 then
        (if currlen < maxlen - 1 then st m (buffer + unat currlen) 0
         else st m (buffer + unat (maxlen - 1)) 0)
      else Some m))"

text \<open>
  The tests of the two pointers at the start only print a message (\<^verbatim>\<open>log_panic\<close> returns), so
  they do not show in the result.
\<close>

definition vsn_start :: "bmem \<Rightarrow> nat \<Rightarrow> va list \<Rightarrow> vsn panicking" where
  "vsn_start m format args = next_ch \<lparr> v_state = DP_S_DEFAULT, v_ch = 0, v_format = format, v_args = args, v_min = 0,
     v_max = - 1, v_flags = no_flags, v_cflags = DP_C_NONE, v_out = (m, 0) \<rparr>"

definition vsnprintf :: "bmem \<Rightarrow> nat \<Rightarrow> u32 \<Rightarrow> nat \<Rightarrow> va list \<Rightarrow> (bmem \<times> u32) panicking" where
  "vsnprintf m buffer maxlen format args = do {
     v \<leftarrow> vsn_start m format args;
     v \<leftarrow> vsn_loop buffer maxlen v;
     m' \<leftarrow> vsn_finish buffer maxlen (v_out v);
     Some (m', snd (v_out v)) }"

definition snprintf :: "bmem \<Rightarrow> nat \<Rightarrow> u32 \<Rightarrow> nat \<Rightarrow> va list \<Rightarrow> (bmem \<times> u32) panicking" where
  "snprintf m str count fmt ap = vsnprintf m str count fmt ap"

text \<open>
  \<^verbatim>\<open>vasprintf\<close>: \<open>kmalloc\<close> returns the memory with the new block and its address, or \<open>None\<close> for
  a null pointer. The result is the memory, the pointer stored through \<^verbatim>\<open>ptr\<close> if any, and the
  return value.
\<close>

definition vasprintf :: "(bmem \<Rightarrow> nat \<Rightarrow> (bmem \<times> nat) option) \<Rightarrow> bmem \<Rightarrow> nat \<Rightarrow> va list \<Rightarrow>
    (bmem \<times> nat option \<times> int) panicking" where
  "vasprintf kmalloc m format ap = do {
     (m1, ret) \<leftarrow> vsnprintf m 0 0 format ap;
     if sint ret \<le> 0 then Some (m1, None, sint ret)
     else (case kmalloc m1 (unat (ret + 1)) of
         None \<Rightarrow> Some (m1, Some 0, - 1)
       | Some (m2, ptr) \<Rightarrow> do {
           (m3, ret) \<leftarrow> vsnprintf m2 ptr (ret + 1) format ap;
           Some (m3, Some ptr, sint ret) }) }"

definition asprintf :: "(bmem \<Rightarrow> nat \<Rightarrow> (bmem \<times> nat) option) \<Rightarrow> bmem \<Rightarrow> nat \<Rightarrow> va list \<Rightarrow>
    (bmem \<times> nat \<times> int) panicking" where
  "asprintf kmalloc m format ap = do {
     (m', ptr, ret) \<leftarrow> vasprintf kmalloc m format ap;
     Some (m', (case ptr of None \<Rightarrow> 0 | Some p \<Rightarrow> p), ret) }"

subsection \<open>Where the output goes\<close>

text \<open>
  \<open>frame buf k T m m'\<close>: memory \<open>m'\<close> has the same addresses mapped as \<open>m\<close> and the same contents
  outside the \<open>k\<close> bytes at \<open>buf\<close> and the set \<open>T\<close>.
\<close>

definition frame :: "nat \<Rightarrow> nat \<Rightarrow> nat set \<Rightarrow> bmem \<Rightarrow> bmem \<Rightarrow> bool" where
  "frame buf k T m m' \<longleftrightarrow> (\<forall>p. (m' p = None \<longleftrightarrow> m p = None) \<and>
     (\<not> (buf \<le> p \<and> p < buf + k) \<and> p \<notin> T \<longrightarrow> m' p = m p))"

lemma frame_refl [simp, intro]: "frame buf k T m m"
  by (simp add: frame_def)

lemma frame_trans: "frame buf k T m m1 \<Longrightarrow> frame buf k T m1 m2 \<Longrightarrow> frame buf k T m m2"
  by (simp add: frame_def)

lemma frame_mono: "frame buf k T m m' \<Longrightarrow> T \<subseteq> T' \<Longrightarrow> frame buf k T' m m'"
  by (auto simp: frame_def)

lemma frame_st:
  "st m p c = Some m' \<Longrightarrow> (buf \<le> p \<and> p < buf + k) \<or> p \<in> T \<Longrightarrow> frame buf k T m m'"
  by (auto simp: st_def frame_def split: if_splits)

lemma dopr_outch_frame:
  "dopr_outch buf mx c out = Some out' \<Longrightarrow> frame buf (unat mx) T (fst out) (fst out')"
  by (cases out)
    (auto simp: dopr_outch_def bind_eq_Some_conv word_less_nat_alt intro: frame_st split: if_splits)

lemma outch_n_frame:
  "outch_n buf mx n c out = Some out' \<Longrightarrow> frame buf (unat mx) T (fst out) (fst out')"
  by (induction n arbitrary: out)
    (auto simp: bind_eq_Some_conv intro: frame_trans dopr_outch_frame)

lemma outch_digits_frame:
  "outch_digits buf mx cv n out = Some out' \<Longrightarrow> frame buf (unat mx) T (fst out) (fst out')"
  by (induction n arbitrary: out)
    (auto simp: bind_eq_Some_conv intro: frame_trans dopr_outch_frame)

lemma fmtstr_pad_frame:
  "fmtstr_pad buf mx pad cnt lim out = Some (out', cnt') \<Longrightarrow> frame buf (unat mx) T (fst out) (fst out')"
proof (induction buf mx pad cnt lim out rule: fmtstr_pad.induct)
  case (1 buf mx pad cnt lim out)
  show ?case
  proof (cases "pad > 0 \<and> cnt < lim")
    case True
    with "1.prems" obtain o1 where o1: "dopr_outch buf mx (asc CHR '' '') out = Some o1"
      "fmtstr_pad buf mx (pad - 1) (cnt + 1) lim o1 = Some (out', cnt')"
      by (subst (asm) fmtstr_pad.simps) (auto simp: bind_eq_Some_conv)
    from "1.IH" [OF True o1] dopr_outch_frame [OF o1(1)] show ?thesis by (blast intro: frame_trans)
  next
    case False
    with "1.prems" show ?thesis by (subst (asm) fmtstr_pad.simps) auto
  qed
qed

lemma fmtstr_value_frame:
  "fmtstr_value buf mx v i cnt lim out = Some (out', cnt') \<Longrightarrow> frame buf (unat mx) T (fst out) (fst out')"
proof (induction buf mx v i cnt lim out rule: fmtstr_value.induct)
  case (1 buf mx v i cnt lim out)
  from "1.prems" obtain c where c: "str_rd (fst out) v i = Some c"
    by (subst (asm) fmtstr_value.simps) (auto simp: bind_eq_Some_conv)
  show ?case
  proof (cases "c \<noteq> 0 \<and> cnt < lim")
    case True
    with "1.prems" c obtain o1 where o1: "dopr_outch buf mx c out = Some o1"
      "fmtstr_value buf mx v (i + 1) (cnt + 1) lim o1 = Some (out', cnt')"
      by (subst (asm) fmtstr_value.simps) (auto simp: bind_eq_Some_conv)
    from "1.IH" [OF c True o1] dopr_outch_frame [OF o1(1)] show ?thesis by (blast intro: frame_trans)
  next
    case False
    with "1.prems" c show ?thesis by (subst (asm) fmtstr_value.simps) auto
  qed
qed

lemma fmtstr_frame:
  assumes "fmtstr buf mx v fl mn lim out = Some out'"
  shows "frame buf (unat mx) T (fst out) (fst out')"
proof -
  from assms obtain w pad o1 c1 o2 c2 pad2 c3 where
    o: "fmtstr_pad buf mx pad 0 lim out = Some (o1, c1)"
      "fmtstr_value buf mx w 0 c1 lim o1 = Some (o2, c2)"
      "fmtstr_pad buf mx pad2 c2 lim o2 = Some (out', c3)"
    unfolding fmtstr_def Let_def by (auto simp: bind_eq_Some_conv)
  from fmtstr_pad_frame [OF o(1)] fmtstr_value_frame [OF o(2)] fmtstr_pad_frame [OF o(3)]
  show ?thesis by (blast intro: frame_trans)
qed

lemma fmtint_frame:
  assumes "fmtint buf mx value base mn lim fl out = Some out'"
  shows "frame buf (unat mx) T (fst out) (fst out')"
proof -
  from assms obtain n1 c1 o1 s o2 n2 c2 o3 cv k o4 n3 c3 where
    o: "outch_n buf mx n1 c1 out = Some o1"
      "(case s of None \<Rightarrow> Some o1 | Some c \<Rightarrow> dopr_outch buf mx c o1) = Some o2"
      "outch_n buf mx n2 c2 o2 = Some o3" "outch_digits buf mx cv k o3 = Some o4"
      "outch_n buf mx n3 c3 o4 = Some out'"
    unfolding fmtint_def Let_def bind_eq_Some_conv by blast
  have "frame buf (unat mx) T (fst o1) (fst o2)"
    using o(2) by (cases s) (auto intro: dopr_outch_frame)
  with outch_n_frame [OF o(1)] outch_n_frame [OF o(3)] outch_digits_frame [OF o(4)] outch_n_frame [OF o(5)]
  show ?thesis by (blast intro: frame_trans)
qed

text \<open>
  The addresses \<^verbatim>\<open>%n\<close> stores to in a run: whenever the loop is about to convert an \<^verbatim>\<open>n\<close>, the bytes
  of the integer the next argument points to.
\<close>

definition n_dest :: "vsn \<Rightarrow> nat set" where
  "n_dest v = (if v_state v = DP_S_CONV \<and> v_ch v = asc CHR ''n'' then
     (case va_ptr (v_args v) of Some (p, _) \<Rightarrow> {p ..< p + n_size (v_cflags v)} | None \<Rightarrow> {}) else {})"

partial_function (option) vsn_stores :: "nat \<Rightarrow> u32 \<Rightarrow> vsn \<Rightarrow> nat set option" where
  [code]: "vsn_stores buffer maxlen v =
     (if v_state v = DP_S_DONE then Some {}
      else do { v' \<leftarrow> vsn_step buffer maxlen v; T \<leftarrow> vsn_stores buffer maxlen v'; Some (n_dest v \<union> T) })"

definition n_stores :: "bmem \<Rightarrow> nat \<Rightarrow> u32 \<Rightarrow> nat \<Rightarrow> va list \<Rightarrow> nat set" where
  "n_stores m buffer maxlen format args =
     (case do { v \<leftarrow> vsn_start m format args; vsn_stores buffer maxlen v } of Some T \<Rightarrow> T | None \<Rightarrow> {})"

lemma st_le_frame:
  "st_le m p k x = Some m' \<Longrightarrow> {p ..< p + k} \<subseteq> T \<Longrightarrow> frame buf n T m m'"
proof (induction k arbitrary: m p x)
  case (Suc k)
  from Suc.prems(1) obtain m1 where m1: "st m p (of_nat x) = Some m1" "st_le m1 (p + 1) k (x div 256) = Some m'"
    by (auto simp: bind_eq_Some_conv)
  have "p \<in> T" using Suc.prems(2) by (rule subsetD) simp
  then have "frame buf n T m m1" by (intro frame_st [OF m1(1)]) simp
  moreover have "frame buf n T m1 m'" using Suc.prems(2) by (intro Suc.IH [OF m1(2)]) auto
  ultimately show ?case by (rule frame_trans)
qed simp

text \<open>What every step keeps; only \<^verbatim>\<open>%n\<close> stores outside the buffer.\<close>

definition step_keeps :: "nat \<Rightarrow> u32 \<Rightarrow> nat set \<Rightarrow> vsn \<Rightarrow> vsn \<Rightarrow> bool" where
  "step_keeps buf mx T v v' \<longleftrightarrow> frame buf (unat mx) T (fst (v_out v)) (fst (v_out v'))"

lemma step_keeps_refl: "v_out v' = v_out v \<Longrightarrow> step_keeps buf mx T v v'"
  by (simp add: step_keeps_def)

lemma step_keeps_trans: "step_keeps buf mx T v v1 \<Longrightarrow> step_keeps buf mx T v1 v2 \<Longrightarrow> step_keeps buf mx T v v2"
  unfolding step_keeps_def by (blast intro: frame_trans)

lemma next_ch_same: "next_ch v = Some v' \<Longrightarrow> v_out v' = v_out v"
  by (auto simp: next_ch_def bind_eq_Some_conv)

lemma dp_int_keeps: "dp_int buf mx base sg v = Some v' \<Longrightarrow> step_keeps buf mx T v v'"
  by (auto simp: dp_int_def bind_eq_Some_conv step_keeps_def dest: fmtint_frame)

lemma dp_ptr_keeps: "dp_ptr buf mx v = Some v' \<Longrightarrow> step_keeps buf mx T v v'"
  by (auto simp: dp_ptr_def bind_eq_Some_conv step_keeps_def dest: fmtint_frame)

lemma dp_str_keeps:
  assumes "dp_str buf mx v = Some v'"
  shows "step_keeps buf mx T v v'"
proof -
  from assms obtain p args w lim out where v': "va_ptr (v_args v) = Some (p, args)"
    "fmtstr buf mx w (v_flags v) (v_min v) lim (v_out v) = Some out"
    "v' = v\<lparr>v_args := args, v_max := lim, v_out := out\<rparr>"
    unfolding dp_str_def Let_def by (simp only: bind_eq_Some_conv case_prod_beta) (metis prod.collapse option.inject)
  from fmtstr_frame [OF v'(2)] v'(3) show ?thesis by (simp add: step_keeps_def)
qed

lemma dp_n_keeps:
  assumes "dp_n v = Some v'" "v_state v = DP_S_CONV" "v_ch v = asc CHR ''n''"
  shows "step_keeps buf mx (n_dest v) v v'"
proof -
  from assms(1) obtain p args m where v': "va_ptr (v_args v) = Some (p, args)"
    "st_le (fst (v_out v)) p (n_size (v_cflags v)) (unat (snd (v_out v))) = Some m"
    "v' = v\<lparr>v_args := args, v_out := (m, snd (v_out v))\<rparr>"
    by (auto simp: dp_n_def bind_eq_Some_conv)
  have "{p ..< p + n_size (v_cflags v)} \<subseteq> n_dest v" using v'(1) assms(2,3) by (simp add: n_dest_def)
  from st_le_frame [OF v'(2) this] v'(3) show ?thesis by (simp add: step_keeps_def)
qed

lemma dp_chr_keeps:
  assumes "do { (i, args) \<leftarrow> va_int (v_args v); out \<leftarrow> dopr_outch buf mx (ucast i) (v_out v);
      Some (v\<lparr>v_args := args, v_out := out\<rparr>) } = Some v'"
  shows "step_keeps buf mx T v v'"
  using assms by (auto simp: bind_eq_Some_conv step_keeps_def dest: dopr_outch_frame)

lemma dp_pct_keeps:
  assumes "do { out \<leftarrow> dopr_outch buf mx c (v_out v); Some (v\<lparr>v_out := out\<rparr>) } = Some v'"
  shows "step_keeps buf mx T v v'"
  using assms by (auto simp: bind_eq_Some_conv step_keeps_def dest: dopr_outch_frame)

lemma next_ch_keeps: "next_ch v = Some v' \<Longrightarrow> step_keeps buf mx T v v'"
  by (auto dest: next_ch_same intro: step_keeps_refl)

lemma dp_conv_keeps:
  assumes "dp_conv buf mx v = Some v'" "v_state v = DP_S_CONV"
  shows "step_keeps buf mx (n_dest v) v v'"
proof -
  let ?c = "v_ch v" and ?vu = "v\<lparr>v_flags := (v_flags v)\<lparr>F_UNSIGNED := True\<rparr>\<rparr>"
  let ?vx = "?vu\<lparr>v_flags := (v_flags ?vu)\<lparr>F_UP := True\<rparr>\<rparr>"
  from assms(1) obtain v1 v2 where
    a: "(if ?c = asc CHR ''d'' \<or> ?c = asc CHR ''i'' then dp_int buf mx 10 True v
         else if ?c = asc CHR ''o'' then dp_int buf mx 8 False ?vu
         else if ?c = asc CHR ''u'' then dp_int buf mx 10 False ?vu
         else if ?c = asc CHR ''X'' then dp_int buf mx 16 False ?vx
         else if ?c = asc CHR ''x'' then dp_int buf mx 16 False ?vu
         else if ?c = asc CHR ''c'' then do {
           (i, args) \<leftarrow> va_int (v_args v);
           out \<leftarrow> dopr_outch buf mx (ucast i) (v_out v);
           Some (v\<lparr>v_args := args, v_out := out\<rparr>) }
         else if ?c = asc CHR ''s'' then dp_str buf mx v
         else if ?c = asc CHR ''p'' then dp_ptr buf mx ?vu
         else if ?c = asc CHR ''n'' then dp_n v
         else if ?c = asc CHR ''%'' then do {
           out \<leftarrow> dopr_outch buf mx ?c (v_out v); Some (v\<lparr>v_out := out\<rparr>) }
         else if ?c = asc CHR ''w'' then next_ch v
         else Some v) = Some v1"
    and b: "next_ch v1 = Some v2"
    and v': "v' = v2\<lparr>v_state := DP_S_DEFAULT, v_flags := no_flags, v_cflags := DP_C_NONE, v_min := 0, v_max := - 1\<rparr>"
    unfolding dp_conv_def Let_def bind_eq_Some_conv by auto
  have u: "step_keeps buf mx T ?vu w = step_keeps buf mx T v w"
    "step_keeps buf mx T ?vx w = step_keeps buf mx T v w" for w T
    by (simp_all add: step_keeps_def)
  note k = dp_int_keeps [of buf mx _ _ ?vu, unfolded u] dp_int_keeps [of buf mx _ _ ?vx, unfolded u]
    dp_ptr_keeps [of buf mx ?vu, unfolded u]
  have "step_keeps buf mx (n_dest v) v v1"
    using a
  proof (elim if_eq_cases)
    assume "Some v = Some v1"
    then show ?thesis by (auto intro: step_keeps_refl)
  next
    assume "dp_n v = Some v1" "?c = asc CHR ''n''"
    then show ?thesis using assms(2) by (intro dp_n_keeps)
  qed (erule k dp_int_keeps dp_str_keeps dp_chr_keeps dp_pct_keeps next_ch_keeps)+
  moreover from next_ch_same [OF b] v' have "step_keeps buf mx (n_dest v) v1 v'"
    by (intro step_keeps_refl) simp
  ultimately show ?thesis by (rule step_keeps_trans)
qed

lemma next_ch_keeps_upd:
  "next_ch w = Some v' \<Longrightarrow> v_out w = v_out v \<Longrightarrow> step_keeps buf mx T v v'"
  using next_ch_same [of w v'] by (simp add: step_keeps_def)

lemma dp_mod_keeps:
  assumes "dp_mod v = Some v'"
  shows "step_keeps buf mx T v v'"
proof -
  from assms obtain w where w: "v' = w\<lparr>v_state := DP_S_CONV\<rparr>"
    "(if v_ch v = asc CHR ''h'' then next_ch (v\<lparr>v_cflags := DP_C_SHORT\<rparr>)
      else if v_ch v = asc CHR ''l'' then do {
        v \<leftarrow> next_ch (v\<lparr>v_cflags := DP_C_LONG\<rparr>);
        if v_ch v = asc CHR ''l'' then next_ch (v\<lparr>v_cflags := DP_C_LLONG\<rparr>) else Some v }
      else if v_ch v = asc CHR ''L'' then next_ch (v\<lparr>v_cflags := DP_C_LDOUBLE\<rparr>)
      else Some v) = Some w"
    unfolding dp_mod_def bind_eq_Some_conv by auto
  have "v_out w = v_out v"
    using w(2)
  proof (elim if_eq_cases)
    assume "next_ch (v\<lparr>v_cflags := DP_C_LONG\<rparr>) \<bind>
      (\<lambda>v. if v_ch v = asc CHR ''l'' then next_ch (v\<lparr>v_cflags := DP_C_LLONG\<rparr>) else Some v) = Some w"
    then obtain u where u: "next_ch (v\<lparr>v_cflags := DP_C_LONG\<rparr>) = Some u"
      "(if v_ch u = asc CHR ''l'' then next_ch (u\<lparr>v_cflags := DP_C_LLONG\<rparr>) else Some u) = Some w"
      unfolding bind_eq_Some_conv by blast
    from u(2) next_ch_same [OF u(1)] show ?thesis by (elim if_eq_cases) (auto dest: next_ch_same)
  qed (auto dest: next_ch_same)
  with w(1) show ?thesis by (intro step_keeps_refl) auto
qed

lemma dp_flags_keeps: "dp_flags_step v = Some v' \<Longrightarrow> step_keeps buf mx T v v'"
  unfolding dp_flags_step_def by (elim if_eq_cases) (auto intro: next_ch_keeps_upd step_keeps_refl)

lemma dp_min_keeps: "dp_min v = Some v' \<Longrightarrow> step_keeps buf mx T v v'"
  unfolding dp_min_def
  by (elim if_eq_cases) (auto simp: bind_eq_Some_conv step_keeps_def dest!: next_ch_same)

lemma dp_max_keeps: "dp_max v = Some v' \<Longrightarrow> step_keeps buf mx T v v'"
  unfolding dp_max_def
  by (elim if_eq_cases) (auto simp: bind_eq_Some_conv step_keeps_def dest!: next_ch_same)

lemma dp_dot_keeps: "dp_dot v = Some v' \<Longrightarrow> step_keeps buf mx T v v'"
  unfolding dp_dot_def by (elim if_eq_cases) (auto intro: next_ch_keeps_upd step_keeps_refl)

lemma dp_default_keeps:
  assumes "dp_default buf mx v = Some v'"
  shows "step_keeps buf mx T v v'"
  using assms unfolding dp_default_def
proof (elim if_eq_cases)
  assume "dopr_outch buf mx (v_ch v) (v_out v) \<bind> (\<lambda>out. next_ch (v\<lparr>v_out := out\<rparr>)) = Some v'"
  then obtain out where "dopr_outch buf mx (v_ch v) (v_out v) = Some out" "next_ch (v\<lparr>v_out := out\<rparr>) = Some v'"
    unfolding bind_eq_Some_conv by blast
  with dopr_outch_frame [of buf mx "v_ch v" "v_out v" out] next_ch_same [of "v\<lparr>v_out := out\<rparr>" v']
  show ?thesis by (simp add: step_keeps_def)
qed (auto intro: next_ch_keeps_upd)

lemma vsn_step_keeps:
  assumes "vsn_step buf mx v = Some v'"
  shows "step_keeps buf mx (n_dest v) v v'"
proof (cases "v_ch v = 0")
  case True
  with assms show ?thesis by (auto simp: vsn_step_def intro: step_keeps_refl)
next
  case False
  with assms show ?thesis
    by (cases "v_state v")
      (auto simp: vsn_step_def intro: step_keeps_refl dp_default_keeps dp_min_keeps dp_max_keeps dp_conv_keeps
        dp_flags_keeps dp_dot_keeps dp_mod_keeps)
qed

lemma step_keeps_mono: "step_keeps buf mx T v v' \<Longrightarrow> T \<subseteq> T' \<Longrightarrow> step_keeps buf mx T' v v'"
  unfolding step_keeps_def by (rule frame_mono)

lemma vsn_loop_keeps:
  assumes "vsn_loop buf mx v = Some v'"
  shows "\<exists>T. vsn_stores buf mx v = Some T \<and> step_keeps buf mx T v v'"
proof (rule vsn_loop.raw_induct [OF _ assms])
  fix loop :: "nat \<Rightarrow> u32 \<Rightarrow> vsn \<Rightarrow> vsn option" and buf mx v v'
  assume IH: "\<And>buf mx v v'. loop buf mx v = Some v' \<Longrightarrow>
      \<exists>T. vsn_stores buf mx v = Some T \<and> step_keeps buf mx T v v'"
    and run: "(if v_state v = DP_S_DONE then Some v
      else do { w \<leftarrow> vsn_step buf mx v; loop buf mx w }) = Some v'"
  show "\<exists>T. vsn_stores buf mx v = Some T \<and> step_keeps buf mx T v v'"
  proof (cases "v_state v = DP_S_DONE")
    case True
    then have "vsn_stores buf mx v = Some {}" by (simp add: vsn_stores.simps [of buf mx v])
    with True run show ?thesis by (auto intro: step_keeps_refl)
  next
    case False
    with run obtain w where w: "vsn_step buf mx v = Some w" "loop buf mx w = Some v'"
      by (auto simp: bind_eq_Some_conv)
    from IH [OF w(2)] obtain T where T: "vsn_stores buf mx w = Some T" "step_keeps buf mx T w v'" by blast
    have "step_keeps buf mx (n_dest v \<union> T) v v'"
      using step_keeps_trans [OF step_keeps_mono [OF vsn_step_keeps [OF w(1)]] step_keeps_mono [OF T(2)]]
      by blast
    with False w(1) T(1) show ?thesis by (simp add: vsn_stores.simps [of buf mx v])
  qed
qed

text \<open>The terminator.\<close>

lemma vsn_finish_nul:
  assumes "vsn_finish buf mx (m, len) = Some m'" "mx \<noteq> 0"
  shows "m' (buf + min (unat len) (unat mx - 1)) = Some 0" "frame buf (unat mx) T m m'"
proof -
  have u: "unat (mx - 1) = unat mx - 1" "unat mx > 0"
    using assms(2) by (simp_all add: unat_minus_one unat_gt_0)
  let ?i = "if len < mx - 1 then unat len else unat (mx - 1)"
  have i: "?i = min (unat len) (unat mx - 1)" using u by (simp add: word_less_nat_alt min_def)
  have st: "st m (buf + ?i) 0 = Some m'" using assms by (simp add: vsn_finish_def split: if_splits)
  then show "m' (buf + min (unat len) (unat mx - 1)) = Some 0"
    unfolding i by (auto simp: st_def split: if_splits)
  show "frame buf (unat mx) T m m'"
    using u(2) by (intro frame_st [OF st [unfolded i]]) auto
qed

end
