(* ===== verification/Snprintf_Props.thy ===== *)
theory Snprintf_Props
  imports Snprintf
begin

text \<open>
  What \<^verbatim>\<open>vsnprintf\<close> prints. A format is described by a list of pieces, each the source text of
  one directive with its arguments; \<open>unparse\<close> gives the format string and \<open>render\<close> the text a
  piece stands for. The main lemma runs the state machine of \<^verbatim>\<open>vsnprintf\<close> over the format of
  any list of well-formed pieces.
\<close>

subsection \<open>Output as a list\<close>

definition emit :: "nat \<Rightarrow> u32 \<Rightarrow> bmem \<Rightarrow> u8 list \<Rightarrow> out" where
  "emit buf mx m cs = (wr m buf (take (unat mx) cs), of_nat (length cs))"

lemma unat_len [simp]: "n < 2 ^ 32 \<Longrightarrow> unat (of_nat n :: u32) = n"
  by (simp add: unat_of_nat take_bit_nat_eq_self)

lemma wr_dom: "wr m p xs q = None \<Longrightarrow> m q = None"
  using wr_mapped [of m q "Suc 0" p xs] by (cases "m q") (auto simp: mapped_Suc mapped_def [of _ _ 0])

lemma dopr_outch_emit:
  assumes "mapped m buf (unat mx)" "length cs < 2 ^ 32"
  shows "dopr_outch buf mx c (emit buf mx m cs) = Some (emit buf mx m (cs @ [c]))"
proof (cases "length cs < unat mx")
  case True
  then have "m (buf + length cs) \<noteq> None" using assms(1) by (simp add: mapped_def)
  then have "wr m buf cs (buf + length cs) \<noteq> None" using wr_dom by metis
  then have "st (wr m buf cs) (buf + length cs) c = Some (wr m buf (cs @ [c]))"
    by (simp add: st_def wr_append)
  with True assms(2) show ?thesis
    by (simp add: dopr_outch_def emit_def word_less_nat_alt Suc_le_eq add.commute)
next
  case False
  with assms(2) show ?thesis by (simp add: dopr_outch_def emit_def word_less_nat_alt add.commute)
qed

definition room :: "nat \<Rightarrow> u32 \<Rightarrow> bmem \<Rightarrow> u8 list \<Rightarrow> u8 list \<Rightarrow> bool" where
  "room buf mx m cs xs \<longleftrightarrow> mapped m buf (unat mx) \<and> length cs + length xs \<le> 2 ^ 32"

lemma outch_n_emit:
  "room buf mx m cs (replicate n c) \<Longrightarrow>
   outch_n buf mx n c (emit buf mx m cs) = Some (emit buf mx m (cs @ replicate n c))"
proof (induction n arbitrary: cs)
  case (Suc n)
  then have "dopr_outch buf mx c (emit buf mx m cs) = Some (emit buf mx m (cs @ [c]))"
    by (intro dopr_outch_emit) (auto simp: room_def)
  with Suc show ?case by (simp add: room_def)
qed simp

lemma outch_digits_emit:
  "room buf mx m cs (rev (take n cv)) \<Longrightarrow> n \<le> length cv \<Longrightarrow>
   outch_digits buf mx cv n (emit buf mx m cs) = Some (emit buf mx m (cs @ rev (take n cv)))"
proof (induction n arbitrary: cs)
  case (Suc n)
  then have "dopr_outch buf mx (cv ! n) (emit buf mx m cs) = Some (emit buf mx m (cs @ [cv ! n]))"
    by (intro dopr_outch_emit) (auto simp: room_def)
  with Suc show ?case by (simp add: room_def take_Suc_conv_app_nth)
qed simp

lemma fmtstr_pad_emit:
  "room buf mx m cs (replicate (nat (min pad (lim - cnt))) (asc CHR '' '')) \<Longrightarrow>
   fmtstr_pad buf mx pad cnt lim (emit buf mx m cs) =
     Some (emit buf mx m (cs @ replicate (nat (min pad (lim - cnt))) (asc CHR '' '')), cnt + max 0 (min pad (lim - cnt)))"
proof (induction "nat pad" arbitrary: pad cnt cs)
  case 0
  then show ?case by (subst fmtstr_pad.simps) auto
next
  case (Suc n)
  show ?case
  proof (cases "cnt < lim")
    case True
    let ?k = "nat (min (pad - 1) (lim - (cnt + 1)))" and ?s = "asc CHR '' ''"
    have pad: "pad > 0" "n = nat (pad - 1)" using Suc.hyps(2) by linarith+
    have k: "nat (min pad (lim - cnt)) = Suc ?k" using True pad by linarith
    have "dopr_outch buf mx ?s (emit buf mx m cs) = Some (emit buf mx m (cs @ [?s]))"
      using Suc.prems k by (intro dopr_outch_emit) (auto simp: room_def)
    moreover have "fmtstr_pad buf mx (pad - 1) (cnt + 1) lim (emit buf mx m (cs @ [?s])) =
        Some (emit buf mx m ((cs @ [?s]) @ replicate ?k ?s), cnt + 1 + max 0 (min (pad - 1) (lim - (cnt + 1))))"
      using Suc.prems k pad(2) by (intro Suc.hyps(1)) (auto simp: room_def)
    moreover have "cnt + 1 + max 0 (min (pad - 1) (lim - (cnt + 1))) = cnt + max 0 (min pad (lim - cnt))"
      using True pad by linarith
    ultimately show ?thesis
      using True pad unfolding k by (subst fmtstr_pad.simps) (simp del: max_def min_def)
  next
    case False
    then show ?thesis by (subst fmtstr_pad.simps) (auto simp: min_def max_def)
  qed
qed

text \<open>A string argument that the output does not overwrite.\<close>

definition strv_is :: "nat \<Rightarrow> u32 \<Rightarrow> bmem \<Rightarrow> strv \<Rightarrow> u8 list \<Rightarrow> bool" where
  "strv_is buf mx m v xs \<longleftrightarrow> 0 \<notin> set xs \<and> (case v of
     Lit ys \<Rightarrow> ys = xs
   | At q \<Rightarrow> cstr m q xs \<and> (q + length xs < buf \<or> buf + unat mx \<le> q))"

lemma strv_rd:
  assumes "strv_is buf mx m v xs" "i \<le> length xs"
  shows "str_rd (fst (emit buf mx m cs)) v i = Some (if i < length xs then xs ! i else 0)"
proof (cases v)
  case (Lit ys)
  with assms show ?thesis by (auto simp: strv_is_def)
next
  case (At q)
  with assms have "wr m buf (take (unat mx) cs) (q + i) = m (q + i)"
    by (intro wr_other) (auto simp: strv_is_def)
  with At assms show ?thesis by (auto simp: strv_is_def emit_def cstr_iff)
qed

lemma strv_len_run:
  assumes "strv_is buf mx m v xs" "i \<le> length xs"
  shows "strv_len (fst (emit buf mx m cs)) v i = Some (length xs)"
  using assms(2)
proof (induction "length xs - i" arbitrary: i)
  case 0
  with strv_rd [OF assms(1), of i cs] show ?case by (subst strv_len.simps) simp
next
  case (Suc n)
  then have i: "i < length xs" by simp
  then have "xs ! i \<noteq> 0" using assms(1) by (metis strv_is_def nth_mem)
  with strv_rd [OF assms(1), of i cs] i Suc show ?case by (subst strv_len.simps) simp
qed

lemma fmtstr_value_emit:
  assumes "strv_is buf mx m v xs" "i \<le> length xs" "room buf mx m cs (take (nat (lim - cnt)) (drop i xs))"
  shows "fmtstr_value buf mx v i cnt lim (emit buf mx m cs) =
    Some (emit buf mx m (cs @ take (nat (lim - cnt)) (drop i xs)), cnt + max 0 (min (int (length xs - i)) (lim - cnt)))"
  using assms(2,3)
proof (induction "nat (lim - cnt)" arbitrary: i cnt cs)
  case 0
  then show ?case by (subst fmtstr_value.simps) (simp add: strv_rd [OF assms(1)])
next
  case (Suc n)
  show ?case
  proof (cases "i < length xs")
    case False
    with Suc.prems Suc.hyps(2) show ?thesis
      by (subst fmtstr_value.simps) (simp add: strv_rd [OF assms(1)])
  next
    case True
    then have c: "xs ! i \<noteq> 0" using assms(1) by (metis strv_is_def nth_mem)
    have n: "n = nat (lim - (cnt + 1))" "cnt < lim" using Suc.hyps(2) by linarith+
    have split: "take (nat (lim - cnt)) (drop i xs) = xs ! i # take n (drop (i + 1) xs)"
      using True Suc.hyps(2) by (simp flip: Suc.hyps(2) add: Cons_nth_drop_Suc [symmetric])
    have o: "dopr_outch buf mx (xs ! i) (emit buf mx m cs) = Some (emit buf mx m (cs @ [xs ! i]))"
      using Suc.prems(2) split by (intro dopr_outch_emit) (auto simp: room_def)
    have "fmtstr_value buf mx v (i + 1) (cnt + 1) lim (emit buf mx m (cs @ [xs ! i])) =
        Some (emit buf mx m ((cs @ [xs ! i]) @ take (nat (lim - (cnt + 1))) (drop (i + 1) xs)),
          cnt + 1 + max 0 (min (int (length xs - (i + 1))) (lim - (cnt + 1))))"
      using Suc.prems(2) True n split by (intro Suc.hyps(1)) (auto simp: room_def)
    moreover have "cnt + 1 + max 0 (min (int (length xs - (i + 1))) (lim - (cnt + 1))) =
        cnt + max 0 (min (int (length xs - i)) (lim - cnt))"
      using True n(2) by linarith
    ultimately show ?thesis
      using True c n o split
      by (subst fmtstr_value.simps) (simp add: strv_rd [OF assms(1)] del: max_def min_def)
  qed
qed

subsection \<open>The text of a conversion\<close>

definition str_text :: "dp_flags \<Rightarrow> int \<Rightarrow> int \<Rightarrow> u8 list \<Rightarrow> u8 list" where
  "str_text fl mn lim xs = (let pad = replicate (nat (mn - int (length xs))) (asc CHR '' '') in
     take (nat lim) (if F_MINUS fl then xs @ pad else pad @ xs))"

lemma room_split: "room buf mx m cs (xs @ ys) \<longleftrightarrow> room buf mx m cs xs \<and> room buf mx m (cs @ xs) ys"
  by (auto simp: room_def)

lemma nat_max0: "(if (x :: int) < 0 then 0 else x) = max 0 x"
  by (simp add: max_def)

lemma pad_arith:
  fixes p lim :: int
  assumes "0 \<le> p"
  shows "nat (min p (lim - max 0 (min (int n) lim))) = min (nat lim - n) (nat p)"
    "nat (min p lim) = min (nat lim) (nat p)" "nat (lim - max 0 (min p lim)) = nat lim - nat p"
    "nat (min (- p) lim) = 0" "max 0 (min (- p) lim) = 0" "nat (min 0 lim) = 0"
  using assms by linarith+

lemma zpad_arith:
  fixes a b :: int
  shows "nat (max (max 0 a) (max 0 b)) = max (nat a) (nat b)" "nat (max 0 a) = nat a" "nat (- max 0 a) = 0"
  by linarith+

lemma fmtstr_emit:
  assumes v: "strv_is buf mx m v xs" "v \<noteq> At 0" and mn: "0 \<le> mn" "mn < 2 ^ 31" "int (length xs) < 2 ^ 31"
    and room: "room buf mx m cs (str_text fl mn lim xs)"
  shows "fmtstr buf mx v fl mn lim (emit buf mx m cs) = Some (emit buf mx m (cs @ str_text fl mn lim xs))"
proof -
  define p where "p = max 0 (mn - int (length xs))"
  define pad where "pad = (if F_MINUS fl then - p else p)"
  define c1 where "c1 = 0 + max 0 (min pad (lim - 0))"
  define c2 where "c2 = c1 + max 0 (min (int (length xs - 0)) (lim - c1))"
  define pad2 where "pad2 = (if pad < 0 then - pad else 0)"
  let ?s = "asc CHR '' ''"
  let ?a = "replicate (nat (min pad (lim - 0))) ?s" and ?b = "take (nat (lim - c1)) (drop 0 xs)"
    and ?c = "replicate (nat (min pad2 (lim - c2))) ?s"
  have p: "0 \<le> p" "nat (mn - int (length xs)) = nat p" by (auto simp: p_def)
  have tx: "str_text fl mn lim xs = ?a @ ?b @ ?c"
  proof (cases "F_MINUS fl")
    case True
    then have "pad = - p" "pad2 = p" using p(1) by (auto simp: pad_def pad2_def)
    moreover from this have "c1 = 0" "c2 = max 0 (min (int (length xs)) lim)"
      using pad_arith(5) [OF p(1)] by (simp_all add: c1_def c2_def)
    ultimately show ?thesis using True p(2) pad_arith(1,4) [OF p(1)] by (simp add: str_text_def)
  next
    case False
    then have "pad = p" "pad2 = 0" using p(1) by (auto simp: pad_def pad2_def)
    moreover from this have "c1 = max 0 (min p lim)" by (simp add: c1_def)
    ultimately show ?thesis using False p(2) pad_arith(2,3) [OF p(1)] pad_arith(6) [OF p(1), of "lim - c2"]
      by (simp add: str_text_def)
  qed
  have r: "room buf mx m cs ?a" "room buf mx m (cs @ ?a) ?b" "room buf mx m ((cs @ ?a) @ ?b) ?c"
    using room unfolding tx room_split append_assoc by blast+
  have len: "strv_len (fst (emit buf mx m cs)) v 0 = Some (length xs)" by (rule strv_len_run [OF v(1)]) simp
  have ci: "cint (mn - int (length xs)) = Some (mn - int (length xs))" using mn by (simp add: cint_def)
  have "fmtstr buf mx v fl mn lim (emit buf mx m cs) = do {
      (out, cnt) \<leftarrow> fmtstr_pad buf mx pad 0 lim (emit buf mx m cs);
      (out, cnt) \<leftarrow> fmtstr_value buf mx v 0 cnt lim out;
      (out, cnt) \<leftarrow> fmtstr_pad buf mx pad2 cnt lim out;
      Some out }"
    unfolding fmtstr_def Let_def if_not_P [OF v(2)] len ci Option.bind.bind_lunit nat_max0
      p_def [symmetric] pad_def [symmetric] pad2_def [symmetric] ..
  also have "\<dots> = Some (emit buf mx m (((cs @ ?a) @ ?b) @ ?c))"
    unfolding fmtstr_pad_emit [OF r(1)] Option.bind.bind_lunit prod.case c1_def [symmetric]
      fmtstr_value_emit [OF v(1) le0 r(2)] c2_def [symmetric] fmtstr_pad_emit [OF r(3)] ..
  finally show ?thesis unfolding tx by simp
qed

definition fmt_digits :: "nat \<Rightarrow> bool \<Rightarrow> nat \<Rightarrow> u8 list" where
  "fmt_digits base caps n = (let cv = fmt_convert base caps n 0 in
     rev (take (if length cv = 20 then length cv - 1 else length cv) cv))"

definition magnitude :: "dp_flags \<Rightarrow> u64 \<Rightarrow> nat" where
  "magnitude fl value = unat (if \<not> F_UNSIGNED fl \<and> sint value < 0 then - value else value)"

definition int_text :: "u64 \<Rightarrow> nat \<Rightarrow> int \<Rightarrow> int \<Rightarrow> dp_flags \<Rightarrow> u8 list" where
  "int_text value base mn lim fl = (let
     sign = (case fmt_sign value fl of None \<Rightarrow> [] | Some c \<Rightarrow> [c]);
     ds = fmt_digits base (F_UP fl) (magnitude fl value);
     spaces = nat (mn - max (max 0 lim) (int (length ds)) - int (length sign));
     zeros = nat (max 0 lim - int (length ds)) in
     if F_ZERO fl then sign @ replicate (max zeros spaces) (asc CHR ''0'') @ ds
     else if F_MINUS fl then sign @ replicate zeros (asc CHR ''0'') @ ds @ replicate spaces (asc CHR '' '')
     else replicate spaces (asc CHR '' '') @ sign @ replicate zeros (asc CHR ''0'') @ ds)"

lemma fmt_convert_len: "place < 20 \<Longrightarrow> length (fmt_convert base caps n place) \<le> 20 - place"
proof (induction base caps n place rule: fmt_convert.induct)
  case (1 base caps n place)
  then show ?case by (subst fmt_convert.simps) auto
qed

lemma fmtint_emit:
  assumes mn: "0 \<le> mn" "mn < 2 ^ 31" "lim < 2 ^ 31"
    and room: "room buf mx m cs (int_text value base mn lim fl)"
  shows "fmtint buf mx value base mn lim fl (emit buf mx m cs) =
    Some (emit buf mx m (cs @ int_text value base mn lim fl))"
proof -
  let ?uv = "if \<not> F_UNSIGNED fl \<and> sint value < 0 then - value else value"
  define cv where "cv = fmt_convert base (F_UP fl) (unat ?uv) 0"
  define place where "place = (if length cv = 20 then length cv - 1 else length cv)"
  define sign where "sign = fmt_sign value fl"
  define lm where "lm = max 0 lim"
  define sp where "sp = mn - max lm (int place) - (if sign \<noteq> None then 1 else 0)"
  define zs where "zs = max 0 (lm - int place)"
  define z2 where "z2 = (if F_ZERO fl then max zs (max 0 sp) else zs)"
  define s2 where "s2 = (if F_ZERO fl then 0 else max 0 sp)"
  define s3 where "s3 = (if F_MINUS fl then - s2 else s2)"
  define sl where "sl = (case sign of None \<Rightarrow> [] | Some c \<Rightarrow> [c])"
  let ?sp = "asc CHR '' ''" and ?z = "asc CHR ''0''"
  let ?a = "replicate (nat s3) ?sp" and ?zz = "replicate (nat z2) ?z" and ?d = "rev (take place cv)"
    and ?e = "replicate (nat (- s3)) ?sp"
  have pl: "place \<le> length cv" "place \<le> 20" using fmt_convert_len [of 0 base "F_UP fl" "unat ?uv"]
    by (auto simp: place_def cv_def)
  then have dl: "length ?d = place" by simp
  have ds: "fmt_digits base (F_UP fl) (magnitude fl value) = ?d"
    by (simp add: fmt_digits_def magnitude_def cv_def place_def Let_def)
  have sg: "(if sign \<noteq> None then 1 else 0) = int (length sl)" by (auto simp: sl_def split: option.splits)
  have n: "nat z2 = (if F_ZERO fl then max (nat (lm - int place)) (nat sp) else nat (lm - int place))"
    "nat s3 = (if F_ZERO fl \<or> F_MINUS fl then 0 else nat sp)"
    "nat (- s3) = (if \<not> F_ZERO fl \<and> F_MINUS fl then nat sp else 0)"
    by (simp_all add: z2_def s3_def s2_def zs_def zpad_arith)
  have "int_text value base mn lim fl =
     (if F_ZERO fl then sl @ replicate (max (nat (lm - int place)) (nat sp)) ?z @ ?d
      else if F_MINUS fl then sl @ replicate (nat (lm - int place)) ?z @ ?d @ replicate (nat sp) ?sp
      else replicate (nat sp) ?sp @ sl @ replicate (nat (lm - int place)) ?z @ ?d)"
    unfolding int_text_def Let_def ds dl sign_def [symmetric] sl_def [symmetric] lm_def [symmetric] sp_def sg ..
  then have tx: "int_text value base mn lim fl = ?a @ sl @ ?zz @ ?d @ ?e" unfolding n by simp
  have r: "room buf mx m cs ?a" "room buf mx m (cs @ ?a) sl" "room buf mx m ((cs @ ?a) @ sl) ?zz"
    "room buf mx m (((cs @ ?a) @ sl) @ ?zz) ?d" "room buf mx m ((((cs @ ?a) @ sl) @ ?zz) @ ?d) ?e"
    using room unfolding tx room_split append_assoc by blast+
  have ci: "cint sp = Some sp" using mn pl(2) by (auto simp: cint_def sp_def lm_def)
  have sgn: "(case sign of None \<Rightarrow> Some (emit buf mx m cs') | Some c \<Rightarrow> dopr_outch buf mx c (emit buf mx m cs')) =
      Some (emit buf mx m (cs' @ sl))" if "room buf mx m cs' sl" for cs'
    using that dopr_outch_emit [of m buf mx cs'] by (auto simp: sl_def room_def split: option.splits)
  have "fmtint buf mx value base mn lim fl (emit buf mx m cs) = do {
     out \<leftarrow> outch_n buf mx (nat s3) ?sp (emit buf mx m cs);
     out \<leftarrow> (case sign of None \<Rightarrow> Some out | Some c \<Rightarrow> dopr_outch buf mx c out);
     out \<leftarrow> outch_n buf mx (nat z2) ?z out;
     out \<leftarrow> outch_digits buf mx cv place out;
     outch_n buf mx (nat (- s3)) ?sp out }"
    unfolding fmtint_def Let_def nat_max0 cv_def [symmetric] place_def [symmetric] sign_def [symmetric]
      lm_def [symmetric] sp_def [symmetric] ci Option.bind.bind_lunit zs_def [symmetric] z2_def [symmetric]
      s2_def [symmetric] s3_def [symmetric] ..
  also have "\<dots> = Some (emit buf mx m (((((cs @ ?a) @ sl) @ ?zz) @ ?d) @ ?e))"
    unfolding outch_n_emit [OF r(1)] Option.bind.bind_lunit sgn [OF r(2)] outch_n_emit [OF r(3)]
      outch_digits_emit [OF r(4) pl(1)] outch_n_emit [OF r(5)] ..
  finally show ?thesis unfolding tx by simp
qed

subsection \<open>Digits\<close>

definition digit_val :: "u8 \<Rightarrow> nat" where
  "digit_val c = (if unat c < 58 then unat c - 48 else if unat c < 71 then unat c - 55 else unat c - 87)"

definition numeral_val :: "nat \<Rightarrow> u8 list \<Rightarrow> nat" where
  "numeral_val base cs = foldl (\<lambda>a c. a * base + digit_val c) 0 cs"

lemma digit_val_digit: "d < 16 \<Longrightarrow> digit_val (dp_digit caps d) = d"
proof -
  assume "d < 16"
  then have "d \<in> {0, 1, 2, 3, 4, 5, 6, 7, 8, 9, 10, 11, 12, 13, 14, 15}" by (auto simp: numeral_eq_Suc less_Suc_eq)
  then show ?thesis by (cases caps) (auto simp: digit_val_def dp_digit_def asc_def)
qed

lemma fmt_convert_nth:
  "j < length (fmt_convert base caps n place) \<Longrightarrow>
   fmt_convert base caps n place ! j = dp_digit caps (n div base ^ j mod base)"
proof (induction base caps n place arbitrary: j rule: fmt_convert.induct)
  case (1 base caps n place)
  show ?case
  proof (cases j)
    case 0
    then show ?thesis by (subst fmt_convert.simps) simp
  next
    case (Suc k)
    show ?thesis
    proof (cases "n div base \<noteq> 0 \<and> place + 1 < 20")
      case True
      have unf: "fmt_convert base caps n place =
          dp_digit caps (n mod base) # fmt_convert base caps (n div base) (place + 1)"
        using True by (subst fmt_convert.simps) simp
      with "1.prems" Suc have "k < length (fmt_convert base caps (n div base) (place + 1))" by simp
      from "1.IH" [OF True this] show ?thesis
        unfolding unf Suc by (simp add: div_mult2_eq)
    next
      case False
      with "1.prems" Suc show ?thesis by (subst (asm) fmt_convert.simps) auto
    qed
  qed
qed

lemma fmt_convert_all:
  "2 \<le> base \<Longrightarrow> place < 20 \<Longrightarrow> length (fmt_convert base caps n place) < 20 - place \<Longrightarrow>
   n < base ^ length (fmt_convert base caps n place)"
proof (induction base caps n place rule: fmt_convert.induct)
  case (1 base caps n place)
  show ?case
  proof (cases "n div base \<noteq> 0 \<and> place + 1 < 20")
    case True
    have unf: "fmt_convert base caps n place =
        dp_digit caps (n mod base) # fmt_convert base caps (n div base) (place + 1)"
      using True by (subst fmt_convert.simps) simp
    have "n div base < base ^ length (fmt_convert base caps (n div base) (place + 1))"
      using "1.prems" True unf by (intro "1.IH" [OF True]) auto
    then have "n < base ^ length (fmt_convert base caps (n div base) (place + 1)) * base"
      using "1.prems"(1) by (subst (asm) div_less_iff_less_mult) auto
    then show ?thesis unfolding unf by (simp add: mult.commute)
  next
    case False
    with "1.prems" have "n div base = 0" by (cases "n div base = 0") (subst (asm) fmt_convert.simps, auto)+
    with "1.prems"(1) have "n < base" by (simp add: div_eq_0_iff)
    with False show ?thesis by (subst fmt_convert.simps) auto
  qed
qed

lemma numeral_val_rev_take:
  assumes "2 \<le> base" "base \<le> 16" "k \<le> length (fmt_convert base caps n 0)"
  shows "numeral_val base (rev (take k (fmt_convert base caps n 0))) = n mod base ^ k"
  using assms(3)
proof (induction k)
  case 0
  then show ?case by (simp add: numeral_val_def)
next
  case (Suc k)
  let ?cv = "fmt_convert base caps n 0"
  have shift: "foldl (\<lambda>a c. a * base + digit_val c) a cs = a * base ^ length cs + numeral_val base cs" for a cs
    unfolding numeral_val_def by (induction cs rule: rev_induct) (auto simp: algebra_simps)
  have d: "digit_val (?cv ! k) = n div base ^ k mod base"
  proof -
    have "n div base ^ k mod base < 16" using assms(1,2) by (intro less_le_trans [OF mod_less_divisor]) auto
    then show ?thesis using fmt_convert_nth [of k base caps n 0] Suc.prems by (simp add: digit_val_digit)
  qed
  have "rev (take (Suc k) ?cv) = ?cv ! k # rev (take k ?cv)" using Suc.prems by (simp add: take_Suc_conv_app_nth)
  then have "numeral_val base (rev (take (Suc k) ?cv)) = digit_val (?cv ! k) * base ^ k + n mod base ^ k"
    using Suc shift [of "digit_val (?cv ! k)" "rev (take k ?cv)"] by (simp add: numeral_val_def)
  also have "\<dots> = n mod base ^ Suc k" using mod_mult2_eq [of n "base ^ k" base] by (simp only: d power_Suc2) (simp add: mult.commute)
  finally show ?case .
qed

lemma fmt_digits_val:
  assumes "2 \<le> base" "base \<le> 16"
  shows "numeral_val base (fmt_digits base caps n) = n mod base ^ 19"
proof -
  let ?cv = "fmt_convert base caps n 0"
  show ?thesis
  proof (cases "length ?cv = 20")
    case True
    then show ?thesis using numeral_val_rev_take [OF assms, of 19 caps n] by (simp add: fmt_digits_def)
  next
    case False
    then have l: "length ?cv < 20" using fmt_convert_len [of 0 base caps n] by simp
    with assms(1) have n: "n < base ^ length ?cv" by (intro fmt_convert_all) auto
    also have "\<dots> \<le> base ^ 19" using assms(1) l by (intro power_increasing) auto
    finally have "n < base ^ 19" .
    with n False numeral_val_rev_take [OF assms, of "length ?cv" caps n] show ?thesis
      by (simp add: fmt_digits_def)
  qed
qed

text \<open>
  A reader of integers: blanks, an optional sign, digits up to the next blank.
\<close>

definition blank :: "u8 \<Rightarrow> bool" where
  "blank c \<longleftrightarrow> c = asc CHR '' ''"

definition sign_ch :: "u8 \<Rightarrow> bool" where
  "sign_ch c \<longleftrightarrow> c = asc CHR ''-'' \<or> c = asc CHR ''+''"

definition read_int :: "nat \<Rightarrow> u8 list \<Rightarrow> int" where
  "read_int base tx = (case dropWhile blank tx of [] \<Rightarrow> 0
     | c # cs \<Rightarrow> (if c = asc CHR ''-'' then - 1 else 1) *
         int (numeral_val base (takeWhile (\<lambda>c. \<not> blank c) (if sign_ch c then cs else c # cs))))"

lemma digit_plain: "d < 16 \<Longrightarrow> \<not> blank (dp_digit caps d) \<and> \<not> sign_ch (dp_digit caps d)"
proof -
  assume "d < 16"
  then have "d \<in> {0, 1, 2, 3, 4, 5, 6, 7, 8, 9, 10, 11, 12, 13, 14, 15}" by (auto simp: numeral_eq_Suc less_Suc_eq)
  then show ?thesis by (cases caps) (auto simp: blank_def sign_ch_def dp_digit_def asc_def)
qed

lemma fmt_digits_plain:
  assumes "0 < base" "base \<le> 16"
  shows "\<forall>c \<in> set (fmt_digits base caps n). \<not> blank c \<and> \<not> sign_ch c" "fmt_digits base caps n \<noteq> []"
    "length (fmt_digits base caps n) \<le> 19"
proof -
  let ?cv = "fmt_convert base caps n 0"
  have "\<forall>c \<in> set ?cv. \<not> blank c \<and> \<not> sign_ch c"
  proof
    fix c assume "c \<in> set ?cv"
    then obtain j where j: "j < length ?cv" "c = ?cv ! j" by (metis in_set_conv_nth)
    have "n div base ^ j mod base < 16" using assms by (intro less_le_trans [OF mod_less_divisor]) auto
    with j show "\<not> blank c \<and> \<not> sign_ch c" using digit_plain by (simp add: fmt_convert_nth)
  qed
  then show "\<forall>c \<in> set (fmt_digits base caps n). \<not> blank c \<and> \<not> sign_ch c"
    by (auto simp: fmt_digits_def Let_def dest: in_set_takeD)
  have "?cv \<noteq> []" by (subst fmt_convert.simps) simp
  then show "fmt_digits base caps n \<noteq> []" by (auto simp: fmt_digits_def Let_def)
  show "length (fmt_digits base caps n) \<le> 19"
    using fmt_convert_len [of 0 base caps n] by (auto simp: fmt_digits_def Let_def)
qed

lemma numeral_val_zeros: "numeral_val base (replicate k (asc CHR ''0'') @ ds) = numeral_val base ds"
proof (induction k)
  case (Suc k)
  then show ?case by (simp add: numeral_val_def digit_val_def asc_def)
qed simp

lemma read_int_layout:
  assumes ds: "\<forall>c \<in> set ds. \<not> blank c \<and> \<not> sign_ch c" "ds \<noteq> []"
    and sl: "sl \<in> {[], [asc CHR ''-''], [asc CHR ''+''], [asc CHR '' '']}"
  shows "read_int base (replicate a (asc CHR '' '') @ sl @ replicate z (asc CHR ''0'') @ ds @
      replicate e (asc CHR '' '')) = (if sl = [asc CHR ''-''] then - 1 else 1) * int (numeral_val base ds)"
proof -
  let ?b = "replicate z (asc CHR ''0'') @ ds" and ?e = "replicate e (asc CHR '' '')"
  have sp: "blank (asc CHR '' '')" by (simp add: blank_def)
  have plain: "\<forall>c \<in> set ?b. \<not> blank c \<and> \<not> sign_ch c" "?b \<noteq> []"
    using ds by (auto simp: blank_def sign_ch_def asc_def)
  then obtain c cs where b: "?b = c # cs" "\<not> blank c" "\<not> sign_ch c" by (cases ?b) auto
  have drop: "dropWhile blank (replicate a (asc CHR '' '') @ xs) = dropWhile blank xs" for xs
    using sp by (induction a) auto
  have "takeWhile (\<lambda>c. \<not> blank c) ?e = []" using sp by (cases e) auto
  then have take: "takeWhile (\<lambda>c. \<not> blank c) (?b @ ?e) = ?b"
    using plain by (subst takeWhile_append2) auto
  have t: "takeWhile (\<lambda>c. \<not> blank c) (c # cs @ ?e) = ?b" using take b(1) by simp
  have nm: "numeral_val base ?b = numeral_val base ds" by (rule numeral_val_zeros)
  have ne: "c \<noteq> asc CHR ''-''" using b(3) by (simp add: sign_ch_def)
  have ch: "\<not> blank (asc CHR ''-'')" "\<not> blank (asc CHR ''+'')" "sign_ch (asc CHR ''-'')" "sign_ch (asc CHR ''+'')"
    "asc CHR ''+'' \<noteq> asc CHR ''-''" "asc CHR '' '' \<noteq> asc CHR ''-''"
    by (simp_all add: blank_def sign_ch_def asc_def)
  have "read_int base (replicate a (asc CHR '' '') @ sl @ c # cs @ ?e) =
      (if sl = [asc CHR ''-''] then - 1 else 1) * int (numeral_val base ?b)"
    using sl ch sp b(2,3) ne t unfolding read_int_def drop by (auto simp del: takeWhile.simps)
  then show ?thesis using b(1) nm by (metis append_Cons append_assoc)
qed

lemma fmt_sign_list:
  "(case fmt_sign value fl of None \<Rightarrow> [] | Some c \<Rightarrow> [c]) \<in> {[], [asc CHR ''-''], [asc CHR ''+''], [asc CHR '' '']}"
  "(case fmt_sign value fl of None \<Rightarrow> [] | Some c \<Rightarrow> [c]) = [asc CHR ''-''] \<longleftrightarrow> \<not> F_UNSIGNED fl \<and> sint value < 0"
  by (auto simp: fmt_sign_def asc_def)

lemma text_len_arith:
  fixes mn lim :: int
  assumes "l \<le> 1" "z = nat (max 0 lim - int n)" "sp = nat (mn - max (max 0 lim) (int n) - int l)"
  shows "int (l + max z sp + n) \<le> max mn (max lim (int n) + 1)"
    "int (l + z + sp + n) \<le> max mn (max lim (int n) + 1)"
  using assms by linarith+

lemma int_text_layout:
  obtains a z e where "int_text value base mn lim fl = replicate a (asc CHR '' '') @
      (case fmt_sign value fl of None \<Rightarrow> [] | Some c \<Rightarrow> [c]) @ replicate z (asc CHR ''0'') @
      fmt_digits base (F_UP fl) (magnitude fl value) @ replicate e (asc CHR '' '')"
proof -
  let ?n = "length (fmt_digits base (F_UP fl) (magnitude fl value))"
  let ?l = "length (case fmt_sign value fl of None \<Rightarrow> [] | Some c \<Rightarrow> [c])"
  let ?z = "nat (max 0 lim - int ?n)" and ?sp = "nat (mn - max (max 0 lim) (int ?n) - int ?l)"
  consider "F_ZERO fl" | "\<not> F_ZERO fl" "F_MINUS fl" | "\<not> F_ZERO fl" "\<not> F_MINUS fl" by blast
  then show ?thesis
  proof cases
    case 1
    then show ?thesis by (intro that [of 0 "max ?z ?sp" 0]) (simp add: int_text_def Let_def)
  next
    case 2
    then show ?thesis by (intro that [of 0 ?z ?sp]) (simp add: int_text_def Let_def)
  next
    case 3
    then show ?thesis by (intro that [of ?sp ?z 0]) (simp add: int_text_def Let_def)
  qed
qed

lemma int_text_len:
  assumes "0 < base" "base \<le> 16"
  shows "int (length (int_text value base mn lim fl)) \<le> max mn (max lim 19 + 1)"
proof -
  define n where "n = length (fmt_digits base (F_UP fl) (magnitude fl value))"
  define l where "l = length (case fmt_sign value fl of None \<Rightarrow> [] | Some c \<Rightarrow> [c])"
  define z where "z = nat (max 0 lim - int n)"
  define sp where "sp = nat (mn - max (max 0 lim) (int n) - int l)"
  have "length (int_text value base mn lim fl) = (if F_ZERO fl then l + max z sp + n else l + z + sp + n)"
    by (simp add: int_text_def Let_def n_def l_def z_def sp_def)
  moreover have "l \<le> 1" by (simp add: l_def split: option.splits)
  then have "int (l + max z sp + n) \<le> max mn (max lim (int n) + 1)" "int (l + z + sp + n) \<le> max mn (max lim (int n) + 1)"
    by (rule text_len_arith [OF _ z_def sp_def])+
  moreover have "max mn (max lim (int n) + 1) \<le> max mn (max lim 19 + 1)"
    using fmt_digits_plain(3) [OF assms, of "F_UP fl" "magnitude fl value"] unfolding n_def by linarith
  ultimately show ?thesis by (metis order_trans)
qed

lemma neg_magnitude:
  assumes "sint (value :: u64) < 0"
  shows "int (unat (- value)) = - sint value"
proof -
  have "uint (- value) = uint (of_int (- sint value) :: u64)" by simp
  also have "\<dots> = take_bit 64 (- sint value)" by (simp only: uint_word_of_int_eq) simp
  also have "\<dots> = - sint value"
    using assms sint_ge [of "value"] by (intro take_bit_int_eq_self) auto
  finally show ?thesis by simp
qed

lemma pos_magnitude:
  assumes "0 \<le> sint (value :: u64)"
  shows "int (unat value) = sint value"
proof -
  have "uint value = take_bit 64 (sint value)" using uint_sint [of "value"] by simp
  also have "\<dots> = sint value" using assms sint_lt [of "value"] by (intro take_bit_int_eq_self) auto
  finally show ?thesis by simp
qed

lemma read_int_text:
  assumes "2 \<le> base" "base \<le> 16"
  shows "read_int base (int_text value base mn lim fl) = (if F_UNSIGNED fl then uint value mod int base ^ 19
      else sgn (sint value) * (\<bar>sint value\<bar> mod int base ^ 19))"
proof -
  let ?ds = "fmt_digits base (F_UP fl) (magnitude fl value)"
  obtain a z e where t: "int_text value base mn lim fl = replicate a (asc CHR '' '') @
      (case fmt_sign value fl of None \<Rightarrow> [] | Some c \<Rightarrow> [c]) @ replicate z (asc CHR ''0'') @ ?ds @
      replicate e (asc CHR '' '')"
    by (rule int_text_layout)
  have "read_int base (int_text value base mn lim fl) =
      (if \<not> F_UNSIGNED fl \<and> sint value < 0 then - 1 else 1) * (int (magnitude fl value) mod int base ^ 19)"
    unfolding t using assms
    by (subst read_int_layout [OF fmt_digits_plain(1,2) fmt_sign_list(1)])
      (simp_all add: fmt_sign_list(2) fmt_digits_val zmod_int)
  then show ?thesis
    using neg_magnitude [of "value"] pos_magnitude [of "value"]
    by (cases "sint value" "0 :: int" rule: linorder_cases) (auto simp: magnitude_def)
qed

text \<open>Every output position within the buffer is one that \<open>emit\<close> describes.\<close>

lemma emit_self:
  assumes "mapped m buf (unat mx)" "unat len \<le> unat mx"
  obtains cs where "emit buf mx m cs = (m, len)" "length cs = unat len"
proof -
  let ?cs = "map (\<lambda>i. the (m (buf + i))) [0..<unat len]"
  have "wr m buf ?cs q = m q" for q
  proof (cases "buf \<le> q \<and> q < buf + unat len")
    case True
    then obtain i where i: "q = buf + i" "i < unat len" by (metis le_iff_add nat_add_left_cancel_less)
    with assms have "m q \<noteq> None" by (auto simp: mapped_def)
    with i wr_at [of i ?cs m buf] show ?thesis by simp
  next
    case False
    then show ?thesis by (intro wr_other) auto
  qed
  then have "wr m buf ?cs = m" by blast
  with assms(2) show ?thesis by (intro that [of ?cs]) (simp_all add: emit_def)
qed

lemma fmtint_text:
  assumes "0 < base" "base \<le> 16" "0 \<le> mn" "mn < 2 ^ 31" "lim < 2 ^ 31" "mapped m buf (unat mx)"
    and fits: "int (unat len) + max mn (max lim 19 + 1) \<le> int (unat mx)"
  shows "\<exists>m'. fmtint buf mx value base mn lim fl (m, len) =
      Some (m', len + of_nat (length (int_text value base mn lim fl))) \<and>
    (\<forall>i < length (int_text value base mn lim fl).
       m' (buf + unat len + i) = Some (int_text value base mn lim fl ! i))"
proof -
  let ?t = "int_text value base mn lim fl"
  have le: "unat len + length ?t \<le> unat mx"
    using int_text_len [OF assms(1,2), of "value" mn lim fl] fits by linarith
  then obtain cs where cs: "emit buf mx m cs = (m, len)" "length cs = unat len"
    using emit_self [OF assms(6), of len] by auto
  have "room buf mx m cs ?t"
    using assms(6) le cs(2) unsigned_less [of mx, where ?'a=nat] by (simp add: room_def)
  from fmtint_emit [OF assms(3-5) this] cs(1) have
    "fmtint buf mx value base mn lim fl (m, len) = Some (emit buf mx m (cs @ ?t))" by simp
  moreover have "take (unat mx) (cs @ ?t) = cs @ ?t" using le cs(2) by simp
  moreover have "wr m buf (cs @ ?t) (buf + unat len + i) = Some (?t ! i)" if "i < length ?t" for i
    using wr_at [of "unat len + i" "cs @ ?t" m buf] that cs(2) by (simp add: nth_append add.assoc)
  ultimately show ?thesis using cs(2) by (simp add: emit_def)
qed

subsection \<open>Formats\<close>

text \<open>A width or precision: digits in the format or an \<^verbatim>\<open>int\<close> argument.\<close>

datatype fnum = Dig "u8 list" | Star u32

datatype conv = CInt u8 va | CStr nat "u8 list" | CChr u32 | CPtr nat | CPct

datatype piece = Text u8 | Dir "u8 list" fnum "fnum option" dp_cflags conv

definition dec :: "int \<Rightarrow> u8 list \<Rightarrow> int" where
  "dec a ds = foldl (\<lambda>a d. 10 * a + char_to_int d) a ds"

fun fnum_src :: "fnum \<Rightarrow> u8 list" where
  "fnum_src (Dig ds) = ds"
| "fnum_src (Star _) = [asc CHR ''*'']"

fun fnum_args :: "fnum \<Rightarrow> va list" where
  "fnum_args (Dig _) = []"
| "fnum_args (Star i) = [VInt i]"

fun width_val :: "fnum \<Rightarrow> int" where
  "width_val (Dig ds) = dec 0 ds"
| "width_val (Star i) = sint i"

fun prec_val :: "fnum option \<Rightarrow> int" where
  "prec_val None = - 1"
| "prec_val (Some (Dig ds)) = (if ds = [] then - 1 else dec 0 ds)"
| "prec_val (Some (Star i)) = sint i"

fun prec_src :: "fnum option \<Rightarrow> u8 list" where
  "prec_src None = []"
| "prec_src (Some q) = asc CHR ''.'' # fnum_src q"

fun prec_args :: "fnum option \<Rightarrow> va list" where
  "prec_args None = []"
| "prec_args (Some q) = fnum_args q"

fun mod_src :: "dp_cflags \<Rightarrow> u8 list" where
  "mod_src DP_C_NONE = []"
| "mod_src DP_C_SHORT = [asc CHR ''h'']"
| "mod_src DP_C_LONG = [asc CHR ''l'']"
| "mod_src DP_C_LLONG = [asc CHR ''l'', asc CHR ''l'']"
| "mod_src DP_C_LDOUBLE = [asc CHR ''L'']"

fun conv_ch :: "conv \<Rightarrow> u8" where
  "conv_ch (CInt c _) = c"
| "conv_ch (CStr _ _) = asc CHR ''s''"
| "conv_ch (CChr _) = asc CHR ''c''"
| "conv_ch (CPtr _) = asc CHR ''p''"
| "conv_ch CPct = asc CHR ''%''"

fun conv_args :: "conv \<Rightarrow> va list" where
  "conv_args (CInt _ a) = [a]"
| "conv_args (CStr q _) = [VPtr q]"
| "conv_args (CChr i) = [VInt i]"
| "conv_args (CPtr q) = [VPtr q]"
| "conv_args CPct = []"

fun unparse :: "piece \<Rightarrow> u8 list" where
  "unparse (Text c) = [c]"
| "unparse (Dir fl w q cf cv) = asc CHR ''%'' # fl @ fnum_src w @ prec_src q @ mod_src cf @ [conv_ch cv]"

fun piece_args :: "piece \<Rightarrow> va list" where
  "piece_args (Text c) = []"
| "piece_args (Dir fl w q cf cv) = fnum_args w @ prec_args q @ conv_args cv"

definition flag_chars :: "u8 list" where
  "flag_chars = map asc ''-+ #0''"

definition add_flag :: "dp_flags \<Rightarrow> u8 \<Rightarrow> dp_flags" where
  "add_flag f c =
     (if c = asc CHR ''-'' then f\<lparr>F_MINUS := True\<rparr> else if c = asc CHR ''+'' then f\<lparr>F_PLUS := True\<rparr>
      else if c = asc CHR '' '' then f\<lparr>F_SPACE := True\<rparr> else if c = asc CHR ''#'' then f\<lparr>F_NUM := True\<rparr>
      else f\<lparr>F_ZERO := True\<rparr>)"

definition int_convs :: "u8 list" where
  "int_convs = map asc ''diouxX''"

definition conv_signed :: "u8 \<Rightarrow> bool" where
  "conv_signed c \<longleftrightarrow> c = asc CHR ''d'' \<or> c = asc CHR ''i''"

definition conv_base :: "u8 \<Rightarrow> nat" where
  "conv_base c = (if c = asc CHR ''o'' then 8 else if c = asc CHR ''x'' \<or> c = asc CHR ''X'' then 16 else 10)"

definition conv_flags :: "u8 \<Rightarrow> dp_flags \<Rightarrow> dp_flags" where
  "conv_flags c f = (if conv_signed c then f
     else if c = asc CHR ''X'' then f\<lparr>F_UNSIGNED := True, F_UP := True\<rparr> else f\<lparr>F_UNSIGNED := True\<rparr>)"

definition str_lim :: "int \<Rightarrow> int \<Rightarrow> u8 list \<Rightarrow> int" where
  "str_lim mn lim xs = (let l = (if lim = - 1 then int (length xs) else lim) in
     if mn > 0 \<and> l \<ge> 0 \<and> mn > l then mn else l)"

fun conv_text :: "dp_flags \<Rightarrow> int \<Rightarrow> int \<Rightarrow> dp_cflags \<Rightarrow> conv \<Rightarrow> u8 list" where
  "conv_text fl mn lim cf (CInt c a) = (case va_value cf (conv_signed c) [a] of
     Some (value, _) \<Rightarrow> int_text value (conv_base c) mn lim (conv_flags c fl) | None \<Rightarrow> [])"
| "conv_text fl mn lim cf (CStr q xs) = str_text fl mn (str_lim mn lim xs) xs"
| "conv_text fl mn lim cf (CChr i) = [ucast i]"
| "conv_text fl mn lim cf (CPtr q) = int_text (ucast (of_nat q :: u32)) 16 mn lim (fl\<lparr>F_UNSIGNED := True\<rparr>)"
| "conv_text fl mn lim cf CPct = [asc CHR ''%'']"

fun render :: "piece \<Rightarrow> u8 list" where
  "render (Text c) = [c]"
| "render (Dir fl w q cf cv) = conv_text (foldl add_flag no_flags fl) (width_val w) (prec_val q) cf cv"

text \<open>
  Well-formed pieces: widths and precisions are non-negative and fit an \<^verbatim>\<open>int\<close>, the argument has
  the type the conversion reads, and a string argument does not overlap the buffer.
\<close>

definition digits_ok :: "u8 list \<Rightarrow> bool" where
  "digits_ok ds \<longleftrightarrow> (\<forall>d \<in> set ds. isdigit (uint d)) \<and> dec 0 ds < 2 ^ 31"

fun width_ok :: "fnum \<Rightarrow> bool" where
  "width_ok (Dig ds) \<longleftrightarrow> digits_ok ds \<and> (ds = [] \<or> hd ds \<noteq> asc CHR ''0'')"
| "width_ok (Star i) \<longleftrightarrow> sint i \<ge> 0"

fun prec_ok :: "fnum option \<Rightarrow> bool" where
  "prec_ok (Some (Dig ds)) \<longleftrightarrow> digits_ok ds"
| "prec_ok _ \<longleftrightarrow> True"

fun conv_ok :: "nat \<Rightarrow> u32 \<Rightarrow> bmem \<Rightarrow> dp_cflags \<Rightarrow> conv \<Rightarrow> bool" where
  "conv_ok buf mx m cf (CInt c a) \<longleftrightarrow> c \<in> set int_convs \<and> va_value cf (conv_signed c) [a] \<noteq> None"
| "conv_ok buf mx m cf (CStr q xs) \<longleftrightarrow> int (length xs) < 2 ^ 31 \<and>
     (if q = 0 then xs = map asc ''(NULL)'' else if \<not> VM_IS_KERN q then xs = map asc ''(INVALID)''
      else strv_is buf mx m (At q) xs)"
| "conv_ok buf mx m cf _ \<longleftrightarrow> True"

fun piece_ok :: "nat \<Rightarrow> u32 \<Rightarrow> bmem \<Rightarrow> piece \<Rightarrow> bool" where
  "piece_ok buf mx m (Text c) \<longleftrightarrow> c \<noteq> 0 \<and> c \<noteq> asc CHR ''%''"
| "piece_ok buf mx m (Dir fl w q cf cv) \<longleftrightarrow>
     set fl \<subseteq> set flag_chars \<and> width_ok w \<and> prec_ok q \<and> conv_ok buf mx m cf cv"

subsection \<open>Running the state machine\<close>

text \<open>
  The state in which \<open>xs\<close>, at address \<open>p\<close>, is still to be read and \<open>cs\<close> has been printed.
\<close>

definition vst :: "nat \<Rightarrow> u32 \<Rightarrow> bmem \<Rightarrow> dp_state \<Rightarrow> nat \<Rightarrow> u8 list \<Rightarrow> va list \<Rightarrow> int \<Rightarrow> int \<Rightarrow> dp_flags \<Rightarrow>
    dp_cflags \<Rightarrow> u8 list \<Rightarrow> vsn" where
  "vst buf mx m s p xs args mn lim fl cf cs =
     \<lparr> v_state = s, v_ch = hd (xs @ [0]), v_format = p + 1, v_args = args, v_min = mn, v_max = lim,
       v_flags = fl, v_cflags = cf, v_out = emit buf mx m cs \<rparr>"

definition fmt_at :: "nat \<Rightarrow> u32 \<Rightarrow> bmem \<Rightarrow> nat \<Rightarrow> u8 list \<Rightarrow> bool" where
  "fmt_at buf mx m p xs \<longleftrightarrow> cstr m p xs \<and> (p + length xs < buf \<or> buf + unat mx \<le> p)"

lemma vst_simps [simp]:
  "v_state (vst buf mx m s p xs args mn lim fl cf cs) = s"
  "v_ch (vst buf mx m s p (x # xs) args mn lim fl cf cs) = x"
  "v_ch (vst buf mx m s p [] args mn lim fl cf cs) = 0"
  "v_args (vst buf mx m s p xs args mn lim fl cf cs) = args"
  "v_min (vst buf mx m s p xs args mn lim fl cf cs) = mn"
  "v_max (vst buf mx m s p xs args mn lim fl cf cs) = lim"
  "v_flags (vst buf mx m s p xs args mn lim fl cf cs) = fl"
  "v_cflags (vst buf mx m s p xs args mn lim fl cf cs) = cf"
  "v_out (vst buf mx m s p xs args mn lim fl cf cs) = emit buf mx m cs"
  "(vst buf mx m s p xs args mn lim fl cf cs)\<lparr>v_state := s'\<rparr> = vst buf mx m s' p xs args mn lim fl cf cs"
  "(vst buf mx m s p xs args mn lim fl cf cs)\<lparr>v_args := args'\<rparr> = vst buf mx m s p xs args' mn lim fl cf cs"
  "(vst buf mx m s p xs args mn lim fl cf cs)\<lparr>v_min := mn'\<rparr> = vst buf mx m s p xs args mn' lim fl cf cs"
  "(vst buf mx m s p xs args mn lim fl cf cs)\<lparr>v_max := lim'\<rparr> = vst buf mx m s p xs args mn lim' fl cf cs"
  "(vst buf mx m s p xs args mn lim fl cf cs)\<lparr>v_flags := fl'\<rparr> = vst buf mx m s p xs args mn lim fl' cf cs"
  "(vst buf mx m s p xs args mn lim fl cf cs)\<lparr>v_cflags := cf'\<rparr> = vst buf mx m s p xs args mn lim fl cf' cs"
  "(vst buf mx m s p xs args mn lim fl cf cs)\<lparr>v_out := emit buf mx m cs'\<rparr> = vst buf mx m s p xs args mn lim fl cf cs'"
  by (simp_all add: vst_def)

lemma fmt_at_tl: "fmt_at buf mx m p (x # xs) \<Longrightarrow> fmt_at buf mx m (p + 1) xs"
  by (auto simp: fmt_at_def)

lemma fmt_at_drop: "fmt_at buf mx m p (ys @ xs) \<Longrightarrow> fmt_at buf mx m (p + length ys) xs"
proof (induction ys arbitrary: p)
  case (Cons y ys)
  with Cons.IH [of "p + 1"] fmt_at_tl [of buf mx m p y "ys @ xs"] show ?case by simp
qed simp

lemma fmt_at_hd: "fmt_at buf mx m p xs \<Longrightarrow> m p = Some (hd (xs @ [0]))"
  by (cases xs) (auto simp: fmt_at_def)

lemma next_vst:
  assumes "fmt_at buf mx m p (x # xs)"
  shows "next_ch (vst buf mx m s p (x # xs) args mn lim fl cf cs) = Some (vst buf mx m s (p + 1) xs args mn lim fl cf cs)"
proof -
  have "wr m buf (take (unat mx) cs) (p + 1) = m (p + 1)"
    using assms by (intro wr_other) (auto simp: fmt_at_def)
  also have "\<dots> = Some (hd (xs @ [0]))"
    using assms by (cases xs) (auto simp: fmt_at_def)
  finally show ?thesis by (simp add: next_ch_def vst_def emit_def)
qed

lemma vsn_loop_step:
  "v_state v \<noteq> DP_S_DONE \<Longrightarrow> vsn_step buf mx v = Some v' \<Longrightarrow> vsn_loop buf mx v = vsn_loop buf mx v'"
  by (subst vsn_loop.simps) simp

lemma fmt_at_nz: "fmt_at buf mx m p (x # xs) \<Longrightarrow> x \<noteq> 0"
  by (simp add: fmt_at_def)

text \<open>One step in each state.\<close>

lemma run_text:
  assumes "fmt_at buf mx m p (x # xs)" "x \<noteq> asc CHR ''%''" "room buf mx m cs [x]"
  shows "vsn_loop buf mx (vst buf mx m DP_S_DEFAULT p (x # xs) args mn lim fl cf cs) =
    vsn_loop buf mx (vst buf mx m DP_S_DEFAULT (p + 1) xs args mn lim fl cf (cs @ [x]))"
  using assms dopr_outch_emit [of m buf mx cs x] fmt_at_nz [OF assms(1)]
  by (intro vsn_loop_step) (simp_all add: vsn_step_def dp_default_def next_vst room_def)

lemma run_percent:
  assumes "fmt_at buf mx m p (asc CHR ''%'' # xs)"
  shows "vsn_loop buf mx (vst buf mx m DP_S_DEFAULT p (asc CHR ''%'' # xs) args mn lim fl cf cs) =
    vsn_loop buf mx (vst buf mx m DP_S_FLAGS (p + 1) xs args mn lim fl cf cs)"
  using assms fmt_at_nz [OF assms(1)]
  by (intro vsn_loop_step) (simp_all add: vsn_step_def dp_default_def next_vst)

lemma run_flag:
  assumes "fmt_at buf mx m p (x # xs)" "x \<in> set flag_chars"
  shows "vsn_loop buf mx (vst buf mx m DP_S_FLAGS p (x # xs) args mn lim fl cf cs) =
    vsn_loop buf mx (vst buf mx m DP_S_FLAGS (p + 1) xs args mn lim (add_flag fl x) cf cs)"
  using assms(2) fmt_at_nz [OF assms(1)] next_vst [OF assms(1)]
  by (intro vsn_loop_step) (auto simp: vsn_step_def dp_flags_step_def add_flag_def flag_chars_def asc_def)

lemma run_flags:
  "fmt_at buf mx m p (fs @ xs) \<Longrightarrow> set fs \<subseteq> set flag_chars \<Longrightarrow>
   vsn_loop buf mx (vst buf mx m DP_S_FLAGS p (fs @ xs) args mn lim fl cf cs) =
   vsn_loop buf mx (vst buf mx m DP_S_FLAGS (p + length fs) xs args mn lim (foldl add_flag fl fs) cf cs)"
proof (induction fs arbitrary: p fl)
  case (Cons f fs)
  from Cons.prems Cons.IH [of "p + 1" "add_flag fl f"] fmt_at_tl [of buf mx m p f "fs @ xs"]
    run_flag [of buf mx m p f "fs @ xs"]
  show ?case by simp
qed simp

lemma run_no_flag:
  assumes "fmt_at buf mx m p (x # xs)" "x \<notin> set flag_chars"
  shows "vsn_loop buf mx (vst buf mx m DP_S_FLAGS p (x # xs) args mn lim fl cf cs) =
    vsn_loop buf mx (vst buf mx m DP_S_MIN p (x # xs) args mn lim fl cf cs)"
  using assms(2) fmt_at_nz [OF assms(1)]
  by (intro vsn_loop_step) (auto simp: vsn_step_def dp_flags_step_def flag_chars_def)

text \<open>Digits and stars.\<close>

lemma digit_range: "isdigit (uint d) \<Longrightarrow> 0 \<le> char_to_int d \<and> char_to_int d \<le> 9"
  by (simp add: isdigit_def char_to_int_def)

lemma dec_Cons: "dec a (d # ds) = dec (10 * a + char_to_int d) ds"
  by (simp add: dec_def)

lemma dec_mono:
  "0 \<le> a \<Longrightarrow> (\<forall>d \<in> set ds. isdigit (uint d)) \<Longrightarrow> a \<le> dec a ds"
proof (induction ds arbitrary: a)
  case Nil
  then show ?case by (simp add: dec_def)
next
  case (Cons d ds)
  then have "10 * a + char_to_int d \<le> dec (10 * a + char_to_int d) ds"
    using digit_range [of d] by (intro Cons.IH) auto
  with Cons.prems digit_range [of d] show ?case by (simp add: dec_Cons)
qed

lemma run_min_digits:
  "fmt_at buf mx m p (ds @ xs) \<Longrightarrow> \<forall>d \<in> set ds. isdigit (uint d) \<Longrightarrow> 0 \<le> mn \<Longrightarrow> dec mn ds < 2 ^ 31 \<Longrightarrow>
   vsn_loop buf mx (vst buf mx m DP_S_MIN p (ds @ xs) args mn lim fl cf cs) =
   vsn_loop buf mx (vst buf mx m DP_S_MIN (p + length ds) xs args (dec mn ds) lim fl cf cs)"
proof (induction ds arbitrary: p mn)
  case Nil
  then show ?case by (simp add: dec_def)
next
  case (Cons d ds)
  let ?n = "10 * mn + char_to_int d"
  have n: "0 \<le> ?n" "?n < 2 ^ 31"
    using Cons.prems digit_range [of d] dec_mono [of ?n ds] by (auto simp: dec_Cons)
  have step: "vsn_loop buf mx (vst buf mx m DP_S_MIN p (d # ds @ xs) args mn lim fl cf cs) =
     vsn_loop buf mx (vst buf mx m DP_S_MIN (p + 1) (ds @ xs) args ?n lim fl cf cs)"
    using Cons.prems n fmt_at_nz [of buf mx m p d "ds @ xs"]
    by (intro vsn_loop_step) (simp_all add: vsn_step_def dp_min_def cint_def next_vst)
  from Cons.prems n fmt_at_tl [of buf mx m p d "ds @ xs"] Cons.IH [of "p + 1" ?n] step show ?case
    by (simp add: dec_Cons)
qed

lemma run_max_digits:
  "fmt_at buf mx m p (ds @ xs) \<Longrightarrow> \<forall>d \<in> set ds. isdigit (uint d) \<Longrightarrow> dec (max 0 lim) ds < 2 ^ 31 \<Longrightarrow>
   vsn_loop buf mx (vst buf mx m DP_S_MAX p (ds @ xs) args mn lim fl cf cs) =
   vsn_loop buf mx (vst buf mx m DP_S_MAX (p + length ds) xs args mn
     (if ds = [] then lim else dec (max 0 lim) ds) fl cf cs)"
proof (induction ds arbitrary: p lim)
  case (Cons d ds)
  let ?n = "10 * max 0 lim + char_to_int d"
  have n: "0 \<le> ?n" "?n < 2 ^ 31"
    using Cons.prems digit_range [of d] dec_mono [of ?n ds] by (auto simp: dec_Cons)
  have step: "vsn_loop buf mx (vst buf mx m DP_S_MAX p (d # ds @ xs) args mn lim fl cf cs) =
     vsn_loop buf mx (vst buf mx m DP_S_MAX (p + 1) (ds @ xs) args mn ?n fl cf cs)"
    using Cons.prems n fmt_at_nz [of buf mx m p d "ds @ xs"]
    by (intro vsn_loop_step) (simp_all add: vsn_step_def dp_max_def [unfolded nat_max0] cint_def next_vst)
  have "max 0 ?n = ?n" using n by simp
  with Cons.prems n fmt_at_tl [of buf mx m p d "ds @ xs"] Cons.IH [of "p + 1" ?n] step show ?case
    by (simp add: dec_Cons) (simp add: dec_def)
qed simp

text \<open>A character that ends a width or precision.\<close>

definition stop :: "u8 \<Rightarrow> bool" where
  "stop x \<longleftrightarrow> \<not> isdigit (uint x) \<and> x \<noteq> asc CHR ''*'' \<and> x \<notin> set flag_chars"

lemma run_width:
  assumes f: "fmt_at buf mx m p (fnum_src w @ x # xs)" and w: "width_ok w" "stop x"
  shows "vsn_loop buf mx (vst buf mx m DP_S_MIN p (fnum_src w @ x # xs) (fnum_args w @ args) 0 lim fl cf cs) =
    vsn_loop buf mx (vst buf mx m DP_S_DOT (p + length (fnum_src w)) (x # xs) args (width_val w) lim fl cf cs)"
proof (cases w)
  case (Dig ds)
  have f2: "fmt_at buf mx m (p + length ds) (x # xs)" using fmt_at_drop [of buf mx m p ds] f Dig by simp
  have "vsn_loop buf mx (vst buf mx m DP_S_MIN (p + length ds) (x # xs) args (dec 0 ds) lim fl cf cs) =
      vsn_loop buf mx (vst buf mx m DP_S_DOT (p + length ds) (x # xs) args (dec 0 ds) lim fl cf cs)"
    using w(2) fmt_at_nz [OF f2] by (intro vsn_loop_step) (simp_all add: vsn_step_def dp_min_def stop_def)
  with run_min_digits [of buf mx m p ds "x # xs" 0] f w(1) Dig show ?thesis by (simp add: digits_ok_def)
next
  case (Star i)
  have "\<not> isdigit (uint (asc CHR ''*''))" by (simp add: asc_def isdigit_def)
  with Star f next_vst [of buf mx m p "asc CHR ''*''" "x # xs"] fmt_at_nz [of buf mx m p "asc CHR ''*''" "x # xs"]
  show ?thesis by (intro vsn_loop_step) (simp_all add: vsn_step_def dp_min_def)
qed

lemma run_prec:
  assumes f: "fmt_at buf mx m p (prec_src q @ x # xs)" and q: "prec_ok q" "stop x" "x \<noteq> asc CHR ''.''"
  shows "vsn_loop buf mx (vst buf mx m DP_S_DOT p (prec_src q @ x # xs) (prec_args q @ args) mn (- 1) fl cf cs) =
    vsn_loop buf mx (vst buf mx m DP_S_MOD (p + length (prec_src q)) (x # xs) args mn (prec_val q) fl cf cs)"
proof (cases q)
  case None
  with f q show ?thesis
    by (intro vsn_loop_step) (simp_all add: vsn_step_def dp_dot_def fmt_at_def)
next
  case (Some r)
  note f' = f [unfolded Some prec_src.simps append_Cons]
  have dot: "vsn_loop buf mx (vst buf mx m DP_S_DOT p (asc CHR ''.'' # ys) args' mn (- 1) fl cf cs) =
      vsn_loop buf mx (vst buf mx m DP_S_MAX (p + 1) ys args' mn (- 1) fl cf cs)"
    if "fmt_at buf mx m p (asc CHR ''.'' # ys)" for ys args'
    using that fmt_at_nz [OF that] by (intro vsn_loop_step) (simp_all add: vsn_step_def dp_dot_def next_vst)
  show ?thesis
  proof (cases r)
    case (Dig ds)
    have f1: "fmt_at buf mx m (p + 1) (ds @ x # xs)" using fmt_at_tl [OF f'] Dig by simp
    have f2: "fmt_at buf mx m (p + 1 + length ds) (x # xs)" by (rule fmt_at_drop [OF f1])
    have "vsn_loop buf mx (vst buf mx m DP_S_MAX (p + 1 + length ds) (x # xs) args mn l fl cf cs) =
        vsn_loop buf mx (vst buf mx m DP_S_MOD (p + 1 + length ds) (x # xs) args mn l fl cf cs)" for l
      using q(2) fmt_at_nz [OF f2] by (intro vsn_loop_step) (simp_all add: vsn_step_def dp_max_def stop_def)
    with dot [OF f'] run_max_digits [OF f1, of "- 1"] q(1) Some Dig show ?thesis
      by (simp add: digits_ok_def)
  next
    case (Star i)
    have f1: "fmt_at buf mx m (p + 1) (asc CHR ''*'' # x # xs)" using fmt_at_tl [OF f'] Star by simp
    have "\<not> isdigit (uint (asc CHR ''*''))" by (simp add: asc_def isdigit_def)
    then have "vsn_loop buf mx (vst buf mx m DP_S_MAX (p + 1) (asc CHR ''*'' # x # xs) (VInt i # args) mn (- 1) fl cf cs) =
        vsn_loop buf mx (vst buf mx m DP_S_MOD (p + 1 + 1) (x # xs) args mn (sint i) fl cf cs)"
      using next_vst [OF f1] fmt_at_nz [OF f1] by (intro vsn_loop_step) (simp_all add: vsn_step_def dp_max_def)
    with dot [OF f'] Some Star show ?thesis by simp
  qed
qed

lemma run_mod:
  assumes f: "fmt_at buf mx m p (mod_src c @ x # xs)" and x: "x \<notin> set (map asc ''hlL'')"
  shows "vsn_loop buf mx (vst buf mx m DP_S_MOD p (mod_src c @ x # xs) args mn lim fl DP_C_NONE cs) =
    vsn_loop buf mx (vst buf mx m DP_S_CONV (p + length (mod_src c)) (x # xs) args mn lim fl c cs)"
proof (rule vsn_loop_step)
  note n = next_vst [of buf mx m p _ "x # xs"] next_vst [of buf mx m p _ "_ # x # xs"]
    next_vst [of buf mx m "Suc p" _ "x # xs"]
  have nz: "hd (mod_src c @ x # xs) \<noteq> 0" using f by (cases "mod_src c") (auto simp: fmt_at_def)
  show "vsn_step buf mx (vst buf mx m DP_S_MOD p (mod_src c @ x # xs) args mn lim fl DP_C_NONE cs) =
      Some (vst buf mx m DP_S_CONV (p + length (mod_src c)) (x # xs) args mn lim fl c cs)"
    using f x nz fmt_at_tl [of buf mx m p _ "_ # x # xs"]
    by (cases c) (auto simp: vsn_step_def dp_mod_def n asc_def)
qed simp

lemma va_value_app: "va_value cf sg [a] = Some (x, r) \<Longrightarrow> va_value cf sg (a # args) = Some (x, args)"
  by (cases cf; cases a) auto

lemma conv_int_step:
  assumes c: "c \<in> set int_convs" "v_ch v = c" and v: "va_value (v_cflags v) (conv_signed c) (v_args v) = Some (value, args)"
    and out: "fmtint buf mx value (conv_base c) (v_min v) (v_max v) (conv_flags c (v_flags v)) (v_out v) = Some out"
  shows "\<exists>fl'. dp_conv buf mx v = do {
     v \<leftarrow> next_ch (v\<lparr>v_flags := fl', v_args := args, v_out := out\<rparr>);
     Some (v\<lparr>v_state := DP_S_DEFAULT, v_flags := no_flags, v_cflags := DP_C_NONE, v_min := 0, v_max := - 1\<rparr>) }"
proof -
  consider "c = asc CHR ''d''" | "c = asc CHR ''i''" | "c = asc CHR ''o''" | "c = asc CHR ''u''"
    | "c = asc CHR ''x''" | "c = asc CHR ''X''"
    using c(1) by (auto simp: int_convs_def)
  then show ?thesis
    using c(2) v out
    by cases (auto simp: dp_conv_def dp_int_def conv_signed_def conv_base_def conv_flags_def asc_def Let_def
        intro: exI [of _ "conv_flags c (v_flags v)"] exI [of _ "v_flags v"])
qed

lemma conv_int_run:
  assumes f: "fmt_at buf mx m p (c # xs)" and c: "c \<in> set int_convs" "va_value cf (conv_signed c) [a] = Some (value, r)"
    and b: "0 \<le> mn" "mn < 2 ^ 31" "lim < 2 ^ 31"
    and room: "room buf mx m cs (int_text value (conv_base c) mn lim (conv_flags c fl))"
  shows "vsn_loop buf mx (vst buf mx m DP_S_CONV p (c # xs) (a # args) mn lim fl cf cs) =
    vsn_loop buf mx (vst buf mx m DP_S_DEFAULT (p + 1) xs args 0 (- 1) no_flags DP_C_NONE
      (cs @ int_text value (conv_base c) mn lim (conv_flags c fl)))"
proof (rule vsn_loop_step)
  let ?v = "vst buf mx m DP_S_CONV p (c # xs) (a # args) mn lim fl cf cs"
  have v: "va_value (v_cflags ?v) (conv_signed c) (v_args ?v) = Some (value, args)"
    using va_value_app [OF c(2)] by simp
  have "fmtint buf mx value (conv_base c) (v_min ?v) (v_max ?v) (conv_flags c (v_flags ?v)) (v_out ?v) =
      Some (emit buf mx m (cs @ int_text value (conv_base c) mn lim (conv_flags c fl)))"
    using fmtint_emit [OF b room] by simp
  from conv_int_step [OF c(1) _ v this] obtain fl' where "dp_conv buf mx ?v = do {
     v \<leftarrow> next_ch (?v\<lparr>v_flags := fl', v_args := args,
            v_out := emit buf mx m (cs @ int_text value (conv_base c) mn lim (conv_flags c fl))\<rparr>);
     Some (v\<lparr>v_state := DP_S_DEFAULT, v_flags := no_flags, v_cflags := DP_C_NONE, v_min := 0, v_max := - 1\<rparr>) }"
    by auto
  with next_vst [OF f] fmt_at_nz [OF f]
  show "vsn_step buf mx ?v = Some (vst buf mx m DP_S_DEFAULT (p + 1) xs args 0 (- 1) no_flags DP_C_NONE
      (cs @ int_text value (conv_base c) mn lim (conv_flags c fl)))"
    by (simp add: vsn_step_def)
qed simp

lemma dp_str_run:
  assumes q: "conv_ok buf mx m cf (CStr q xs)" and b: "0 \<le> mn" "mn < 2 ^ 31"
    and room: "room buf mx m cs (str_text fl mn (str_lim mn lim xs) xs)"
  shows "dp_str buf mx (vst buf mx m s p ys (VPtr q # args) mn lim fl cf cs) =
    Some (vst buf mx m s p ys args mn (str_lim mn lim xs) fl cf (cs @ str_text fl mn (str_lim mn lim xs) xs))"
proof -
  define v where "v = (if q = 0 then Lit (map asc ''(NULL)'')
    else if \<not> VM_IS_KERN q then Lit (map asc ''(INVALID)'') else At q)"
  have len: "int (length xs) < 2 ^ 31" using q by simp
  have v: "strv_is buf mx m v xs" "v \<noteq> At 0"
    using q by (auto simp: v_def strv_is_def asc_def split: if_splits)
  have l: "(if lim = - 1 then do { l \<leftarrow> strv_len (fst (emit buf mx m cs)) v 0; cint (int l) } else Some lim) =
      Some (if lim = - 1 then int (length xs) else lim)"
    using len strv_len_run [OF v(1), of 0] by (simp add: cint_def)
  show ?thesis
    unfolding dp_str_def vst_simps va_ptr.simps Option.bind.bind_lunit prod.case Let_def v_def [symmetric] l
      str_lim_def [unfolded Let_def, symmetric] fmtstr_emit [OF v b len room] ..
qed

lemma run_conv:
  assumes f: "fmt_at buf mx m p (conv_ch cv # xs)" and ok: "conv_ok buf mx m cf cv"
    and b: "0 \<le> mn" "mn < 2 ^ 31" "lim < 2 ^ 31" and room: "room buf mx m cs (conv_text fl mn lim cf cv)"
  shows "vsn_loop buf mx (vst buf mx m DP_S_CONV p (conv_ch cv # xs) (conv_args cv @ args) mn lim fl cf cs) =
    vsn_loop buf mx (vst buf mx m DP_S_DEFAULT (p + 1) xs args 0 (- 1) no_flags DP_C_NONE
      (cs @ conv_text fl mn lim cf cv))"
proof (cases cv)
  case (CInt c a)
  with ok obtain y r where v: "va_value cf (conv_signed c) [a] = Some (y, r)" by auto
  have "fmt_at buf mx m p (c # xs)" "c \<in> set int_convs"
    "room buf mx m cs (int_text y (conv_base c) mn lim (conv_flags c fl))"
    using f ok room v CInt by auto
  from conv_int_run [OF this(1,2) v b this(3)] v CInt show ?thesis by simp
next
  case (CStr q ys)
  have step: "dp_str buf mx (vst buf mx m DP_S_CONV p (asc CHR ''s'' # xs) (VPtr q # args) mn lim fl cf cs) =
    Some (vst buf mx m DP_S_CONV p (asc CHR ''s'' # xs) args mn (str_lim mn lim ys) fl cf
      (cs @ str_text fl mn (str_lim mn lim ys) ys))"
    using ok room CStr by (intro dp_str_run b) auto
  have f': "fmt_at buf mx m p (asc CHR ''s'' # xs)" using f CStr by simp
  with step next_vst [OF f'] fmt_at_nz [OF f'] CStr show ?thesis
    by (intro vsn_loop_step) (simp_all add: vsn_step_def dp_conv_def Let_def asc_def)
next
  case (CChr i)
  have f': "fmt_at buf mx m p (asc CHR ''c'' # xs)" using f CChr by simp
  have "dopr_outch buf mx (ucast i) (emit buf mx m cs) = Some (emit buf mx m (cs @ [ucast i]))"
    using room CChr by (intro dopr_outch_emit) (auto simp: room_def)
  with next_vst [OF f'] fmt_at_nz [OF f'] CChr show ?thesis
    by (intro vsn_loop_step) (simp_all add: vsn_step_def dp_conv_def Let_def asc_def)
next
  case (CPtr q)
  have f': "fmt_at buf mx m p (asc CHR ''p'' # xs)" using f CPtr by simp
  have "fmtint buf mx (ucast (of_nat q :: u32)) 16 mn lim (fl\<lparr>F_UNSIGNED := True\<rparr>) (emit buf mx m cs) =
      Some (emit buf mx m (cs @ conv_text fl mn lim cf cv))"
    using room CPtr fmtint_emit [OF b] by simp
  with next_vst [OF f'] fmt_at_nz [OF f'] CPtr show ?thesis
    by (intro vsn_loop_step) (simp_all add: vsn_step_def dp_conv_def dp_ptr_def Let_def asc_def)
next
  case CPct
  have f': "fmt_at buf mx m p (asc CHR ''%'' # xs)" using f CPct by simp
  have "dopr_outch buf mx (asc CHR ''%'') (emit buf mx m cs) = Some (emit buf mx m (cs @ [asc CHR ''%'']))"
    using room CPct by (intro dopr_outch_emit) (auto simp: room_def)
  with next_vst [OF f'] fmt_at_nz [OF f'] CPct show ?thesis
    by (intro vsn_loop_step) (simp_all add: vsn_step_def dp_conv_def Let_def asc_def)
qed

lemma conv_stop:
  assumes "conv_ok buf mx m cf cv"
  shows "stop (conv_ch cv)" "conv_ch cv \<noteq> asc CHR ''.''" "conv_ch cv \<notin> set (map asc ''hlL'')"
proof -
  have "conv_ch cv \<in> set (map asc ''diouxXscp%'')"
    using assms by (cases cv) (auto simp: int_convs_def)
  then show "stop (conv_ch cv)" "conv_ch cv \<noteq> asc CHR ''.''" "conv_ch cv \<notin> set (map asc ''hlL'')"
    by (auto simp: stop_def isdigit_def flag_chars_def asc_def)
qed

lemma mod_head:
  assumes "conv_ok buf mx m cf cv"
  obtains x t where "mod_src c @ conv_ch cv # xs = x # t" "stop x" "x \<noteq> asc CHR ''.''"
proof (cases "mod_src c")
  case Nil
  with conv_stop [OF assms] show ?thesis by (intro that [of "conv_ch cv" xs]) auto
next
  case (Cons y ys)
  have "y \<in> set (map asc ''hlL'')" using Cons by (cases c) auto
  then have "stop y" "y \<noteq> asc CHR ''.''" by (auto simp: stop_def isdigit_def flag_chars_def asc_def)
  with Cons show ?thesis by (intro that [of y "ys @ conv_ch cv # xs"]) auto
qed

lemma sint_u32_less: "sint (i :: u32) < 2 ^ 31"
  using sint_lt [of i] by simp

lemma width_range: "width_ok w \<Longrightarrow> 0 \<le> width_val w \<and> width_val w < 2 ^ 31"
  by (cases w) (auto simp: digits_ok_def dec_mono sint_u32_less [simplified])

lemma prec_range: "prec_ok q \<Longrightarrow> prec_val q < 2 ^ 31"
  by (cases q rule: prec_val.cases) (auto simp: digits_ok_def sint_u32_less [simplified])

lemma run_piece:
  assumes f: "fmt_at buf mx m p (unparse pc @ xs)" and ok: "piece_ok buf mx m pc"
    and room: "room buf mx m cs (render pc)"
  shows "vsn_loop buf mx (vst buf mx m DP_S_DEFAULT p (unparse pc @ xs) (piece_args pc @ args) 0 (- 1) no_flags DP_C_NONE cs) =
    vsn_loop buf mx (vst buf mx m DP_S_DEFAULT (p + length (unparse pc)) xs args 0 (- 1) no_flags DP_C_NONE (cs @ render pc))"
proof (cases pc)
  case (Text c)
  with assms run_text [of buf mx m p c xs cs] show ?thesis by simp
next
  case (Dir fl w q cf cv)
  with ok have o: "set fl \<subseteq> set flag_chars" "width_ok w" "prec_ok q" "conv_ok buf mx m cf cv" by auto
  obtain x t where x: "mod_src cf @ conv_ch cv # xs = x # t" "stop x" "x \<noteq> asc CHR ''.''"
    by (rule mod_head [OF o(4)])
  have "stop (asc CHR ''.'')" by (simp add: stop_def isdigit_def flag_chars_def asc_def)
  then obtain y u where y: "prec_src q @ x # t = y # u" "stop y"
    using x(2) by (cases q) auto
  obtain z r where z: "fnum_src w @ y # u = z # r" "z \<notin> set flag_chars"
  proof (cases "fnum_src w")
    case Nil
    with y(2) show ?thesis by (intro that [of y u]) (auto simp: stop_def)
  next
    case (Cons z r)
    have "z \<notin> set flag_chars"
    proof (cases w)
      case (Dig ds)
      with Cons o(2) have "isdigit (uint z)" "z \<noteq> asc CHR ''0''" by (auto simp: digits_ok_def)
      then show ?thesis by (auto simp: isdigit_def flag_chars_def asc_def)
    next
      case (Star i)
      with Cons show ?thesis by (auto simp: flag_chars_def asc_def)
    qed
    with Cons show ?thesis by (intro that [of z "r @ y # u"]) auto
  qed
  let ?p1 = "p + 1" and ?fl = "foldl add_flag no_flags fl"
  let ?p2 = "?p1 + length fl"
  let ?p3 = "?p2 + length (fnum_src w)"
  let ?p4 = "?p3 + length (prec_src q)"
  let ?p5 = "?p4 + length (mod_src cf)"
  have src: "unparse pc @ xs = asc CHR ''%'' # fl @ z # r" using Dir x(1) y(1) z(1) by simp
  have f0: "fmt_at buf mx m p (asc CHR ''%'' # fl @ z # r)" using f src by simp
  note f1 = fmt_at_tl [OF f0]
  note f2 = fmt_at_drop [OF f1]
  have f2': "fmt_at buf mx m ?p2 (fnum_src w @ y # u)" using f2 z(1) by simp
  note f3 = fmt_at_drop [OF f2']
  have f3': "fmt_at buf mx m ?p3 (prec_src q @ x # t)" using f3 y(1) by simp
  note f4 = fmt_at_drop [OF f3']
  have f4': "fmt_at buf mx m ?p4 (mod_src cf @ conv_ch cv # xs)" using f4 x(1) by simp
  note f5 = fmt_at_drop [OF f4']
  let ?w = "width_val w" and ?q = "prec_val q" and ?args = "conv_args cv @ args"
  let ?L = "vsn_loop buf mx"
  have "?L (vst buf mx m DP_S_DEFAULT p (unparse pc @ xs) (piece_args pc @ args) 0 (- 1) no_flags DP_C_NONE cs) =
      ?L (vst buf mx m DP_S_FLAGS ?p1 (fl @ z # r) (piece_args pc @ args) 0 (- 1) no_flags DP_C_NONE cs)"
    unfolding src by (rule run_percent [OF f0])
  also have "\<dots> = ?L (vst buf mx m DP_S_FLAGS ?p2 (z # r) (piece_args pc @ args) 0 (- 1) ?fl DP_C_NONE cs)"
    by (rule run_flags [OF f1 o(1)])
  also have "\<dots> = ?L (vst buf mx m DP_S_MIN ?p2 (z # r) (piece_args pc @ args) 0 (- 1) ?fl DP_C_NONE cs)"
    by (rule run_no_flag [OF f2 z(2)])
  also have "\<dots> = ?L (vst buf mx m DP_S_DOT ?p3 (y # u) (prec_args q @ ?args) ?w (- 1) ?fl DP_C_NONE cs)"
    using run_width [OF f2' o(2) y(2), of "prec_args q @ ?args"] z(1) Dir by simp
  also have "\<dots> = ?L (vst buf mx m DP_S_MOD ?p4 (x # t) ?args ?w ?q ?fl DP_C_NONE cs)"
    using run_prec [OF f3' o(3) x(2,3), of ?args] y(1) by simp
  also have "\<dots> = ?L (vst buf mx m DP_S_CONV ?p5 (conv_ch cv # xs) ?args ?w ?q ?fl cf cs)"
    using run_mod [OF f4' conv_stop(3) [OF o(4)], of ?args] x(1) by simp
  also have "\<dots> = ?L (vst buf mx m DP_S_DEFAULT (?p5 + 1) xs args 0 (- 1) no_flags DP_C_NONE
      (cs @ conv_text ?fl ?w ?q cf cv))"
    using room Dir width_range [OF o(2)] prec_range [OF o(3)] by (intro run_conv [OF f5 o(4)]) auto
  finally show ?thesis using Dir by (simp add: add.assoc)
qed

lemma room_cons: "room buf mx m cs (a @ b) \<Longrightarrow> room buf mx m cs a"
  by (simp add: room_def)

lemma run_pieces:
  "fmt_at buf mx m p (concat (map unparse ps)) \<Longrightarrow> list_all (piece_ok buf mx m) ps \<Longrightarrow>
   room buf mx m cs (concat (map render ps)) \<Longrightarrow>
   \<exists>v. vsn_loop buf mx (vst buf mx m DP_S_DEFAULT p (concat (map unparse ps)) (concat (map piece_args ps)) 0 (- 1)
       no_flags DP_C_NONE cs) = Some v \<and> v_out v = emit buf mx m (cs @ concat (map render ps))"
proof (induction ps arbitrary: p cs)
  case Nil
  have "vsn_loop buf mx (vst buf mx m DP_S_DEFAULT p [] [] 0 (- 1) no_flags DP_C_NONE cs) =
      vsn_loop buf mx (vst buf mx m DP_S_DONE p [] [] 0 (- 1) no_flags DP_C_NONE cs)"
    by (intro vsn_loop_step) (simp_all add: vsn_step_def)
  also have "\<dots> = Some (vst buf mx m DP_S_DONE p [] [] 0 (- 1) no_flags DP_C_NONE cs)"
    by (subst vsn_loop.simps) simp
  finally show ?case by simp
next
  case (Cons pc ps)
  have f: "fmt_at buf mx m p (unparse pc @ concat (map unparse ps))" using Cons.prems(1) by simp
  have r: "room buf mx m cs (render pc)" "room buf mx m (cs @ render pc) (concat (map render ps))"
    using Cons.prems(3) by (simp_all add: room_split)
  have ok: "piece_ok buf mx m pc" "list_all (piece_ok buf mx m) ps" using Cons.prems(2) by auto
  from run_piece [OF f ok(1) r(1)] Cons.IH [OF fmt_at_drop [OF f] ok(2) r(2)] show ?case by simp
qed

lemma vsn_finish_emit:
  assumes "mapped m buf (unat mx)" "length cs < 2 ^ 32"
  shows "vsn_finish buf mx (emit buf mx m cs) = Some (if mx = 0 then m else wr m buf (take (unat mx - 1) cs @ [0]))"
proof (cases "mx = 0")
  case True
  then show ?thesis by (simp add: vsn_finish_def emit_def)
next
  case False
  then have u: "unat (mx - 1) = unat mx - 1" "unat mx > 0" by (simp_all add: unat_minus_one unat_gt_0)
  let ?i = "min (length cs) (unat mx - 1)" and ?m = "wr m buf (take (unat mx) cs)"
  have "vsn_finish buf mx (emit buf mx m cs) = st ?m (buf + ?i) 0"
    using False u assms(2) by (simp add: vsn_finish_def emit_def word_less_nat_alt min_def)
  also have "\<dots> = Some (?m(buf + ?i \<mapsto> 0))"
  proof -
    have "?i < unat mx" using u(2) by linarith
    then have "m (buf + ?i) \<noteq> None" using assms(1) unfolding mapped_def by blast
    then have "?m (buf + ?i) \<noteq> None" using wr_dom by metis
    then show ?thesis by (simp add: st_def)
  qed
  also have "?m(buf + ?i \<mapsto> 0) = wr m buf (take (unat mx - 1) cs @ [0])"
  proof (cases "length cs \<le> unat mx - 1")
    case True
    then show ?thesis by (simp add: wr_append min_def fun_upd_def)
  next
    case f: False
    then have "take (unat mx) cs = take (unat mx - 1) cs @ [cs ! (unat mx - 1)]"
      using u(2) take_Suc_conv_app_nth [of "unat mx - 1" cs] by simp
    then show ?thesis using f u(2) by (auto simp: wr_append min_def fun_eq_iff)
  qed
  finally show ?thesis using False by simp
qed

lemma vsnprintf_run:
  assumes ps: "list_all (piece_ok buf mx m) ps" and f: "fmt_at buf mx m fmt (concat (map unparse ps))"
    and b: "mapped m buf (unat mx)" "length (concat (map render ps)) < 2 ^ 32"
  shows "vsnprintf m buf mx fmt (concat (map piece_args ps)) =
    Some (if mx = 0 then m else wr m buf (take (unat mx - 1) (concat (map render ps)) @ [0]),
      of_nat (length (concat (map render ps))))"
proof -
  let ?v0 = "\<lparr> v_state = DP_S_DEFAULT, v_ch = 0, v_format = fmt, v_args = concat (map piece_args ps), v_min = 0,
     v_max = - 1, v_flags = no_flags, v_cflags = DP_C_NONE, v_out = (m, 0) \<rparr>"
  have n: "next_ch ?v0 = Some (vst buf mx m DP_S_DEFAULT fmt (concat (map unparse ps))
      (concat (map piece_args ps)) 0 (- 1) no_flags DP_C_NONE [])"
    using fmt_at_hd [OF f] by (simp add: next_ch_def vst_def emit_def)
  have "room buf mx m [] (concat (map render ps))" using b by (simp add: room_def)
  from run_pieces [OF f ps this] obtain v where v: "vsn_loop buf mx (vst buf mx m DP_S_DEFAULT fmt
      (concat (map unparse ps)) (concat (map piece_args ps)) 0 (- 1) no_flags DP_C_NONE []) = Some v"
      "v_out v = emit buf mx m (concat (map render ps))"
    by auto
  show ?thesis
    unfolding vsnprintf_def vsn_start_def n Option.bind.bind_lunit v vsn_finish_emit [OF b] by (simp add: emit_def)
qed

text \<open>What \<^verbatim>\<open>asprintf\<close> relies on: a block \<^verbatim>\<open>kmalloc\<close> returns was unused, and nothing in use changes.\<close>

definition kmalloc_fresh :: "(bmem \<Rightarrow> nat \<Rightarrow> (bmem \<times> nat) option) \<Rightarrow> bmem \<Rightarrow> nat \<Rightarrow> bool" where
  "kmalloc_fresh kmalloc m n \<longleftrightarrow> (case kmalloc m n of None \<Rightarrow> True
     | Some (m1, a) \<Rightarrow> mapped m1 a n \<and> (\<forall>i < n. m (a + i) = None) \<and> (\<forall>q. m q \<noteq> None \<longrightarrow> m1 q = m q))"

lemma strv_is_fresh:
  assumes fr: "fresh_alloc kmalloc m n" "kmalloc m n = (m2, a)" "0 < n" and n: "unat mx = n"
    and v: "strv_is 0 0 m v xs"
  shows "strv_is a mx m2 v xs"
proof (cases v)
  case (At q)
  with v have "cstr m q xs" by (simp add: strv_is_def)
  from fresh_disjoint [OF fr(1,2) this fr(3)] fresh_keeps_cstr [OF fr(1,2) this] At v n show ?thesis
    by (auto simp: strv_is_def)
qed (use v in \<open>simp add: strv_is_def\<close>)

lemma piece_ok_fresh:
  assumes fr: "fresh_alloc kmalloc m n" "kmalloc m n = (m2, a)" "0 < n" and n: "unat mx = n"
    and ok: "piece_ok 0 0 m pc"
  shows "piece_ok a mx m2 pc"
proof (cases pc)
  case (Dir fl w q cf cv)
  have "conv_ok 0 0 m cf cv" using ok Dir by simp
  then have "conv_ok a mx m2 cf cv"
    using strv_is_fresh [OF fr n] by (cases cv) (auto split: if_splits)
  with ok Dir show ?thesis by simp
qed (use ok in simp)

lemma sint_len: "n < 2 ^ 31 - 1 \<Longrightarrow> sint (of_nat n :: u32) = int n"
  using signed_take_bit_int_eq_self [of 31 "int n"] by (simp add: signed_of_nat)

lemma asprintf_first:
  assumes "list_all (piece_ok 0 0 m) ps" "cstr m fmt (concat (map unparse ps))"
    and "length (concat (map render ps)) < 2 ^ 31 - 1"
  shows "vsnprintf m 0 0 fmt (concat (map piece_args ps)) = Some (m, of_nat (length (concat (map render ps))))"
  using vsnprintf_run [OF assms(1), of fmt] assms(2,3) by (simp add: fmt_at_def mapped_def)

lemma asprintf_none:
  fixes ps
  defines "out \<equiv> concat (map render ps)"
  assumes ps: "list_all (piece_ok 0 0 m) ps" and f: "cstr m fmt (concat (map unparse ps))"
    and len: "length out < 2 ^ 31 - 1"
  shows "out = [] \<Longrightarrow> asprintf kmalloc m fmt (concat (map piece_args ps)) = Some (m, 0, 0)"
    and "out \<noteq> [] \<Longrightarrow> kmalloc m (length out + 1) = None \<Longrightarrow>
      asprintf kmalloc m fmt (concat (map piece_args ps)) = Some (m, 0, - 1)"
proof -
  note one = asprintf_first [OF ps f len [unfolded out_def], folded out_def]
  show "asprintf kmalloc m fmt (concat (map piece_args ps)) = Some (m, 0, 0)" if "out = []"
    using that one by (simp add: asprintf_def vasprintf_def)
  assume ne: "out \<noteq> []" and k: "kmalloc m (length out + 1) = None"
  have n: "unat (of_nat (length out) + 1 :: u32) = length out + 1"
    using len unat_len [of "length out + 1"] by (simp add: add.commute)
  have pos: "\<not> int (length out) \<le> 0" using ne by simp
  show "asprintf kmalloc m fmt (concat (map piece_args ps)) = Some (m, 0, - 1)"
    unfolding asprintf_def vasprintf_def one Option.bind.bind_lunit prod.case sint_len [OF len] n k
      option.case if_not_P [OF pos] by simp
qed

lemma asprintf_run:
  fixes ps
  defines "out \<equiv> concat (map render ps)"
  assumes ps: "list_all (piece_ok 0 0 m) ps" and f: "cstr m fmt (concat (map unparse ps))"
    and len: "out \<noteq> []" "length out < 2 ^ 31 - 1"
    and k: "kmalloc m (length out + 1) = Some (m2, a)" and fr: "kmalloc_fresh kmalloc m (length out + 1)"
  shows "asprintf kmalloc m fmt (concat (map piece_args ps)) =
    Some (wr m2 a (out @ [0]), a, int (length out))"
proof -
  let ?n = "length out + 1" and ?al = "\<lambda>m n. case kmalloc m n of Some r \<Rightarrow> r | None \<Rightarrow> (m, 0)"
  have fr': "fresh_alloc ?al m ?n" "?al m ?n = (m2, a)"
    using fr k by (simp_all add: kmalloc_fresh_def fresh_alloc_def)
  have n: "unat (of_nat ?n :: u32) = ?n" using len(2) by (intro unat_len) simp
  note one = asprintf_first [OF ps f len(2) [unfolded out_def], folded out_def]
  have f2: "fmt_at a (of_nat ?n) m2 fmt (concat (map unparse ps))"
    using fresh_keeps_cstr [OF fr' f] fresh_disjoint [OF fr' f] n by (auto simp: fmt_at_def)
  have ps2: "list_all (piece_ok a (of_nat ?n) m2) ps"
    using ps piece_ok_fresh [OF fr' _ n] by (simp add: list_all_iff)
  have "mapped m2 a ?n" using fr' by (simp add: fresh_alloc_def)
  then have two: "vsnprintf m2 a (of_nat ?n) fmt (concat (map piece_args ps)) =
      Some (wr m2 a (out @ [0]), of_nat (length out))"
    using vsnprintf_run [OF ps2 f2] len(2) n unfolding out_def [symmetric] by (auto simp: unat_0_iff)
  have w: "of_nat (length out) + 1 = (of_nat ?n :: u32)" by simp
  have pos: "\<not> int (length out) \<le> 0" using len(1) by simp
  show ?thesis
    unfolding asprintf_def vasprintf_def one Option.bind.bind_lunit prod.case sint_len [OF len(2)] w n k
      option.case two if_not_P [OF pos] by auto
qed

lemma asprintf_new:
  assumes "list_all (piece_ok 0 0 m) ps" "cstr m fmt (concat (map unparse ps))"
    and "length (concat (map render ps)) < 2 ^ 31 - 1"
    and "kmalloc_fresh kmalloc m (length (concat (map render ps)) + 1)"
    and ne: "concat (map render ps) \<noteq> []"
    and k: "kmalloc m (length (concat (map render ps)) + 1) = Some (m2, a)"
  shows "\<exists>m' a r. asprintf kmalloc m fmt (concat (map piece_args ps)) = Some (m', a, r) \<and>
    (\<forall>q. m q \<noteq> None \<longrightarrow> m' q = m q) \<and>
    (let out = concat (map render ps) in
     if out = [] then a = 0 \<and> r = 0
     else case kmalloc m (length out + 1) of None \<Rightarrow> a = 0 \<and> r = - 1
       | Some (m1, b) \<Rightarrow> a = b \<and> r = int (length out) \<and> (\<forall>i \<le> length out. m (a + i) = None) \<and>
           (\<forall>i < length out. m' (a + i) = Some (out ! i)) \<and> m' (a + length out) = Some 0)"
proof -
  let ?out = "concat (map render ps)"
  note r = asprintf_run [OF assms(1,2) ne assms(3) k assms(4)]
  have new: "\<forall>i < length ?out + 1. m (a + i) = None" "\<forall>q. m q \<noteq> None \<longrightarrow> m2 q = m q"
    using assms(4) k unfolding kmalloc_fresh_def by simp_all
  have at: "wr m2 a (?out @ [0]) (a + i) = Some ((?out @ [0]) ! i)" if "i < length ?out + 1" for i
    using that by (intro wr_at) simp
  have "wr m2 a (?out @ [0]) q = m q" if "m q \<noteq> None" for q
  proof -
    have "q < a \<or> a + (length ?out + 1) \<le> q"
      using new(1) that by (metis le_add_diff_inverse nat_add_left_cancel_less not_le)
    then have "wr m2 a (?out @ [0]) q = m2 q" by (intro wr_other) auto
    with new(2) that show ?thesis by simp
  qed
  moreover have "\<forall>i < length ?out. wr m2 a (?out @ [0]) (a + i) = Some (?out ! i)"
    using at by (simp add: nth_append)
  moreover have "wr m2 a (?out @ [0]) (a + length ?out) = Some 0"
    using at [of "length ?out"] by (simp add: nth_append)
  ultimately show ?thesis
    unfolding Let_def if_not_P [OF ne] k option.case prod.case using r new(1)
    by (intro exI [of _ "wr m2 a (?out @ [0])"] exI [of _ a] exI [of _ "int (length ?out)"])
      (simp add: less_Suc_eq_le)
qed

subsection \<open>Properties of the buffer\<close>

text \<open>C15. Whenever \<^verbatim>\<open>vsnprintf\<close> returns, for any format and arguments, it has written only to the
  \<^verbatim>\<open>maxlen\<close> bytes of the buffer and to the integers that the arguments consumed by a \<^verbatim>\<open>%n\<close> of this
  run point to (2, 4 or 8 bytes by the length modifier), and if \<^verbatim>\<open>maxlen\<close> is not zero the buffer
  holds a zero byte at the end of the output or at its last position.\<close>

theorem vsnprintf_stays_in_buffer:
  assumes "vsnprintf m buf maxlen fmt args = Some (m', len)"
  shows "(\<forall>p. \<not> (buf \<le> p \<and> p < buf + unat maxlen) \<and> p \<notin> n_stores m buf maxlen fmt args \<longrightarrow> m' p = m p) \<and>
    (maxlen \<noteq> 0 \<longrightarrow> m' (buf + min (unat len) (unat maxlen - 1)) = Some 0)"
proof -
  from assms obtain v1 v2 where v: "vsn_start m fmt args = Some v1" "vsn_loop buf maxlen v1 = Some v2"
    "vsn_finish buf maxlen (v_out v2) = Some m'" "len = snd (v_out v2)"
    by (auto simp: vsnprintf_def bind_eq_Some_conv)
  have "v_out v1 = (m, 0)" using v(1) next_ch_same unfolding vsn_start_def by fastforce
  moreover from vsn_loop_keeps [OF v(2)] obtain T where T: "vsn_stores buf maxlen v1 = Some T"
    "step_keeps buf maxlen T v1 v2" by blast
  ultimately have f1: "frame buf (unat maxlen) (n_stores m buf maxlen fmt args) m (fst (v_out v2))"
    using v(1) by (simp add: step_keeps_def n_stores_def)
  have fin: "vsn_finish buf maxlen (fst (v_out v2), len) = Some m'" using v(3,4) by simp
  show ?thesis
  proof (cases "maxlen = 0")
    case True
    with fin f1 show ?thesis by (auto simp: vsn_finish_def frame_def)
  next
    case False
    from frame_trans [OF f1 vsn_finish_nul(2) [OF fin False]] vsn_finish_nul(1) [OF fin False]
    show ?thesis by (auto simp: frame_def)
  qed
qed

definition kbuf :: bmem where
  "kbuf = wr (\<lambda>p. if 0xC0000000 \<le> p \<and> p < 0xC0000040 then Some 1 else None) 0xC0000020 (map asc ''a%-4u%s'' @ [0])"

definition kpieces :: "piece list" where
  "kpieces = [Text (asc CHR ''a''), Dir [asc CHR ''-''] (Dig [asc CHR ''4'']) None DP_C_NONE (CInt (asc CHR ''u'') (VInt 42)),
     Dir [] (Dig []) None DP_C_NONE (CStr 0 (map asc ''(NULL)''))]"

lemma kbuf_facts:
  "concat (map unparse kpieces) = map asc ''a%-4u%s''" "list_all (piece_ok 0xC0000000 8 kbuf) kpieces"
  "list_all (piece_ok 0 0 kbuf) kpieces" "concat (map piece_args kpieces) = [VInt 42, VPtr 0]"
  "concat (map render kpieces) = map asc ''a42  (NULL)''"
  "cstr kbuf 0xC0000020 (map asc ''a%-4u%s'')" "mapped kbuf 0xC0000000 8"
proof -
  show "concat (map unparse kpieces) = map asc ''a%-4u%s''" "concat (map piece_args kpieces) = [VInt 42, VPtr 0]"
    by (simp_all add: kpieces_def)
  show "list_all (piece_ok 0xC0000000 8 kbuf) kpieces" "list_all (piece_ok 0 0 kbuf) kpieces"
    by (simp_all add: kpieces_def asc_def digits_ok_def isdigit_def dec_def char_to_int_def flag_chars_def
        int_convs_def conv_signed_def)
  show "concat (map render kpieces) = map asc ''a42  (NULL)''"
    by code_simp
  show "cstr kbuf 0xC0000020 (map asc ''a%-4u%s'')"
    unfolding kbuf_def by (rule cstr_wr) (simp add: asc_def)
  show "mapped kbuf 0xC0000000 8"
    unfolding kbuf_def by (rule wr_mapped) (simp add: mapped_def)
qed

lemma kbuf_run:
  "vsnprintf kbuf 0xC0000000 8 0xC0000020 [VInt 42, VPtr 0] =
     Some (wr kbuf 0xC0000000 (map asc ''a42  (N'' @ [0]), 11)"
proof -
  have "fmt_at 0xC0000000 8 kbuf 0xC0000020 (concat (map unparse kpieces))"
    using kbuf_facts(1,6) by (simp add: fmt_at_def)
  from vsnprintf_run [OF kbuf_facts(2) this] kbuf_facts(4,5,7) show ?thesis by simp
qed

text \<open>A format with a \<^verbatim>\<open>%hn\<close> in a memory of 32 bytes.\<close>

definition nmem :: bmem where
  "nmem = wr (\<lambda>p. if p < 32 then Some 1 else None) 16 (map asc ''ab%hnc'' @ [0])"

theorem vsnprintf_stays_in_buffer_witness:
  "\<exists>m'. vsnprintf nmem 0 4 16 [VPtr 28] = Some (m', 3) \<and> n_stores nmem 0 4 16 [VPtr 28] = {28, 29} \<and>
     m' 28 = Some 2 \<and> m' 3 = Some 0 \<and> m' 4 = nmem 4 \<and> m' 30 = nmem 30"
proof -
  have "map_option (\<lambda>(m', n). (m' 28, n)) (vsnprintf nmem 0 4 16 [VPtr 28]) = Some (Some 2, 3)"
    by code_simp
  then obtain m' where m': "vsnprintf nmem 0 4 16 [VPtr 28] = Some (m', 3)" "m' 28 = Some 2" by auto
  have n: "n_stores nmem 0 4 16 [VPtr 28] = {28, 29}" by code_simp
  from vsnprintf_stays_in_buffer [OF m'(1)] m' n show ?thesis
    by (intro exI [of _ m']) (simp add: min_def)
qed

text \<open>C14. For every format made of well-formed directives \<^verbatim>\<open>vsnprintf\<close> ends, returns the length
  of the full text and leaves in the buffer the longest prefix of that text that fits with the
  terminator, for any buffer size including zero.\<close>

theorem vsnprintf_renders:
  assumes "list_all (piece_ok buf maxlen m) ps"
    and "cstr m fmt (concat (map unparse ps))"
    and "fmt + length (concat (map unparse ps)) < buf \<or> buf + unat maxlen \<le> fmt"
    and "mapped m buf (unat maxlen)" and "length (concat (map render ps)) < 2 ^ 32"
  shows "vsnprintf m buf maxlen fmt (concat (map piece_args ps)) =
    Some (if maxlen = 0 then m else wr m buf (take (unat maxlen - 1) (concat (map render ps)) @ [0]),
      of_nat (length (concat (map render ps))))"
  using assms by (intro vsnprintf_run) (auto simp: fmt_at_def)

theorem vsnprintf_renders_witness:
  "\<exists>m'. vsnprintf kbuf 0xC0000000 8 0xC0000020 [VInt 42, VPtr 0] = Some (m', 11) \<and>
     cstr m' 0xC0000000 (map asc ''a42  (N'')"
proof -
  have "vsnprintf kbuf 0xC0000000 8 0xC0000020 (concat (map piece_args kpieces)) =
      Some (wr kbuf 0xC0000000 (map asc ''a42  (N'' @ [0]), 11)"
    using vsnprintf_renders [OF kbuf_facts(2), of "0xC0000020"] kbuf_facts(1,5,6,7) by simp
  moreover have "cstr (wr kbuf 0xC0000000 (map asc ''a42  (N'' @ [0])) 0xC0000000 (map asc ''a42  (N'')"
    by (rule cstr_wr) (simp add: asc_def)
  ultimately show ?thesis using kbuf_facts(4) by auto
qed

text \<open>C16. \<^verbatim>\<open>fmtint\<close> prints numbers that read back: in a buffer with room for the text, in base 8, 10
  or 16 and for every width, precision and combination of flags, the bytes it appends are blanks,
  a sign, zeros and digits from which a reader gets the value back, cut to its 19 low digits;
  so every number of up to 19 digits is printed exactly and a longer one loses its leading
  digits. Left out is the signed conversion of the least \<^verbatim>\<open>long long\<close>, whose negation overflows.\<close>

theorem fmtint_digits_roundtrip:
  assumes "base \<in> {8, 10, 16}" "0 \<le> mn" "mn < 2 ^ 31" "lim < 2 ^ 31"
    and "F_UNSIGNED fl \<or> sint value \<noteq> - (2 ^ 63)"
    and "mapped m buf (unat maxlen)"
    and "int (unat len) + max mn (max lim 19 + 1) \<le> int (unat maxlen)"
  shows "\<exists>m' tx. fmtint buf maxlen value base mn lim fl (m, len) = Some (m', len + of_nat (length tx)) \<and>
    (\<forall>i < length tx. m' (buf + unat len + i) = Some (tx ! i)) \<and>
    read_int base tx = (if F_UNSIGNED fl then uint value mod int base ^ 19
      else sgn (sint value) * (\<bar>sint value\<bar> mod int base ^ 19))"
proof -
  have b: "2 \<le> base" "base \<le> 16" "0 < base" using assms(1) by auto
  from fmtint_text [OF b(3,2) assms(2-4,6,7)] read_int_text [OF b(1,2)] show ?thesis by metis
qed

theorem fmtint_digits_roundtrip_witness:
  "\<exists>m' tx. fmtint 0 32 (- 42) 10 6 (- 1) no_flags ((\<lambda>p. if p < 32 then Some 1 else None), 3) =
      Some (m', 3 + of_nat (length tx)) \<and> m' 3 = Some (hd tx) \<and> read_int 10 tx = - 42"
proof -
  let ?m = "\<lambda>p. if p < (32 :: nat) then Some (1 :: u8) else None"
  have "mapped ?m 0 (unat (32 :: u32))" by (simp add: mapped_def)
  moreover have "sint (- 42 :: u64) = - 42" by simp
  ultimately obtain m' tx where t: "fmtint 0 32 (- 42) 10 6 (- 1) no_flags (?m, 3) = Some (m', 3 + of_nat (length tx))"
      "\<forall>i < length tx. m' (3 + i) = Some (tx ! i)" "read_int 10 tx = - 42"
    using fmtint_digits_roundtrip [of 10 6 "- 1" no_flags "- 42" ?m 0 32 3] by (auto simp: no_flags_def)
  moreover from t(3) have "tx \<noteq> []" by (auto simp: read_int_def)
  with t(2) have "m' 3 = Some (hd tx)" by (auto simp: hd_conv_nth dest: spec [of _ 0])
  ultimately show ?thesis by blast
qed

text \<open>C17. For a format of well-formed directives whose text is shorter than \<open>2 ^ 31 - 1\<close> bytes and a
  \<^verbatim>\<open>kmalloc\<close> that returns unused blocks or fails, \<^verbatim>\<open>asprintf\<close> ends and changes no memory that was in
  use. If the text is not empty and memory is available, it returns the length of the text and a
  new string, none of whose bytes was in use, with the whole text and its terminator; if memory
  is not available it returns \<open>- 1\<close>. For an empty text it returns 0 with a null pointer, without
  a string.\<close>

theorem asprintf_correct:
  assumes "list_all (piece_ok 0 0 m) ps" "cstr m fmt (concat (map unparse ps))"
    and "length (concat (map render ps)) < 2 ^ 31 - 1"
    and "kmalloc_fresh kmalloc m (length (concat (map render ps)) + 1)"
  shows "\<exists>m' a r. asprintf kmalloc m fmt (concat (map piece_args ps)) = Some (m', a, r) \<and>
    (\<forall>q. m q \<noteq> None \<longrightarrow> m' q = m q) \<and>
    (let out = concat (map render ps) in
     if out = [] then a = 0 \<and> r = 0
     else case kmalloc m (length out + 1) of None \<Rightarrow> a = 0 \<and> r = - 1
       | Some (m1, b) \<Rightarrow> a = b \<and> r = int (length out) \<and> (\<forall>i \<le> length out. m (a + i) = None) \<and>
           (\<forall>i < length out. m' (a + i) = Some (out ! i)) \<and> m' (a + length out) = Some 0)"
proof -
  let ?out = "concat (map render ps)"
  consider (empty) "?out = []" | (nomem) "?out \<noteq> []" "kmalloc m (length ?out + 1) = None"
    | (ok) m2 a where "?out \<noteq> []" "kmalloc m (length ?out + 1) = Some (m2, a)"
    by fastforce
  then show ?thesis
  proof cases
    case empty
    from asprintf_none(1) [OF assms(1-3) empty] empty show ?thesis by (simp add: Let_def)
  next
    case nomem
    show ?thesis
      unfolding Let_def if_not_P [OF nomem(1)] nomem(2) option.case
      using asprintf_none(2) [where kmalloc=kmalloc, OF assms(1-3) nomem] by blast
  next
    case (ok m2 a)
    show ?thesis by (rule asprintf_new [OF assms ok])
  qed
qed
definition next_block :: "bmem \<Rightarrow> nat \<Rightarrow> (bmem \<times> nat) option" where
  "next_block m n = Some ((\<lambda>p. if 0xC0000100 \<le> p \<and> p < 0xC0000100 + n then Some 0 else m p), 0xC0000100)"

theorem asprintf_correct_witness:
  "\<exists>m'. asprintf next_block kbuf 0xC0000020 [VInt 42, VPtr 0] = Some (m', 0xC0000100, 11) \<and>
     kbuf 0xC0000100 = None \<and> m' 0xC000010B = Some 0"
proof -
  have dom: "kbuf p = None" if "0xC0000100 \<le> p" for p
    using that unfolding kbuf_def by (subst wr_other) auto
  have out: "length (concat (map render kpieces)) = 11" "concat (map render kpieces) \<noteq> []"
    unfolding kbuf_facts(5) by simp_all
  have f: "cstr kbuf 0xC0000020 (concat (map unparse kpieces))" using kbuf_facts(1,6) by simp
  have l: "length (concat (map render kpieces)) < 2 ^ 31 - 1" using out(1) by simp
  have "kmalloc_fresh next_block kbuf (length (concat (map render kpieces)) + 1)"
    using dom unfolding kmalloc_fresh_def next_block_def
    by (auto simp: mapped_def split: if_splits)
  from asprintf_correct [OF kbuf_facts(3) f l this] obtain m' where
    "asprintf next_block kbuf 0xC0000020 [VInt 42, VPtr 0] = Some (m', 0xC0000100, 11)"
    "m' (0xC0000100 + 11) = Some 0"
    unfolding Let_def if_not_P [OF out(2)] out(1) next_block_def kbuf_facts(4) option.case prod.case by auto
  with dom [of "0xC0000100"] show ?thesis by auto
qed

end
