(* ===== verification/Signal.thy ===== *)
theory Signal
  imports Prelude
begin

text \<open>
  Signals (\<^verbatim>\<open>kern/signal.c\<close>, \<^verbatim>\<open>include/kern/signal.h\<close>): the signal state of one process and its
  threads, sending, masking, choosing and delivering signals, and what fork and exec do to
  the state. What these functions ask of the rest of the kernel (stopping, continuing and
  ending the process, interrupting a thread, entering a handler) is returned as a list of
  calls or as the outcome. Copies from and to user memory are arguments.
\<close>

subsection \<open>Signal sets\<close>

type_synonym signo = nat

text \<open>\<^verbatim>\<open>struct sigset\<close>: an array of \<^verbatim>\<open>SIGSET_NELEM\<close> words of 32 bits for the signals 1 to 64.\<close>

type_synonym sigset = "u32 list"

definition SIGSET_NELEM :: nat where
  "SIGSET_NELEM = 2"

definition NSIG :: nat where
  "NSIG = 32"

definition SIGSET_IDX :: "nat \<Rightarrow> nat" where
  "SIGSET_IDX s = (s div 8) div 4"

definition SIGSET_MSK :: "nat \<Rightarrow> u32" where
  "SIGSET_MSK s = push_bit (s mod 32) 1"

definition sigset_or :: "sigset \<Rightarrow> sigset \<Rightarrow> sigset" where
  "sigset_or ss block = map (\<lambda>i. ss ! i OR block ! i) [0..<SIGSET_NELEM]"

definition sigset_nand :: "sigset \<Rightarrow> sigset \<Rightarrow> sigset" where
  "sigset_nand ss block = map (\<lambda>i. ss ! i AND NOT (block ! i)) [0..<SIGSET_NELEM]"

definition sigblocked :: "sigset \<Rightarrow> signo \<Rightarrow> bool" where
  "sigblocked ss sig \<longleftrightarrow> ss ! SIGSET_IDX (sig - 1) AND SIGSET_MSK (sig - 1) \<noteq> 0"

definition sigblock :: "sigset \<Rightarrow> signo \<Rightarrow> sigset" where
  "sigblock ss sig = ss[SIGSET_IDX (sig - 1) := ss ! SIGSET_IDX (sig - 1) OR SIGSET_MSK (sig - 1)]"

definition sigunblock :: "sigset \<Rightarrow> signo \<Rightarrow> sigset" where
  "sigunblock ss sig = ss[SIGSET_IDX (sig - 1) := ss ! SIGSET_IDX (sig - 1) AND NOT (SIGSET_MSK (sig - 1))]"

definition sigpending :: "sigset \<Rightarrow> sigset \<Rightarrow> bool" where
  "sigpending ss mk \<longleftrightarrow> (\<exists>i \<in> {..<SIGSET_NELEM}. ss ! i AND NOT (mk ! i) \<noteq> 0)"

definition sigset_zero :: sigset where
  "sigset_zero = replicate SIGSET_NELEM 0"

definition SIGILL :: signo where "SIGILL = 4"
definition SIGTRAP :: signo where "SIGTRAP = 5"
definition SIGKILL :: signo where "SIGKILL = 9"
definition SIGSEGV :: signo where "SIGSEGV = 11"
definition SIGCHLD :: signo where "SIGCHLD = 17"
definition SIGCONT :: signo where "SIGCONT = 18"
definition SIGSTOP :: signo where "SIGSTOP = 19"

subsection \<open>State\<close>

datatype sighandler = SIG_DFL | SIG_IGN | Handler nat

definition SA_NOCLDWAIT :: u32 where "SA_NOCLDWAIT = 2"
definition SA_SIGINFO :: u32 where "SA_SIGINFO = 4"
definition SA_RESTORER :: u32 where "SA_RESTORER = 0x04000000"
definition SA_ONSTACK :: u32 where "SA_ONSTACK = 0x08000000"
definition SA_RESTART :: u32 where "SA_RESTART = 0x10000000"
definition SA_NODEFER :: u32 where "SA_NODEFER = 0x40000000"
definition SA_RESETHAND :: u32 where "SA_RESETHAND = 0x80000000"

record sigaction =
  sa_handler :: sighandler
  sa_flags :: u32
  sa_restorer :: nat
  sa_mask :: sigset

definition SS_ONSTACK :: u32 where "SS_ONSTACK = 1"
definition SS_DISABLE :: u32 where "SS_DISABLE = 2"

record sigstack =
  ss_sp :: nat
  ss_flags :: u32
  ss_size :: nat

record sigproc =
  sigacts :: "sigaction list"
  p_pending :: sigset
  p_npending :: u32

record sigthr =
  t_pending :: sigset
  t_mask :: sigset
  t_npending :: u32
  t_stack :: sigstack
  nesting_lvl :: nat
  stack_lvl :: nat

text \<open>The process a signal is sent to: its signal state, its threads, its user identities, and the
  flags \<^verbatim>\<open>PROC_EXIT\<close> and \<^verbatim>\<open>PROC_AUTOREAP\<close>.\<close>

record sigst =
  sp :: sigproc
  st :: "nat \<Rightarrow> sigthr"
  threads_of :: "nat list"
  p_uid :: nat
  p_suid :: nat
  proc_exit :: bool
  autoreap :: bool

text \<open>The sender: its identities, and its thread when it belongs to the same process.\<close>

record sender =
  s_uid :: nat
  s_euid :: nat
  s_thread :: "nat option"

datatype sig_call = Proc_stop signo | Proc_cont | Thread_signal nat bool

datatype sig_act = SIGACT_TERM | SIGACT_IGN | SIGACT_STOP | SIGACT_CONT

definition SIGPENDING :: "sigproc \<Rightarrow> sigthr \<Rightarrow> bool" where
  "SIGPENDING p t \<longleftrightarrow> p_npending p \<noteq> 0 \<and> sigpending (p_pending p) (t_mask t) \<or>
     t_npending t \<noteq> 0 \<and> sigpending (t_pending t) (t_mask t)"

definition signal_is_masked :: "sigst \<Rightarrow> nat \<Rightarrow> signo \<Rightarrow> bool" where
  "signal_is_masked y cur sig = sigblocked (t_mask (st y cur)) sig"

definition signal_is_ignored :: "sigst \<Rightarrow> nat \<Rightarrow> signo \<Rightarrow> bool panicking" where
  "signal_is_ignored y cur sig =
     (if signal_is_masked y cur sig then Some True
      else do {
        a \<leftarrow> nth_opt (sigacts (sp y)) sig;
        Some (sa_handler a = SIG_IGN) })"

definition sigset_ffs :: "sigset \<Rightarrow> signo" where
  "sigset_ffs ss =
     (if sigblocked ss SIGSEGV then SIGSEGV
      else if sigblocked ss SIGKILL then SIGKILL
      else case find (\<lambda>i. sigblocked ss (i + 1)) [0..<NSIG] of Some i \<Rightarrow> i + 1 | None \<Rightarrow> 0)"

definition sigperm :: "sender \<Rightarrow> sigst \<Rightarrow> bool \<Rightarrow> bool" where
  "sigperm s y sig_kern \<longleftrightarrow> sig_kern \<or> s_uid s = 0 \<or> s_euid s = 0 \<or>
     p_uid y = s_uid s \<or> p_suid y = s_uid s \<or> p_uid y = s_euid s \<or> p_suid y = s_uid s"

text \<open>The signal numbers of \<^verbatim>\<open>include/sys/signal.h\<close>, grouped as in the source.\<close>

definition sigdefault :: "signo \<Rightarrow> sig_act" where
  "sigdefault sig =
     (if sig \<in> {1, 2, 9, 13, 14, 15, 10, 12} then SIGACT_TERM
      else if sig = 17 then SIGACT_IGN
      else if sig \<in> {3, 4, 6, 8, 11, 7, 31, 24, 25} then SIGACT_TERM
      else if sig \<in> {19, 20, 21, 22} then SIGACT_STOP
      else if sig = 18 then SIGACT_CONT
      else SIGACT_IGN)"

definition sigmayign :: "signo \<Rightarrow> bool" where
  "sigmayign sig \<longleftrightarrow> sig \<noteq> SIGSEGV \<and> sig \<noteq> SIGKILL \<and> sig \<noteq> SIGSTOP"

definition sigmask_fix :: "sigset \<Rightarrow> sigset" where
  "sigmask_fix ss = sigunblock (sigunblock (sigunblock ss SIGKILL) SIGSTOP) SIGSEGV"

subsection \<open>Sending\<close>

text \<open>The loop over the threads stops at the first one: its condition is true while no thread was
  found.\<close>

fun sig_choose_loop :: "sigst \<Rightarrow> signo \<Rightarrow> nat option \<Rightarrow> nat list \<Rightarrow> nat option" where
  "sig_choose_loop y sig thread [] = thread"
| "sig_choose_loop y sig thread (c # cs) =
     (if \<not> sigblocked (t_mask (st y c)) sig \<or> thread = None then Some c
      else sig_choose_loop y sig thread cs)"

definition sig_choose_thr :: "sender \<Rightarrow> sigst \<Rightarrow> signo \<Rightarrow> nat panicking" where
  "sig_choose_thr s y sig = (case s_thread s of
     Some c \<Rightarrow> if \<not> sigblocked (t_mask (st y c)) sig then Some c else sig_choose_loop y sig None (threads_of y)
   | None \<Rightarrow> sig_choose_loop y sig None (threads_of y))"

text \<open>Entering a signal into a pending set.\<close>

definition sig_post :: "sigst \<Rightarrow> nat \<Rightarrow> bool \<Rightarrow> signo \<Rightarrow> sigst" where
  "sig_post y t to_proc sig =
     (if to_proc then
        let p = sp y; p = (if \<not> sigblocked (p_pending p) sig then p\<lparr>p_npending := p_npending p + 1\<rparr> else p) in
        y\<lparr>sp := p\<lparr>p_pending := sigblock (p_pending p) sig\<rparr>\<rparr>
      else
        let x = st y t; x = (if \<not> sigblocked (t_pending x) sig then x\<lparr>t_npending := t_npending x + 1\<rparr> else x) in
        y\<lparr>st := (st y)(t := x\<lparr>t_pending := sigblock (t_pending x) sig\<rparr>)\<rparr>)"

definition kern_signal ::
  "sender \<Rightarrow> sigst \<Rightarrow> nat option \<Rightarrow> int \<Rightarrow> bool \<Rightarrow> (sigst \<times> errno option \<times> sig_call list) panicking" where
  "kern_signal s y thread sg sig_kern =
     (if sg < 0 \<or> sg \<ge> int NSIG then Some (y, Some EINVAL, [])
      else if \<not> sigperm s y sig_kern then Some (y, Some EACCES, [])
      else let sig = nat sg in
      if sig = 0 \<or> proc_exit y then Some (y, None, [])
      else do {
        a \<leftarrow> nth_opt (sigacts (sp y)) sig;
        let handler = sa_handler a;
        let dfl_act = sigdefault sig;
        if handler = SIG_IGN \<and> sigmayign sig then Some (y, None, [])
        else if sig = SIGSTOP \<or> handler = SIG_DFL \<and> dfl_act = SIGACT_STOP then
          Some (y\<lparr>sp := (sp y)\<lparr>p_pending := sigunblock (p_pending (sp y)) SIGCONT\<rparr>\<rparr>, None, [Proc_stop sig])
        else do {
          let cont = (if sig = SIGCONT \<or> handler = SIG_DFL \<and> dfl_act = SIGACT_CONT then [Proc_cont] else []);
          if handler = SIG_DFL \<and> dfl_act \<in> {SIGACT_CONT, SIGACT_STOP, SIGACT_IGN} then Some (y, None, cont)
          else do {
            let to_proc = (thread = None \<or> sig = SIGCONT);
            t \<leftarrow> (if to_proc then sig_choose_thr s y sig else thread);
            let y = sig_post y t to_proc sig;
            let intr = SIGPENDING (sp y) (st y t);
            let restart = (sa_flags a AND SA_RESTART \<noteq> 0);
            Some (y, None, cont @ (if intr then [Thread_signal t restart] else [])) } } })"

definition kern_tkill :: "sender \<Rightarrow> sigst \<Rightarrow> nat \<Rightarrow> int \<Rightarrow> bool \<Rightarrow> (sigst \<times> errno option \<times> sig_call list) panicking" where
  "kern_tkill s y t sig sig_kern = kern_signal s y (Some t) sig sig_kern"

definition kern_tkill_cur :: "sender \<Rightarrow> sigst \<Rightarrow> nat \<Rightarrow> int \<Rightarrow> (sigst \<times> errno option \<times> sig_call list) panicking" where
  "kern_tkill_cur s y cur sig = kern_tkill s y cur sig True"

definition kern_kill :: "sender \<Rightarrow> sigst \<Rightarrow> int \<Rightarrow> bool \<Rightarrow> (sigst \<times> errno option \<times> sig_call list) panicking" where
  "kern_kill s y sig sig_kern = kern_signal s y None sig sig_kern"

text \<open>\<^verbatim>\<open>sys_tkill\<close>: \<open>tid\<close> gives the ids of the threads.\<close>

definition sys_tkill ::
  "sender \<Rightarrow> sigst \<Rightarrow> nat \<Rightarrow> (nat \<Rightarrow> int) \<Rightarrow> int \<Rightarrow> int \<Rightarrow> (sigst \<times> errno option \<times> sig_call list) panicking" where
  "sys_tkill s y cur tid i sig =
     (if i \<le> 0 then Some (y, Some EINVAL, [])
      else if tid cur = i then kern_tkill_cur s y cur sig
      else case find (\<lambda>t. tid t = i) (threads_of y) of
        Some t \<Rightarrow> kern_tkill s y t sig False
      | None \<Rightarrow> Some (y, Some ESRCH, []))"

text \<open>\<^verbatim>\<open>sys_kill\<close>, over the functions that look up a process or a process group and signal it.\<close>

definition sys_kill ::
  "(int \<Rightarrow> int \<Rightarrow> errno option) \<Rightarrow> (int \<Rightarrow> int \<Rightarrow> errno option) \<Rightarrow> int \<Rightarrow> int \<Rightarrow> errno option" where
  "sys_kill proc_kill pgrp_kill pid sig =
     (if pid > 0 then proc_kill pid sig
      else if pid = 0 \<or> pid < -1 then pgrp_kill \<bar>pid\<bar> sig
      else Some EINVAL)"

subsection \<open>Actions, masks and stacks\<close>

text \<open>\<^verbatim>\<open>copyin\<close> results are given as \<open>None\<close> for a null pointer, else the error or the copied value; a
  copy to user memory returns its error.\<close>

definition sys_sigaltstack ::
  "sigst \<Rightarrow> nat \<Rightarrow> (errno + sigstack) option \<Rightarrow> (sigstack \<Rightarrow> errno option) option \<Rightarrow> sigst \<times> errno option" where
  "sys_sigaltstack y cur uss oss = (let x = st y cur in
     case (case oss of None \<Rightarrow> None | Some copyout \<Rightarrow> copyout (t_stack x)) of
       Some e \<Rightarrow> (y, Some e)
     | None \<Rightarrow> (case uss of
         None \<Rightarrow> (y, None)
       | Some (Inl e) \<Rightarrow> (y, Some e)
       | Some (Inr ss) \<Rightarrow>
           if ss_flags ss AND NOT SS_DISABLE \<noteq> 0 then (y, Some EINVAL)
           else if ss_flags (t_stack x) AND SS_ONSTACK \<noteq> 0 then (y, Some EPERM)
           else (y\<lparr>st := (st y)(cur := x\<lparr>t_stack := ss\<rparr>)\<rparr>, None)))"

definition sigaction_flags_ok :: "sigaction \<Rightarrow> bool" where
  "sigaction_flags_ok act \<longleftrightarrow> sa_flags act AND SA_SIGINFO = 0 \<and>
     sa_flags act AND NOT (SA_NODEFER OR SA_RESTART OR SA_NOCLDWAIT OR SA_SIGINFO OR SA_ONSTACK OR
       SA_RESETHAND OR SA_RESTORER) = 0"

definition sigaction_set :: "sigst \<Rightarrow> signo \<Rightarrow> sigaction \<Rightarrow> (sigst \<times> sigaction) panicking" where
  "sigaction_set y sig act = do {
     let y = (if sig = SIGCHLD then y\<lparr>autoreap := sa_flags act AND SA_NOCLDWAIT \<noteq> 0\<rparr> else y);
     old \<leftarrow> nth_opt (sigacts (sp y)) sig;
     acts \<leftarrow> upd_opt (sigacts (sp y)) sig act;
     Some (y\<lparr>sp := (sp y)\<lparr>sigacts := acts\<rparr>\<rparr>, old) }"

definition sys_rt_sigaction ::
  "sigst \<Rightarrow> int \<Rightarrow> (errno + sigaction) option \<Rightarrow> (sigaction \<Rightarrow> errno option) option \<Rightarrow> nat \<Rightarrow> (sigst \<times> errno option) panicking" where
  "sys_rt_sigaction y signum usract oldact sz =
     (if sz \<noteq> 4 * SIGSET_NELEM then Some (y, Some ENOSYS)
      else if signum = int SIGKILL \<or> signum = int SIGSTOP \<or> signum < 0 \<or> signum > int NSIG then Some (y, Some EINVAL)
      else case usract of
        Some (Inl e) \<Rightarrow> Some (y, Some e)
      | Some (Inr act) \<Rightarrow>
          if \<not> sigaction_flags_ok act then Some (y, Some EINVAL)
          else do {
            (y, old) \<leftarrow> sigaction_set y (nat signum) act;
            Some (y, case oldact of None \<Rightarrow> None | Some copyout \<Rightarrow> copyout old) }
      | None \<Rightarrow> (case oldact of
          None \<Rightarrow> Some (y, None)
        | Some copyout \<Rightarrow> do {
            old \<leftarrow> nth_opt (sigacts (sp y)) (nat signum);
            Some (y, copyout old) }))"

datatype mask_how = SIG_BLOCK | SIG_UNBLOCK | SIG_SETMASK | SIG_OTHER

text \<open>The result has the old mask and whether the thread is interrupted to handle a signal.\<close>

definition kern_sigprocmask :: "sigst \<Rightarrow> nat \<Rightarrow> mask_how \<Rightarrow> sigset option \<Rightarrow> (sigst \<times> errno option \<times> sigset \<times> sig_call list)" where
  "kern_sigprocmask y cur how ss = (let
     x = (st y cur)\<lparr>t_mask := sigmask_fix (t_mask (st y cur))\<rparr>;
     old = t_mask x in
     case ss of
       None \<Rightarrow> (y\<lparr>st := (st y)(cur := x)\<rparr>, None, old, [])
     | Some s \<Rightarrow>
         if how = SIG_OTHER then (y\<lparr>st := (st y)(cur := x)\<rparr>, Some EINVAL, old, [])
         else let
           x = x\<lparr>t_mask := (case how of SIG_BLOCK \<Rightarrow> sigset_or (t_mask x) s | SIG_SETMASK \<Rightarrow> s
                                     | _ \<Rightarrow> sigset_nand (t_mask x) s)\<rparr>;
           pending = (how \<noteq> SIG_BLOCK \<and> SIGPENDING (sp y) x) in
           (y\<lparr>st := (st y)(cur := x)\<rparr>, None, old, if pending then [Thread_signal cur True] else []))"

definition sys_rt_sigprocmask ::
  "sigst \<Rightarrow> nat \<Rightarrow> mask_how \<Rightarrow> (errno + sigset) option \<Rightarrow> (sigset \<Rightarrow> errno option) option \<Rightarrow> nat \<Rightarrow> sigst \<times> errno option \<times> sig_call list" where
  "sys_rt_sigprocmask y cur how usr_set usr_oldset sz =
     (if sz \<noteq> 4 * SIGSET_NELEM then (y, Some ENOSYS, [])
      else case usr_set of
        Some (Inl e) \<Rightarrow> (y, Some e, [])
      | _ \<Rightarrow> (let
          (y, err, old, calls) = kern_sigprocmask y cur how (case usr_set of Some (Inr s) \<Rightarrow> Some s | _ \<Rightarrow> None) in
          (y, if err = None then (case usr_oldset of None \<Rightarrow> None | Some copyout \<Rightarrow> copyout old) else err, calls)))"

definition signal_set_mask :: "sigst \<Rightarrow> nat \<Rightarrow> sigset \<Rightarrow> sigst \<times> sig_call list" where
  "signal_set_mask y cur ss = (let
     x = (st y cur)\<lparr>t_mask := sigmask_fix ss\<rparr> in
     (y\<lparr>st := (st y)(cur := x)\<rparr>, if SIGPENDING (sp y) x then [Thread_signal cur True] else []))"

subsection \<open>Process life cycle\<close>

text \<open>The memory of a new process is zero: null is \<open>SIG_DFL\<close>.\<close>

definition sigaction_zero :: sigaction where
  "sigaction_zero = \<lparr> sa_handler = SIG_DFL, sa_flags = 0, sa_restorer = 0, sa_mask = sigset_zero \<rparr>"

definition sigproc_init :: "bool \<Rightarrow> sigproc \<Rightarrow> sigproc" where
  "sigproc_init forked p =
     (if \<not> forked then p\<lparr>sigacts := map (\<lambda>a. a\<lparr>sa_handler := SIG_DFL\<rparr>) (sigacts p)\<rparr> else p)"

definition sigproc_fork :: "sigst \<Rightarrow> sigst \<Rightarrow> nat \<Rightarrow> sigst panicking" where
  "sigproc_fork dst src cur = do {
     kassert (length (threads_of dst) = 1);
     let t = hd (threads_of dst);
     Some (dst\<lparr>st := (st dst)(t := (st dst t)\<lparr>t_mask := t_mask (st src cur)\<rparr>),
               sp := (sp dst)\<lparr>sigacts := sigacts (sp src)\<rparr>\<rparr>) }"

definition sigproc_exec :: "sigst \<Rightarrow> nat \<Rightarrow> sigst" where
  "sigproc_exec y cur = y\<lparr>
     st := (st y)(cur := (st y cur)\<lparr>t_pending := sigset_zero, t_npending := 0\<rparr>),
     sp := (sp y)\<lparr>p_pending := sigset_zero, p_npending := 0,
       sigacts := map (\<lambda>a. (if sa_handler a \<noteq> SIG_IGN then a\<lparr>sa_handler := SIG_DFL\<rparr> else a)\<lparr>sa_flags := 0\<rparr>) (sigacts (sp y))\<rparr>\<rparr>"

definition sigthr_init :: sigthr where
  "sigthr_init = \<lparr> t_pending = sigset_zero, t_mask = sigset_zero, t_npending = 0,
     t_stack = \<lparr> ss_sp = 0, ss_flags = SS_DISABLE, ss_size = 0 \<rparr>, nesting_lvl = 0, stack_lvl = 0 \<rparr>"

subsection \<open>Delivery\<close>

text \<open>The next signal to handle and the state without it; 0 when there is none.\<close>

definition signext :: "sigst \<Rightarrow> nat \<Rightarrow> sigst \<times> signo" where
  "signext y t =
     (if \<not> SIGPENDING (sp y) (st y t) then (y, 0)
      else let
        ss = sigset_nand (sigset_or (t_pending (st y t)) (p_pending (sp y))) (t_mask (st y t));
        sig = sigset_ffs ss in
        if sig > 0 then
          if sigblocked (p_pending (sp y)) sig
          then (y\<lparr>sp := (sp y)\<lparr>p_npending := p_npending (sp y) - 1, p_pending := sigunblock (p_pending (sp y)) sig\<rparr>\<rparr>, sig)
          else (y\<lparr>st := (st y)(t := (st y t)\<lparr>t_npending := t_npending (st y t) + 1,
                                           t_pending := sigunblock (t_pending (st y t)) sig\<rparr>)\<rparr>, sig)
        else (y, sig))"

definition signal_cleanup :: "sigthr \<Rightarrow> sigthr panicking" where
  "signal_cleanup x = do {
     kassert (nesting_lvl x > 0);
     let x = (if stack_lvl x = nesting_lvl x
              then x\<lparr>t_stack := (t_stack x)\<lparr>ss_flags := ss_flags (t_stack x) AND NOT SS_ONSTACK\<rparr>, stack_lvl := 0\<rparr>
              else x);
     Some (x\<lparr>nesting_lvl := nesting_lvl x - 1\<rparr>) }"

text \<open>What \<^verbatim>\<open>signal_intr\<close> ends with: nothing, the end of the process, a stop or continuation, or the
  entry of a handler with the stack to use, the action and the mask to restore.\<close>

datatype sig_outcome =
    Sig_none
  | Sig_exit signo
  | Sig_stop signo
  | Sig_cont
  | Sig_handle signo "sigstack option" sigaction sigset

definition sig_reset :: "sigaction \<Rightarrow> signo \<Rightarrow> sigaction" where
  "sig_reset a sig = (if sa_flags a AND SA_RESETHAND \<noteq> 0 \<and> sig \<noteq> SIGILL \<and> sig \<noteq> SIGTRAP
     then a\<lparr>sa_handler := SIG_DFL, sa_flags := sa_flags a AND NOT SA_SIGINFO\<rparr> else a)"

definition sig_enter :: "sigst \<Rightarrow> nat \<Rightarrow> signo \<Rightarrow> sigaction \<Rightarrow> (sigst \<times> sig_outcome)" where
  "sig_enter y t sig a = (let
     x = st y t;
     old = t_mask x;
     m = sigset_or (t_mask x) (sa_mask a);
     m = (if sa_flags a AND SA_NODEFER = 0 then sigblock m sig else m);
     x = x\<lparr>t_mask := sigmask_fix m, nesting_lvl := nesting_lvl x + 1\<rparr>;
     a' = sig_reset a sig;
     y = y\<lparr>sp := (sp y)\<lparr>sigacts := (sigacts (sp y))[sig := a']\<rparr>\<rparr> in
     if sa_flags a' AND SA_ONSTACK \<noteq> 0 \<and> ss_flags (t_stack x) AND (SS_DISABLE OR SS_ONSTACK) = 0 then
       let x = x\<lparr>stack_lvl := nesting_lvl x, t_stack := (t_stack x)\<lparr>ss_flags := ss_flags (t_stack x) OR SS_ONSTACK\<rparr>\<rparr> in
       (y\<lparr>st := (st y)(t := x)\<rparr>, Sig_handle sig (Some (t_stack x)) a old)
     else if sig = SIGSEGV then (y\<lparr>st := (st y)(t := x)\<rparr>, Sig_exit sig)
     else (y\<lparr>st := (st y)(t := x)\<rparr>, Sig_handle sig None a old))"

text \<open>The last component of the result says whether the lock of the signal state was released: the
  path for a signal whose default action is to be ignored returns without doing so.\<close>

definition signal_intr :: "sigst \<Rightarrow> nat \<Rightarrow> (sigst \<times> sig_outcome \<times> bool) panicking" where
  "signal_intr y t = (let (y, sig) = signext y t in
     if sig = 0 then Some (y, Sig_none, True)
     else if sig = SIGKILL then Some (y, Sig_exit sig, True)
     else do {
       a \<leftarrow> nth_opt (sigacts (sp y)) sig;
       if sa_handler a = SIG_IGN \<and> sig \<noteq> SIGSEGV then Some (y, Sig_none, True)
       else if sa_handler a = SIG_DFL then
         (case sigdefault sig of
            SIGACT_TERM \<Rightarrow> Some (y, Sig_exit sig, True)
          | SIGACT_STOP \<Rightarrow> Some (y\<lparr>sp := (sp y)\<lparr>p_pending := sigunblock (p_pending (sp y)) SIGCONT\<rparr>\<rparr>, Sig_stop sig, True)
          | SIGACT_CONT \<Rightarrow> Some (y, Sig_cont, True)
          | SIGACT_IGN \<Rightarrow> Some (y, Sig_none, False))
       else (let (y, out) = sig_enter y t sig a in Some (y, out, True)) })"

definition sys_sigreturn :: "sigst \<Rightarrow> nat \<Rightarrow> sigst panicking" where
  "sys_sigreturn y t = do {
     x \<leftarrow> signal_cleanup (st y t);
     Some (y\<lparr>st := (st y)(t := x)\<rparr>) }"

subsection \<open>Signal sets are sets of signals\<close>

definition sigset_ok :: "sigset \<Rightarrow> bool" where
  "sigset_ok ss \<longleftrightarrow> length ss = SIGSET_NELEM"

definition sigs :: "sigset \<Rightarrow> signo set" where
  "sigs ss = {s. 1 \<le> s \<and> s \<le> 64 \<and> sigblocked ss s}"

lemma SIGSET_IDX_eq: "SIGSET_IDX s = s div 32"
  by (simp add: SIGSET_IDX_def div_mult2_eq [symmetric])

lemma SIGSET_MSK_eq: "SIGSET_MSK s = 2 ^ (s mod 32)"
  by (simp add: SIGSET_MSK_def push_bit_eq_mult)

lemma sigblocked_bit: "sigblocked ss s \<longleftrightarrow> bit (ss ! ((s - 1) div 32)) ((s - 1) mod 32)"
  by (simp add: sigblocked_def SIGSET_IDX_eq SIGSET_MSK_eq)

lemma sig_idx: "s \<le> 64 \<Longrightarrow> 1 \<le> s \<Longrightarrow> (s - 1) div 32 < (2::nat)"
  by (rule less_mult_imp_div_less) simp

lemma sig_pos_eq: "1 \<le> s \<Longrightarrow> 1 \<le> r \<Longrightarrow> (s - 1) div 32 = (r - 1) div 32 \<and> (s - 1) mod 32 = (r - 1) mod 32 \<longleftrightarrow> s = (r::nat)"
  using div_mod_eq_iff [of "s - 1" 32 "r - 1"] by auto

lemma sigset_ok_ops [simp]:
  "sigset_ok (sigset_or a b)" "sigset_ok (sigset_nand a b)" "sigset_ok sigset_zero"
  "sigset_ok (sigblock a s) = sigset_ok a" "sigset_ok (sigunblock a s) = sigset_ok a" "sigset_ok (sigmask_fix a) = sigset_ok a"
  by (simp_all add: sigset_ok_def sigset_or_def sigset_nand_def sigset_zero_def sigblock_def sigunblock_def sigmask_fix_def)

lemma sigs_sigblock:
  assumes "sigset_ok ss" "1 \<le> s" "s \<le> 64"
  shows "sigs (sigblock ss s) = insert s (sigs ss)"
proof -
  have "sigblocked (sigblock ss s) r \<longleftrightarrow> r = s \<or> sigblocked ss r" if "1 \<le> r" "r \<le> 64" for r
  proof (cases "(r - 1) div 32 = (s - 1) div 32")
    case True
    then show ?thesis
      using assms that sig_idx [of s] sig_pos_eq [of r s]
      by (auto simp: sigblocked_bit sigblock_def SIGSET_IDX_eq SIGSET_MSK_eq sigset_ok_def SIGSET_NELEM_def bit_or_iff bit_single)
  next
    case False
    then show ?thesis by (auto simp: sigblocked_bit sigblock_def SIGSET_IDX_eq)
  qed
  then show ?thesis using assms by (auto simp: sigs_def)
qed

lemma sigs_sigunblock:
  assumes "sigset_ok ss" "1 \<le> s" "s \<le> 64"
  shows "sigs (sigunblock ss s) = sigs ss - {s}"
proof -
  have "sigblocked (sigunblock ss s) r \<longleftrightarrow> r \<noteq> s \<and> sigblocked ss r" if "1 \<le> r" "r \<le> 64" for r
  proof (cases "(r - 1) div 32 = (s - 1) div 32")
    case True
    then show ?thesis
      using assms that sig_idx [of s] sig_pos_eq [of r s]
      by (auto simp: sigblocked_bit sigunblock_def SIGSET_IDX_eq SIGSET_MSK_eq sigset_ok_def SIGSET_NELEM_def bit_and_iff bit_not_iff
          bit_single)
  next
    case False
    then show ?thesis by (auto simp: sigblocked_bit sigunblock_def SIGSET_IDX_eq)
  qed
  then show ?thesis by (auto simp: sigs_def)
qed

lemma sigs_or: "sigs (sigset_or a b) = sigs a \<union> sigs b"
  using sig_idx by (auto simp: sigs_def sigblocked_bit sigset_or_def SIGSET_NELEM_def bit_or_iff)

lemma sigs_nand: "sigs (sigset_nand a b) = sigs a - sigs b"
proof -
  have "(r - 1) mod 32 < 32" for r :: nat by simp
  then show ?thesis
    using sig_idx by (auto simp: sigs_def sigblocked_bit sigset_nand_def SIGSET_NELEM_def bit_and_iff bit_not_iff)
qed

lemma sigs_zero [simp]: "sigs sigset_zero = {}"
  using sig_idx by (auto simp: sigs_def sigblocked_bit sigset_zero_def SIGSET_NELEM_def)

lemma and_not_eq_0: "w AND NOT v = 0 \<longleftrightarrow> (\<forall>n < 32. bit w n \<longrightarrow> bit v n)" for w v :: u32
proof
  assume e: "w AND NOT v = 0"
  show "\<forall>n < 32. bit w n \<longrightarrow> bit v n"
  proof (intro allI impI)
    fix n :: nat assume n: "n < 32" "bit w n"
    have "\<not> bit (w AND NOT v) n" by (simp add: e)
    then show "bit v n" using n by (simp add: bit_and_iff bit_not_iff)
  qed
qed (auto intro!: bit_word_eqI simp: bit_and_iff bit_not_iff)

lemma sigpending_iff: "sigpending ss mk \<longleftrightarrow> sigs ss - sigs mk \<noteq> {}"
proof -
  have "sigpending ss mk \<longleftrightarrow> (\<exists>i < 2. \<exists>n < 32. bit (ss ! i) n \<and> \<not> bit (mk ! i) n)"
    by (auto simp: sigpending_def SIGSET_NELEM_def and_not_eq_0)
  also have "\<dots> \<longleftrightarrow> (\<exists>r. 1 \<le> r \<and> r \<le> 64 \<and> sigblocked ss r \<and> \<not> sigblocked mk r)"
  proof
    assume "\<exists>i < 2. \<exists>n < 32. bit (ss ! i) n \<and> \<not> bit (mk ! i) n"
    then obtain i n where "i < 2" "n < 32" "bit (ss ! i) n" "\<not> bit (mk ! i) n" by blast
    then show "\<exists>r. 1 \<le> r \<and> r \<le> 64 \<and> sigblocked ss r \<and> \<not> sigblocked mk r"
      by (intro exI [of _ "32 * i + n + 1"]) (simp add: sigblocked_bit)
  next
    assume "\<exists>r. 1 \<le> r \<and> r \<le> 64 \<and> sigblocked ss r \<and> \<not> sigblocked mk r"
    then obtain r where r: "1 \<le> r" "r \<le> 64" "sigblocked ss r" "\<not> sigblocked mk r" by blast
    then show "\<exists>i < 2. \<exists>n < 32. bit (ss ! i) n \<and> \<not> bit (mk ! i) n"
      by (intro exI [of _ "(r - 1) div 32"] conjI sig_idx exI [of _ "(r - 1) mod 32"]) (simp_all add: sigblocked_bit)
  qed
  also have "\<dots> \<longleftrightarrow> sigs ss - sigs mk \<noteq> {}" by (auto simp: sigs_def)
  finally show ?thesis .
qed

lemma sigblocked_iff: "1 \<le> s \<Longrightarrow> s \<le> 64 \<Longrightarrow> sigblocked ss s \<longleftrightarrow> s \<in> sigs ss"
  by (simp add: sigs_def)

lemma signo_range [simp]:
  "1 \<le> SIGKILL" "SIGKILL \<le> 64" "1 \<le> SIGSEGV" "SIGSEGV \<le> 64" "1 \<le> SIGSTOP" "SIGSTOP \<le> 64" "1 \<le> SIGCONT" "SIGCONT \<le> 64"
  by (simp_all add: SIGKILL_def SIGSEGV_def SIGSTOP_def SIGCONT_def)

lemma signo_pos [simp]: "Suc 0 \<le> SIGKILL" "Suc 0 \<le> SIGSEGV" "Suc 0 \<le> SIGSTOP" "Suc 0 \<le> SIGCONT"
  by (simp_all add: SIGKILL_def SIGSEGV_def SIGSTOP_def SIGCONT_def)

lemma sigs_fix: "sigset_ok ss \<Longrightarrow> sigs (sigmask_fix ss) = sigs ss - {SIGKILL, SIGSTOP, SIGSEGV}"
  by (simp only: sigmask_fix_def sigs_sigunblock sigset_ok_ops signo_range) blast


subsection \<open>The invariant\<close>

definition pend_ok :: "sigset \<Rightarrow> u32 \<Rightarrow> bool" where
  "pend_ok ss n \<longleftrightarrow> sigset_ok ss \<and> sigs ss \<subseteq> {1..<NSIG} \<and> card (sigs ss) \<le> unat n"

text \<open>All signal sets have their size, there is an action for every signal, and the counters that let
  a test for pending signals be skipped are never below the number of pending signals.\<close>

definition sig_inv :: "sigst \<Rightarrow> bool" where
  "sig_inv y \<longleftrightarrow> length (sigacts (sp y)) = NSIG \<and> (\<forall>a \<in> set (sigacts (sp y)). sigset_ok (sa_mask a)) \<and>
     pend_ok (p_pending (sp y)) (p_npending (sp y)) \<and>
     (\<forall>t. sigset_ok (t_mask (st y t)) \<and> pend_ok (t_pending (st y t)) (t_npending (st y t)))"

text \<open>The counters are at most \<open>n\<close>.\<close>

definition counts_le :: "sigst \<Rightarrow> nat \<Rightarrow> bool" where
  "counts_le y n \<longleftrightarrow> unat (p_npending (sp y)) \<le> n \<and> (\<forall>t. unat (t_npending (st y t)) \<le> n)"

lemma finite_sigs [simp]: "finite (sigs ss)"
  by (rule finite_subset [of _ "{..64}"]) (auto simp: sigs_def)

lemma pend_ok_nonzero: "pend_ok ss n \<Longrightarrow> sigs ss \<noteq> {} \<Longrightarrow> n \<noteq> 0"
  by (auto simp: pend_ok_def)

lemma pend_ok_drop: "pend_ok ss n \<Longrightarrow> 1 \<le> s \<Longrightarrow> s \<le> 64 \<Longrightarrow> pend_ok (sigunblock ss s) n"
  by (auto simp: pend_ok_def sigs_sigunblock intro: order_trans [OF card_Diff1_le])

lemma unat_inc: "unat n < 4294967295 \<Longrightarrow> unat (n + 1) = unat n + 1" for n :: u32
  by (simp add: unat_word_ariths)

lemma pend_ok_post:
  assumes "pend_ok ss n" "1 \<le> s" "s < NSIG" "unat n < 4294967295"
  shows "pend_ok (sigblock ss s) (if \<not> sigblocked ss s then n + 1 else n)"
proof -
  have s: "s \<le> 64" using assms(3) by (simp add: NSIG_def)
  have b: "sigs (sigblock ss s) = insert s (sigs ss)" using assms s by (simp add: sigs_sigblock pend_ok_def)
  show ?thesis
    using assms s unat_inc [OF assms(4)] by (auto simp: pend_ok_def b sigblocked_iff card_insert_if)
qed

lemma pend_ok_take:
  assumes "pend_ok ss n" "s \<in> sigs ss"
  shows "pend_ok (sigunblock ss s) (n - 1)" "unat (n - 1) \<le> unat n"
proof -
  have n0: "n \<noteq> 0" using pend_ok_nonzero [OF assms(1)] assms(2) by auto
  then have u: "unat (n - 1) = unat n - 1" by (simp add: unat_minus_one)
  have b: "sigs (sigunblock ss s) = sigs ss - {s}"
    using assms by (intro sigs_sigunblock) (auto simp: pend_ok_def sigs_def)
  show "pend_ok (sigunblock ss s) (n - 1)" "unat (n - 1) \<le> unat n"
    using assms u by (auto simp: pend_ok_def b)
qed

lemma pend_ok_leak:
  assumes "pend_ok ss n" "1 \<le> s" "s \<le> 64" "unat n < 4294967295"
  shows "pend_ok (sigunblock ss s) (n + 1)"
  using pend_ok_drop [OF assms(1-3)] unat_inc [OF assms(4)] by (auto simp: pend_ok_def)

text \<open>Under the invariant the quick test is exact.\<close>

lemma SIGPENDING_exact:
  assumes "pend_ok (p_pending p) (p_npending p)" "pend_ok (t_pending x) (t_npending x)"
  shows "SIGPENDING p x \<longleftrightarrow> (sigs (p_pending p) \<union> sigs (t_pending x)) - sigs (t_mask x) \<noteq> {}"
  using pend_ok_nonzero [OF assms(1)] pend_ok_nonzero [OF assms(2)] unfolding SIGPENDING_def sigpending_iff by blast

lemma sig_invD:
  assumes "sig_inv y"
  shows "length (sigacts (sp y)) = NSIG" "pend_ok (p_pending (sp y)) (p_npending (sp y))"
    "sigset_ok (t_mask (st y t))" "pend_ok (t_pending (st y t)) (t_npending (st y t))"
    "n < NSIG \<Longrightarrow> sigset_ok (sa_mask (sigacts (sp y) ! n))"
  using assms by (auto simp: sig_inv_def)

lemma sig_inv_upd:
  assumes "sig_inv y" "length (sigacts p) = NSIG" "\<forall>a \<in> set (sigacts p). sigset_ok (sa_mask a)"
    "pend_ok (p_pending p) (p_npending p)" "sigset_ok (t_mask x)" "pend_ok (t_pending x) (t_npending x)"
  shows "sig_inv (y\<lparr>sp := p, st := (st y)(t := x)\<rparr>)"
  using assms by (simp add: sig_inv_def)

lemma sig_post_inv:
  assumes i: "sig_inv y" and s: "1 \<le> s" "s < NSIG" and n: "counts_le y n" "n < 4294967295"
  shows "sig_inv (sig_post y t b s)" "counts_le (sig_post y t b s) (n + 1)"
proof -
  have p: "unat (p_npending (sp y)) < 4294967295" "unat (t_npending (st y u)) < 4294967295" for u
    using n by (auto simp: counts_le_def intro: order_le_less_trans)
  note pp = pend_ok_post [OF sig_invD(2) [OF i] s p(1)] pend_ok_post [OF sig_invD(4) [OF i, of t] s p(2)]
  show "sig_inv (sig_post y t b s)"
    using i pp by (auto simp: sig_post_def Let_def sig_inv_def)
  show "counts_le (sig_post y t b s) (n + 1)"
    using n unat_inc [OF p(1)] unat_inc [OF p(2) [of t]] by (auto simp: sig_post_def Let_def counts_le_def le_SucI)
qed

lemma kern_signal_inv:
  assumes i: "sig_inv y" and k: "kern_signal s y thr sg kern = Some (y', e, calls)" and n: "counts_le y n" "n < 4294967295"
  shows "sig_inv y' \<and> counts_le y' (n + 1)"
proof -
  have le: "counts_le y (n + 1)" using n(1) by (auto simp: counts_le_def le_SucI)
  have y': "y' = y \<or> y' = y\<lparr>sp := (sp y)\<lparr>p_pending := sigunblock (p_pending (sp y)) SIGCONT\<rparr>\<rparr> \<or>
      (\<exists>t b. y' = sig_post y t b (nat sg) \<and> 1 \<le> nat sg \<and> nat sg < NSIG)"
    using k by (auto simp: kern_signal_def Let_def bind_eq_Some_conv split: if_splits)
  then show ?thesis
  proof (elim disjE exE conjE)
    assume "y' = y\<lparr>sp := (sp y)\<lparr>p_pending := sigunblock (p_pending (sp y)) SIGCONT\<rparr>\<rparr>"
    then show ?thesis
      using i le pend_ok_drop [OF sig_invD(2) [OF i], of SIGCONT] by (simp add: sig_inv_def counts_le_def)
  qed (use i le sig_post_inv [OF i _ _ n] in auto)
qed

text \<open>The signals a thread can take now.\<close>

definition deliverable :: "sigst \<Rightarrow> nat \<Rightarrow> signo set" where
  "deliverable y t = (sigs (t_pending (st y t)) \<union> sigs (p_pending (sp y))) - sigs (t_mask (st y t))"

definition preferred :: "signo set \<Rightarrow> signo" where
  "preferred D = (if SIGSEGV \<in> D then SIGSEGV else if SIGKILL \<in> D then SIGKILL else Min D)"

lemma sigset_ffs_preferred:
  assumes "sigs ss \<subseteq> {1..<NSIG}" "sigs ss \<noteq> {}"
  shows "sigset_ffs ss = preferred (sigs ss)" "preferred (sigs ss) \<in> sigs ss"
proof -
  have fin: "Min (sigs ss) \<in> sigs ss" using assms(2) by (rule Min_in [OF finite_sigs])
  then show "preferred (sigs ss) \<in> sigs ss" by (simp add: preferred_def)
  let ?m = "Min (sigs ss)"
  have m: "1 \<le> ?m" "?m < NSIG" using fin assms(1) by auto
  have "find (\<lambda>i. sigblocked ss (i + 1)) [0..<NSIG] = Some (?m - 1)"
  proof (rule find_upt_Some [THEN iffD2], intro conjI allI impI)
    show "sigblocked ss (?m - 1 + 1)" using fin m by (simp add: sigs_def)
    fix j assume j: "0 \<le> j \<and> j < ?m - 1"
    show "\<not> sigblocked ss (j + 1)"
    proof
      assume "sigblocked ss (j + 1)"
      then have "j + 1 \<in> sigs ss" using j m by (simp add: sigs_def NSIG_def)
      then have "?m \<le> j + 1" by simp
      with j show False by simp
    qed
  qed (use m in auto)
  then show "sigset_ffs ss = preferred (sigs ss)"
    using m by (simp add: sigset_ffs_def preferred_def sigblocked_iff)
qed

lemma signext_none: "sig_inv y \<Longrightarrow> deliverable y t = {} \<Longrightarrow> signext y t = (y, 0)"
  using SIGPENDING_exact [of "sp y" "st y t"] sig_invD(2) [of y] sig_invD(4) [of y t] by (auto simp: signext_def deliverable_def)

lemma signext_some:
  assumes i: "sig_inv y" and d: "deliverable y t \<noteq> {}"
  defines "s \<equiv> preferred (deliverable y t)"
  shows "s \<in> deliverable y t" "1 \<le> s" "s < NSIG"
    "signext y t = (if s \<in> sigs (p_pending (sp y))
      then (y\<lparr>sp := (sp y)\<lparr>p_npending := p_npending (sp y) - 1, p_pending := sigunblock (p_pending (sp y)) s\<rparr>\<rparr>, s)
      else (y\<lparr>st := (st y)(t := (st y t)\<lparr>t_npending := t_npending (st y t) + 1,
                                         t_pending := sigunblock (t_pending (st y t)) s\<rparr>)\<rparr>, s))"
proof -
  let ?S = "sigset_nand (sigset_or (t_pending (st y t)) (p_pending (sp y))) (t_mask (st y t))"
  have S: "sigs ?S = deliverable y t" by (simp add: sigs_nand sigs_or deliverable_def)
  have sub: "sigs ?S \<subseteq> {1..<NSIG}"
    using sig_invD(2) [OF i] sig_invD(4) [OF i, of t] by (auto simp: S deliverable_def pend_ok_def)
  note f = sigset_ffs_preferred [OF sub] d
  show sd: "s \<in> deliverable y t" using f(2) d by (simp add: S s_def)
  show s: "1 \<le> s" "s < NSIG" using sd sub by (auto simp: S)
  have b: "sigblocked (p_pending (sp y)) s \<longleftrightarrow> s \<in> sigs (p_pending (sp y))"
    using s by (intro sigblocked_iff) (simp_all add: NSIG_def)
  have p: "SIGPENDING (sp y) (st y t)"
    using SIGPENDING_exact [of "sp y" "st y t"] sig_invD(2) [OF i] sig_invD(4) [OF i, of t] d by (auto simp: deliverable_def)
  have ff: "sigset_ffs ?S = s" using f(1) d by (simp add: S s_def)
  show "signext y t = (if s \<in> sigs (p_pending (sp y))
      then (y\<lparr>sp := (sp y)\<lparr>p_npending := p_npending (sp y) - 1, p_pending := sigunblock (p_pending (sp y)) s\<rparr>\<rparr>, s)
      else (y\<lparr>st := (st y)(t := (st y t)\<lparr>t_npending := t_npending (st y t) + 1,
                                         t_pending := sigunblock (t_pending (st y t)) s\<rparr>)\<rparr>, s))"
    using p s b unfolding signext_def by (simp add: ff Let_def)
qed

lemma signext_inv:
  assumes i: "sig_inv y" and n: "counts_le y n" "n < 4294967295" and e: "signext y t = (y', s)"
  shows "sig_inv y' \<and> counts_le y' (n + 1) \<and> s < NSIG \<and> sigacts (sp y') = sigacts (sp y) \<and> t_mask (st y' t) = t_mask (st y t)"
proof (cases "deliverable y t = {}")
  case True
  then show ?thesis using signext_none [OF i] e i n(1) by (auto simp: counts_le_def le_SucI NSIG_def)
next
  case False
  note s = signext_some [OF i False]
  have u: "unat (t_npending (st y t)) < 4294967295" using n by (auto simp: counts_le_def intro: order_le_less_trans)
  have r: "1 \<le> s" "s \<le> 64" "s < NSIG" "s = preferred (deliverable y t)" using s e by (auto simp: NSIG_def split: if_splits)
  show ?thesis
  proof (cases "s \<in> sigs (p_pending (sp y))")
    case True
    then have y': "y' = y\<lparr>sp := (sp y)\<lparr>p_npending := p_npending (sp y) - 1, p_pending := sigunblock (p_pending (sp y)) s\<rparr>\<rparr>"
      using s(4) e r(4) by simp
    show ?thesis
      using i n(1) r(3) pend_ok_take [OF sig_invD(2) [OF i] True] by (auto simp: y' sig_inv_def counts_le_def le_SucI)
  next
    case False
    then have y': "y' = y\<lparr>st := (st y)(t := (st y t)\<lparr>t_npending := t_npending (st y t) + 1,
        t_pending := sigunblock (t_pending (st y t)) s\<rparr>)\<rparr>"
      using s(4) e r(4) by simp
    show ?thesis
      using i n(1) r(3) pend_ok_leak [OF sig_invD(4) [OF i] r(1,2) u] unat_inc [OF u]
      by (auto simp: y' sig_inv_def counts_le_def le_SucI)
  qed
qed

lemma sig_reset_mask [simp]: "sa_mask (sig_reset a s) = sa_mask a"
  by (simp add: sig_reset_def)

text \<open>The mask while a handler runs.\<close>

definition handler_mask :: "sigset \<Rightarrow> sigaction \<Rightarrow> signo \<Rightarrow> sigset" where
  "handler_mask m a s = sigmask_fix (if sa_flags a AND SA_NODEFER = 0 then sigblock (sigset_or m (sa_mask a)) s
     else sigset_or m (sa_mask a))"

lemma sig_enter_frame:
  assumes "sig_enter y t s a = (y', out)"
  shows "\<exists>x. y' = y\<lparr>sp := (sp y)\<lparr>sigacts := (sigacts (sp y))[s := sig_reset a s]\<rparr>, st := (st y)(t := x)\<rparr> \<and>
    t_pending x = t_pending (st y t) \<and> t_npending x = t_npending (st y t) \<and>
    t_mask x = handler_mask (t_mask (st y t)) a s \<and>
    (out = Sig_exit s \<and> s = SIGSEGV \<or> (\<exists>stk. out = Sig_handle s stk a (t_mask (st y t))))"
  using assms unfolding sig_enter_def handler_mask_def Let_def
  by (intro exI [of _ "st y' t"],
      cases "sa_flags (sig_reset a s) AND SA_ONSTACK \<noteq> 0 \<and> ss_flags (t_stack (st y t)) AND (SS_DISABLE OR SS_ONSTACK) = 0";
      cases "s = SIGSEGV") auto

lemma signal_intr_inv:
  assumes i: "sig_inv y" and n: "counts_le y n" "n < 4294967295" and e: "signal_intr y t = Some (y', out, rel)"
  shows "sig_inv y' \<and> counts_le y' (n + 1)"
proof -
  obtain z s where z: "signext y t = (z, s)" by fastforce
  note zi = signext_inv [OF i n z]
  let ?a = "sigacts (sp z) ! s"
  have ok: "sigset_ok (sa_mask ?a)" using zi sig_invD(5) [of z s] by blast
  consider "y' = z" | "y' = z\<lparr>sp := (sp z)\<lparr>p_pending := sigunblock (p_pending (sp z)) SIGCONT\<rparr>\<rparr>"
    | "sig_enter z t s ?a = (y', out)"
    using e z by (auto simp: signal_intr_def bind_eq_Some_conv nth_opt_eq_Some split: if_splits sig_act.splits prod.splits)
  then show ?thesis
  proof cases
    case 2
    then show ?thesis
      using zi pend_ok_drop [OF sig_invD(2), of z SIGCONT] by (auto simp: sig_inv_def counts_le_def)
  next
    case 3
    from sig_enter_frame [OF this] obtain x where
      y': "y' = z\<lparr>sp := (sp z)\<lparr>sigacts := (sigacts (sp z))[s := sig_reset ?a s]\<rparr>, st := (st z)(t := x)\<rparr>"
      and x: "t_pending x = t_pending (st z t)" "t_npending x = t_npending (st z t)"
        "t_mask x = handler_mask (t_mask (st z t)) ?a s" by blast
    have "sigset_ok (t_mask x)" by (simp add: x(3) handler_mask_def)
    moreover have "\<forall>b \<in> set ((sigacts (sp z))[s := sig_reset ?a s]). sigset_ok (sa_mask b)"
      using zi ok set_update_subset_insert [of "sigacts (sp z)" s "sig_reset ?a s"] by (auto simp: sig_inv_def)
    ultimately show ?thesis using zi x(1,2) by (auto simp: y' sig_inv_def counts_le_def)
  qed (use zi in auto)
qed

subsection \<open>All sequences of operations\<close>

inductive sig_step :: "sigst \<Rightarrow> sigst \<Rightarrow> bool" where
  send: "kern_signal s y thr sg kern = Some (y', e, calls) \<Longrightarrow> sig_step y y'"
| deliver: "signal_intr y t = Some (y', out, rel) \<Longrightarrow> sig_step y y'"
| sreturn: "sys_sigreturn y t = Some y' \<Longrightarrow> sig_step y y'"
| mask: "\<forall>m. ss = Some m \<longrightarrow> sigset_ok m \<Longrightarrow> kern_sigprocmask y t how ss = (y', e, old, calls) \<Longrightarrow> sig_step y y'"
| set_mask: "sigset_ok m \<Longrightarrow> signal_set_mask y t m = (y', calls) \<Longrightarrow> sig_step y y'"
| action: "\<forall>a. usr = Some (Inr a) \<longrightarrow> sigset_ok (sa_mask a) \<Longrightarrow> sys_rt_sigaction y n usr old sz = Some (y', e) \<Longrightarrow> sig_step y y'"
| altstack: "sys_sigaltstack y t uss oss = (y', e) \<Longrightarrow> sig_step y y'"
| exec: "sig_step y (sigproc_exec y t)"

lemma sigaction_set_inv:
  assumes i: "sig_inv y" and ok: "sigset_ok (sa_mask a)" and e: "sigaction_set y n a = Some (y', old)"
  shows "sig_inv y' \<and> p_npending (sp y') = p_npending (sp y) \<and> st y' = st y"
proof -
  have "\<forall>c \<in> set ((sigacts (sp y))[n := a]). sigset_ok (sa_mask c)"
    using i ok set_update_subset_insert [of "sigacts (sp y)" n a] by (auto simp: sig_inv_def)
  then show ?thesis
    using i e by (cases "n = SIGCHLD") (auto simp: sigaction_set_def sig_inv_def bind_eq_Some_conv upd_opt_eq_Some)
qed

lemma sig_inv_action:
  assumes i: "sig_inv y" and ok: "\<forall>a. usr = Some (Inr a) \<longrightarrow> sigset_ok (sa_mask a)" and e: "sys_rt_sigaction y n usr old sz = Some (y', e)"
  shows "sig_inv y' \<and> p_npending (sp y') = p_npending (sp y) \<and> st y' = st y"
proof -
  have "y' = y \<or> (\<exists>a o'. usr = Some (Inr a) \<and> sigaction_set y (nat n) a = Some (y', o'))"
    using e unfolding sys_rt_sigaction_def
    by (elim if_eq_cases) (auto simp: bind_eq_Some_conv split: option.splits sum.splits if_splits)
  then show ?thesis using i ok sigaction_set_inv [OF i] by blast
qed

lemma sig_step_inv:
  assumes "sig_step y y'" "sig_inv y" "counts_le y n" "n < 4294967295"
  shows "sig_inv y' \<and> counts_le y' (n + 1)"
  using assms
proof (induction rule: sig_step.induct)
  case send
  then show ?case using kern_signal_inv by blast
next
  case deliver
  then show ?case using signal_intr_inv by blast
next
  case (sreturn y t y')
  then obtain x where x: "signal_cleanup (st y t) = Some x" "y' = y\<lparr>st := (st y)(t := x)\<rparr>"
    by (auto simp: sys_sigreturn_def bind_eq_Some_conv)
  have "t_pending x = t_pending (st y t) \<and> t_npending x = t_npending (st y t) \<and> t_mask x = t_mask (st y t)"
    using x(1) by (auto simp: signal_cleanup_def Let_def split: if_splits)
  then show ?case using sreturn.prems by (auto simp: x(2) sig_inv_def counts_le_def le_SucI)
next
  case (mask ss y t how y' e old calls)
  have "\<exists>m. sigset_ok m \<and> y' = y\<lparr>st := (st y)(t := (st y t)\<lparr>t_mask := m\<rparr>)\<rparr>"
    using mask.hyps sig_invD(3) [OF mask.prems(1), of t]
    by (intro exI [of _ "t_mask (st y' t)"]) (auto simp: kern_sigprocmask_def Let_def split: option.splits if_splits mask_how.splits)
  then show ?case using mask.prems by (auto simp: sig_inv_def counts_le_def le_SucI)
next
  case (set_mask m y t y' calls)
  then show ?case by (auto simp: signal_set_mask_def Let_def sig_inv_def counts_le_def le_SucI)
next
  case (action usr y n' old sz y' e)
  from sig_inv_action [OF action.prems(1) action.hyps] action.prems(2) show ?case
    by (auto simp: counts_le_def le_SucI)
next
  case (altstack y t uss oss y' e)
  then have "\<exists>ss. y' = y\<lparr>st := (st y)(t := (st y t)\<lparr>t_stack := ss\<rparr>)\<rparr> \<or> y' = y"
    by (intro exI [of _ "t_stack (st y' t)"]) (auto simp: sys_sigaltstack_def Let_def split: option.splits sum.splits if_splits)
  then show ?case using altstack.prems by (auto simp: sig_inv_def counts_le_def le_SucI)
next
  case (exec y t)
  then show ?case by (auto simp: sigproc_exec_def sig_inv_def counts_le_def pend_ok_def le_SucI)
qed

definition sig_start :: "nat list \<Rightarrow> nat \<Rightarrow> nat \<Rightarrow> sigst" where
  "sig_start ts uid suid = \<lparr> sp = \<lparr> sigacts = replicate NSIG sigaction_zero, p_pending = sigset_zero, p_npending = 0 \<rparr>,
     st = (\<lambda>_. sigthr_init), threads_of = ts, p_uid = uid, p_suid = suid, proc_exit = False, autoreap = False \<rparr>"

lemma sig_start_inv: "sig_inv (sig_start ts u v)" "counts_le (sig_start ts u v) 0"
  by (simp_all add: sig_start_def sig_inv_def counts_le_def pend_ok_def sigthr_init_def sigaction_zero_def)

lemma sig_steps_inv: "(sig_step ^^ n) (sig_start ts u v) y \<Longrightarrow> n \<le> 4294967295 \<Longrightarrow> sig_inv y \<and> counts_le y n"
proof (induction n arbitrary: y)
  case 0
  then have "y = sig_start ts u v" by simp
  then show ?case using sig_start_inv by simp
next
  case (Suc n)
  then obtain z where "(sig_step ^^ n) (sig_start ts u v) z" "sig_step z y" by auto
  with Suc sig_step_inv [of z y n] show ?case by simp
qed


subsection \<open>Properties\<close>

lemma sig_choose_thr_total: "threads_of y \<noteq> [] \<Longrightarrow> \<exists>t. sig_choose_thr s y sig = Some t"
  by (cases "threads_of y") (auto simp: sig_choose_thr_def split: option.split)

lemma sig_nth: "sig_inv y \<Longrightarrow> n < NSIG \<Longrightarrow> nth_opt (sigacts (sp y)) n = Some (sigacts (sp y) ! n)"
  using sig_invD(1) [of y] by (simp add: nth_opt_eq_Some)


definition user_sender :: sender where
  "user_sender = \<lparr> s_uid = 7, s_euid = 8, s_thread = None \<rparr>"



definition root_sender :: sender where
  "root_sender = \<lparr> s_uid = 0, s_euid = 0, s_thread = None \<rparr>"

text \<open>A process with one thread that catches SIGUSR1 and blocks SIGUSR2 meanwhile.\<close>

definition sig_demo :: sigst where
  "sig_demo = (let y = sig_start [3] 5 5 in y\<lparr>sp := (sp y)\<lparr>sigacts := (sigacts (sp y))[10 :=
     \<lparr> sa_handler = Handler 100, sa_flags = 0, sa_restorer = 0, sa_mask = sigblock sigset_zero 12 \<rparr>]\<rparr>\<rparr>)"

lemma sig_demo_inv: "sig_inv sig_demo" "counts_le sig_demo 0"
proof -
  have "set (sigacts (sp sig_demo)) \<subseteq> insert (sigacts (sp sig_demo) ! 10) {sigaction_zero}"
    using set_update_subset_insert [of "replicate 32 sigaction_zero" 10]
    by (auto simp: sig_demo_def sig_start_def NSIG_def Let_def)
  then have "\<forall>a \<in> set (sigacts (sp sig_demo)). sigset_ok (sa_mask a)"
    by (auto simp: sig_demo_def sig_start_def NSIG_def Let_def sigaction_zero_def)
  then show "sig_inv sig_demo" using sig_start_inv(1) [of "[3]" 5 5]
    by (auto simp: sig_inv_def sig_demo_def Let_def)
  show "counts_le sig_demo 0" using sig_start_inv(2) [of "[3]" 5 5]
    by (simp add: counts_le_def sig_demo_def Let_def)
qed

lemma sig_demo_send:
  "kern_signal root_sender sig_demo None (int 10) False = Some (sig_post sig_demo 3 True 10, None, [Thread_signal 3 False])"
proof -
  have a: "nth_opt (sigacts (sp sig_demo)) 10 = Some (sigacts (sp sig_demo) ! 10)"
    by (rule sig_nth [OF sig_demo_inv(1)]) (simp add: NSIG_def)
  have h: "sa_handler (sigacts (sp sig_demo) ! 10) = Handler 100" "sa_flags (sigacts (sp sig_demo) ! 10) = 0"
    by (simp_all add: sig_demo_def sig_start_def NSIG_def)
  have c: "sig_choose_thr root_sender sig_demo 10 = Some 3"
    by (simp add: sig_choose_thr_def root_sender_def sig_demo_def sig_start_def Let_def)
  have p: "SIGPENDING (sp (sig_post sig_demo 3 True 10)) (st (sig_post sig_demo 3 True 10) 3)" by code_simp
  have "proc_exit sig_demo = False" by (simp add: sig_demo_def sig_start_def Let_def)
  then show ?thesis
    using a h c p by (simp add: kern_signal_def NSIG_def sigperm_def root_sender_def Let_def SIGSTOP_def SIGCONT_def)
qed


text \<open>What a signal can do to a thread, by its action.\<close>

lemma handler_mask_sigs:
  assumes "sigset_ok m" "sigset_ok (sa_mask a)" "1 \<le> s" "s \<le> 64"
  shows "sigs (handler_mask m a s) = (sigs m \<union> sigs (sa_mask a) \<union> (if sa_flags a AND SA_NODEFER = 0 then {s} else {})) -
    {SIGKILL, SIGSTOP, SIGSEGV}"
  using assms by (auto simp: handler_mask_def sigs_fix sigs_sigblock sigs_or)

lemma signext_pending:
  assumes i: "sig_inv y" and d: "deliverable y t \<noteq> {}"
  defines "s \<equiv> preferred (deliverable y t)"
  shows "\<exists>z. signext y t = (z, s) \<and> sigacts (sp z) = sigacts (sp y) \<and> t_mask (st z t) = t_mask (st y t) \<and>
    (if s \<in> sigs (p_pending (sp y)) then sigs (p_pending (sp z)) = sigs (p_pending (sp y)) - {s} \<and> st z = st y
     else sigs (t_pending (st z t)) = sigs (t_pending (st y t)) - {s} \<and> sp z = sp y \<and> (\<forall>u. u \<noteq> t \<longrightarrow> st z u = st y u))"
proof -
  note s = signext_some [OF i d, folded s_def]
  have r: "1 \<le> s" "s \<le> 64" using s(2,3) by (auto simp: NSIG_def)
  have ss: "sigset_ok (p_pending (sp y))" "sigset_ok (t_pending (st y t))"
    using sig_invD(2) [OF i] sig_invD(4) [OF i, of t] by (auto simp: pend_ok_def)
  show ?thesis using s(4) sigs_sigunblock [OF ss(1) r] sigs_sigunblock [OF ss(2) r]
    by (cases "s \<in> sigs (p_pending (sp y))") auto
qed



lemma sig_demo_posted: "sig_inv (sig_post sig_demo 3 True 10)" "deliverable (sig_post sig_demo 3 True 10) 3 = {10}"
proof -
  show "sig_inv (sig_post sig_demo 3 True 10)"
    using sig_post_inv(1) [OF sig_demo_inv(1) _ _ sig_demo_inv(2), of 10 3 True] by (simp add: NSIG_def)
  have "sigs (sigblock sigset_zero 10) = {10}" by (simp add: sigs_sigblock)
  then show "deliverable (sig_post sig_demo 3 True 10) 3 = {10}"
    by (simp add: deliverable_def sig_post_def sig_demo_def sig_start_def sigthr_init_def Let_def)
qed


text \<open>C29. After any sequence of fewer than \<open>2\<^sup>3\<^sup>2\<close> sends, deliveries, returns from handlers, changes of
  masks, actions and stacks, and execs, in any order and by any thread, no pending signal is
  hidden: the quick test of the counters and sets says that a thread has a signal to take
  exactly when one is pending for it or its process and not masked, every pending signal
  is one of 1 to 31, and every signal has an action.\<close>
theorem sigpending_exact_reachable:
  assumes "(sig_step ^^ n) (sig_start ts u v) y" "n \<le> 4294967295"
  shows "(SIGPENDING (sp y) (st y t) \<longleftrightarrow> deliverable y t \<noteq> {}) \<and>
    sigs (p_pending (sp y)) \<union> sigs (t_pending (st y t)) \<subseteq> {1..<NSIG} \<and> length (sigacts (sp y)) = NSIG"
proof -
  have i: "sig_inv y" using sig_steps_inv [OF assms] by blast
  note p = sig_invD(2) [OF i] sig_invD(4) [OF i, of t]
  show ?thesis
    using SIGPENDING_exact [OF p] p sig_invD(1) [OF i] by (auto simp: deliverable_def pend_ok_def)
qed

theorem sigpending_exact_reachable_witness:
  "SIGPENDING (sp (sig_post (sig_start [3] 5 5) 3 True 9)) (st (sig_post (sig_start [3] 5 5) 3 True 9) 3) \<longleftrightarrow>
     deliverable (sig_post (sig_start [3] 5 5) 3 True 9) 3 \<noteq> {}"
proof -
  let ?y = "sig_start [3] 5 5"
  have a: "nth_opt (sigacts (sp ?y)) 9 = Some sigaction_zero"
    by (simp add: sig_start_def NSIG_def nth_opt_eq_Some)
  have c: "sig_choose_thr root_sender ?y 9 = Some 3"
    by (simp add: sig_choose_thr_def root_sender_def sig_start_def)
  have "sigperm root_sender ?y False" "proc_exit ?y = False" by (simp_all add: sigperm_def root_sender_def sig_start_def)
  then have "\<exists>calls. kern_signal root_sender ?y None 9 False = Some (sig_post ?y 3 True 9, None, calls)"
    using a c by (simp add: kern_signal_def NSIG_def Let_def SIGSTOP_def SIGCONT_def sigdefault_def sigaction_zero_def)
  then have "(sig_step ^^ 1) ?y (sig_post ?y 3 True 9)" by (auto intro: sig_step.send)
  from sigpending_exact_reachable [OF this] show ?thesis by simp
qed

text \<open>C33. The source says that SIGKILL cannot be blocked, but \<^verbatim>\<open>kern_sigprocmask\<close> removes it from the mask
  before it installs the new one. A thread that sets a mask with SIGKILL in it keeps it there, and a
  SIGKILL sent to the thread afterwards makes nothing deliverable and, if nothing else was, does
  not even interrupt it.\<close>
theorem sigprocmask_blocks_kill:
  assumes i: "sig_inv y" and c: "counts_le y n" "n < 4294967295" and x: "\<not> proc_exit y"
    and m: "sigset_ok m" "SIGKILL \<in> sigs m"
    and p: "kern_sigprocmask y t SIG_SETMASK (Some m) = (y1, e, old, c1)"
    and k: "kern_tkill s y1 t (int SIGKILL) True = Some (y2, e2, calls)"
  shows "e = None \<and> e2 = None \<and> SIGKILL \<in> sigs (t_pending (st y2 t)) \<and> deliverable y2 t = deliverable y1 t \<and>
    (deliverable y1 t = {} \<longrightarrow> calls = [])"
proof -
  have y1: "e = None" "y1 = y\<lparr>st := (st y)(t := (st y t)\<lparr>t_mask := m\<rparr>)\<rparr>"
    using p by (auto simp: kern_sigprocmask_def Let_def)
  have i1: "sig_inv y1" "counts_le y1 n" "\<not> proc_exit y1" using i c(1) m(1) x by (auto simp: y1 sig_inv_def counts_le_def)
  have r: "SIGKILL < NSIG" by (simp add: SIGKILL_def NSIG_def)
  have y2: "e2 = None" "y2 = sig_post y1 t False SIGKILL"
    "calls = (if SIGPENDING (sp y2) (st y2 t) then [Thread_signal t (sa_flags (sigacts (sp y1) ! SIGKILL) AND SA_RESTART \<noteq> 0)] else [])"
    using k i1(3) sig_nth [OF i1(1) r]
    by (auto simp: kern_tkill_def kern_signal_def Let_def NSIG_def SIGKILL_def SIGSTOP_def SIGCONT_def sigmayign_def
        sigperm_def sigdefault_def bind_eq_Some_conv split: if_splits)
  have i2: "sig_inv y2" unfolding y2(2) by (rule sig_post_inv(1) [OF i1(1) _ r i1(2) c(2)]) simp
  have "sigset_ok (t_pending (st y1 t))" using sig_invD(4) [OF i1(1), of t] by (simp add: pend_ok_def)
  then have b: "sigs (t_pending (st y2 t)) = insert SIGKILL (sigs (t_pending (st y1 t)))" "sp y2 = sp y1"
    "t_mask (st y2 t) = m" "t_mask (st y1 t) = m"
    using sigs_sigblock [of "t_pending (st y1 t)" SIGKILL] by (simp_all add: y2(2) sig_post_def Let_def y1(2))
  have d: "deliverable y2 t = deliverable y1 t" using b m(2) by (auto simp: deliverable_def)
  have "SIGPENDING (sp y2) (st y2 t) \<longleftrightarrow> deliverable y2 t \<noteq> {}"
    using SIGPENDING_exact [OF sig_invD(2) [OF i2] sig_invD(4) [OF i2, of t]] by (auto simp: deliverable_def)
  then show ?thesis using y1(1) y2(1,3) d b(1) by simp
qed

theorem sigprocmask_blocks_kill_witness:
  "\<exists>y1 y2 old c1. kern_sigprocmask (sig_start [3] 5 5) 3 SIG_SETMASK (Some (sigblock sigset_zero SIGKILL)) = (y1, None, old, c1) \<and>
    kern_tkill root_sender y1 3 (int SIGKILL) True = Some (y2, None, [])"
proof -
  let ?y = "sig_start [3] 5 5" and ?m = "sigblock sigset_zero SIGKILL"
  have "SIGKILL \<in> sigs ?m" by (simp add: sigs_sigblock)
  moreover obtain y1 e old c1 where p: "kern_sigprocmask ?y 3 SIG_SETMASK (Some ?m) = (y1, e, old, c1)"
    using prod_cases4 by blast
  moreover have y1: "y1 = ?y\<lparr>st := (st ?y)(3 := (st ?y 3)\<lparr>t_mask := ?m\<rparr>)\<rparr>"
    using p by (auto simp: kern_sigprocmask_def Let_def)
  moreover have "\<exists>y2 e2 calls. kern_tkill root_sender y1 3 (int SIGKILL) True = Some (y2, e2, calls)"
    by (simp add: y1 kern_tkill_def kern_signal_def sigperm_def SIGKILL_def SIGCONT_def SIGSTOP_def sigmayign_def sigdefault_def sigaction_zero_def NSIG_def sig_start_def nth_opt_def Let_def)
  then obtain y2 e2 calls where k: "kern_tkill root_sender y1 3 (int SIGKILL) True = Some (y2, e2, calls)" by blast
  moreover have "\<not> proc_exit ?y" "sigset_ok ?m" "deliverable y1 3 = {}"
    by (simp_all add: y1 sig_start_def deliverable_def sigthr_init_def)
  ultimately show ?thesis using sigprocmask_blocks_kill [OF sig_start_inv, of "[3]" 5 5 ?m 3 y1 e old c1 root_sender y2 e2 calls]
    by auto
qed

end
