(* ===== verification/Time.thy ===== *)
theory Time
  imports Prelude
begin

text \<open>
  The calendar and time arithmetic of \<^verbatim>\<open>kern/time.c\<close> and \<^verbatim>\<open>include/kern/time.h\<close> and the
  uptime clock of \<^verbatim>\<open>kern/timekeep.c\<close>. \<^verbatim>\<open>int\<close> and \<^verbatim>\<open>long\<close> have 32 bits: a computation
  that leaves that range is undefined behaviour, the value \<open>None\<close>. \<^verbatim>\<open>nanosec_t\<close> is a
  64 bit word and wraps.
\<close>

definition c_int :: "int \<Rightarrow> int panicking" where
  "c_int x = (if - (2 ^ 31) \<le> x \<and> x < 2 ^ 31 then Some x else None)"

lemma c_int_ok [simp]: "- 2147483648 \<le> x \<Longrightarrow> x < 2147483648 \<Longrightarrow> c_int x = Some x"
  by (simp add: c_int_def)

text \<open>The conversion of a 64 bit value to \<^verbatim>\<open>long\<close>.\<close>

definition to_long :: "u64 \<Rightarrow> int" where
  "to_long w = sint (ucast w :: 32 word)"

subsection \<open>Timespecs\<close>

record timespec =
  tv_sec :: int
  tv_nsec :: int

definition SEC_NANOSECS :: int where
  "SEC_NANOSECS = 1000000000"

definition SEC2NANO :: "int \<Rightarrow> int" where
  "SEC2NANO x = x * SEC_NANOSECS"

definition MILLI2NANO :: "int \<Rightarrow> int" where
  "MILLI2NANO x = x * 1000000"

definition MICRO2NANO :: "int \<Rightarrow> int" where
  "MICRO2NANO x = x * 1000"

definition nsec_to_ts :: "u64 \<Rightarrow> timespec" where
  "nsec_to_ts ns = \<lparr> tv_sec = to_long (ns div word_of_int SEC_NANOSECS),
     tv_nsec = to_long (ns mod word_of_int SEC_NANOSECS) \<rparr>"

definition ts_to_nsec :: "timespec \<Rightarrow> u64" where
  "ts_to_nsec ts = word_of_int (tv_sec ts) * word_of_int SEC_NANOSECS + word_of_int (tv_nsec ts)"

definition ts_add :: "timespec \<Rightarrow> timespec \<Rightarrow> timespec panicking" where
  "ts_add a b = do {
     kassert (tv_nsec a < SEC_NANOSECS);
     kassert (tv_nsec b < SEC_NANOSECS);
     kassert (tv_nsec a \<ge> 0);
     kassert (tv_nsec b \<ge> 0);
     s \<leftarrow> c_int (tv_sec a + tv_sec b);
     n \<leftarrow> c_int (tv_nsec a + tv_nsec b);
     if n \<ge> SEC_NANOSECS then do {
       s \<leftarrow> c_int (s + 1);
       Some \<lparr> tv_sec = s, tv_nsec = n - SEC_NANOSECS \<rparr> }
     else Some \<lparr> tv_sec = s, tv_nsec = n \<rparr> }"

definition ts_inc :: "timespec \<Rightarrow> u64 \<Rightarrow> timespec panicking" where
  "ts_inc ts ns = ts_add ts (nsec_to_ts ns)"

text \<open>\<^verbatim>\<open>copyin_ts\<close>: \<open>copied\<close> is what \<^verbatim>\<open>copyin\<close> returned and copied. \<open>Inl\<close> is the error.\<close>

definition copyin_ts :: "errno + timespec \<Rightarrow> errno + timespec" where
  "copyin_ts copied = (case copied of
     Inl e \<Rightarrow> Inl e
   | Inr ts \<Rightarrow> if tv_sec ts < 0 \<or> tv_nsec ts < 0 \<or> tv_nsec ts \<ge> SEC_NANOSECS then Inl EINVAL else Inr ts)"

text \<open>The argument of \<^verbatim>\<open>sleep_timespec\<close> in \<^verbatim>\<open>msleep\<close>; C rounds towards zero.\<close>

definition msleep_ts :: "int \<Rightarrow> timespec" where
  "msleep_ts ms = \<lparr> tv_sec = sgn ms * (\<bar>ms\<bar> div 1000), tv_nsec = MILLI2NANO (sgn ms * (\<bar>ms\<bar> mod 1000)) \<rparr>"

subsection \<open>Calendar\<close>

record datetime =
  dt_nsec :: int
  dt_sec :: int
  dt_min :: int
  dt_hour :: int
  dt_day :: int
  dt_mon :: int
  dt_year :: int

definition YEAR_BASE :: int where
  "YEAR_BASE = 1970"

definition leapyear :: "int \<Rightarrow> bool" where
  "leapyear y \<longleftrightarrow> y mod 4 = 0 \<and> (y mod 100 \<noteq> 0 \<or> y mod 400 = 0)"

definition year_days :: "int \<Rightarrow> int" where
  "year_days y = (if leapyear y then 366 else 365)"

definition month_days :: "int \<Rightarrow> int \<Rightarrow> int panicking" where
  "month_days year month = do {
     kassert (month \<ge> 1 \<and> month \<le> 12);
     if month = 2 then Some (if leapyear year then 29 else 28)
     else nth_opt [31, -1, 31, 30, 31, 30, 31, 31, 30, 31, 30, 31] (nat (month - 1)) }"

text \<open>The cases of the \<^verbatim>\<open>switch\<close> fall through, so month \<open>m\<close> adds the days of the months \<open>1\<close> to \<open>m\<close>.\<close>

definition year_month_days :: "int \<Rightarrow> int \<Rightarrow> int" where
  "year_month_days year month = (let
     at = (\<lambda>m d. if m \<le> month \<and> 1 \<le> month \<and> month \<le> 11 then d else 0) in
     at 11 30 + at 10 31 + at 9 30 + at 8 31 + at 7 31 + at 6 30 + at 5 31 + at 4 30 + at 3 31 +
     at 2 (28 + (if leapyear year then 1 else 0)) + at 1 31)"

definition cur_year :: int where
  "cur_year = 2017"

definition cur_year_days :: int where
  "cur_year_days = 17167"

function datetime_years :: "int \<Rightarrow> int \<Rightarrow> int \<Rightarrow> int panicking" where
  "datetime_years i y days =
     (if i < y then do {
        days \<leftarrow> c_int (days + year_days i);
        datetime_years (i + 1) y days }
      else Some days)"
  by pat_completeness auto
termination by (relation "measure (\<lambda>(i, y, _). nat (y - i))") auto

declare datetime_years.simps [simp del]

definition datetime_to_ts :: "datetime \<Rightarrow> (errno + timespec) panicking" where
  "datetime_to_ts time =
     (if dt_sec time \<ge> 60 \<or> dt_min time \<ge> 60 \<or> dt_hour time \<ge> 24 \<or> dt_mon time < 1 \<or> dt_mon time > 12 \<or> dt_day time < 1
      then Some (Inl EINVAL)
      else do {
        md \<leftarrow> month_days (dt_year time) (dt_mon time);
        if dt_day time > md then Some (Inl EINVAL)
        else do {
          days \<leftarrow> (if dt_year time \<ge> cur_year then datetime_years cur_year (dt_year time) cur_year_days
                   else datetime_years YEAR_BASE (dt_year time) 0);
          days \<leftarrow> c_int (days + year_month_days (dt_year time) (dt_mon time - 1));
          days \<leftarrow> c_int (days + (dt_day time - 1));
          h \<leftarrow> c_int (days * 24);
          hours \<leftarrow> c_int (h + dt_hour time);
          m \<leftarrow> c_int (hours * 60);
          mins \<leftarrow> c_int (m + dt_min time);
          s \<leftarrow> c_int (mins * 60);
          s \<leftarrow> c_int (s + dt_sec time);
          Some (Inr \<lparr> tv_sec = s, tv_nsec = dt_nsec time \<rparr>) } })"

text \<open>The proleptic Gregorian calendar: days from 1970-01-01 to the first of January of year \<open>y\<close>
  by the closed formula, and to a date by summing the lengths of the months before it.\<close>

definition greg_year :: "int \<Rightarrow> int" where
  "greg_year y = 365 * (y - 1970) + ((y - 1) div 4 - (y - 1) div 100 + (y - 1) div 400) - 477"

definition greg_month :: "int \<Rightarrow> nat \<Rightarrow> int" where
  "greg_month y m = (if m = 2 then if leapyear y then 29 else 28 else if m \<in> {4, 6, 9, 11} then 30 else 31)"

definition greg_day :: "int \<Rightarrow> nat \<Rightarrow> int \<Rightarrow> int" where
  "greg_day y m d = greg_year y + (\<Sum>k \<leftarrow> [1..<m]. greg_month y k) + d - 1"

lemma div_step: "0 < k \<Longrightarrow> (y :: int) div k = (y - 1) div k + (if y mod k = 0 then 1 else 0)"
proof -
  assume k: "0 < k"
  let ?q = "y div k" and ?r = "y mod k"
  have y: "y = k * ?q + ?r" by simp
  have r: "0 \<le> ?r" "?r < k" using k by auto
  show ?thesis
  proof (cases "?r = 0")
    case True
    have "(k * (?q - 1) + (k - 1)) div k = ?q - 1" using k by (simp add: div_mult_self2 div_pos_pos_trivial)
    moreover have "y - 1 = k * (?q - 1) + (k - 1)" using y True by (simp add: algebra_simps)
    ultimately have "(y - 1) div k = ?q - 1" by metis
    then show ?thesis using True by simp
  next
    case False
    have "(k * ?q + (?r - 1)) div k = ?q" using k r False by (simp add: div_pos_pos_trivial)
    moreover have "y - 1 = k * ?q + (?r - 1)" using y by simp
    ultimately have "(y - 1) div k = ?q" by metis
    then show ?thesis using False by simp
  qed
qed

lemma leapyear_mods:
  "y mod 400 = 0 \<Longrightarrow> y mod 100 = 0" "y mod 100 = 0 \<Longrightarrow> y mod 4 = 0" for y :: int
  using dvd_trans [of 100 400 y] dvd_trans [of 4 100 y] by (simp_all add: mod_eq_0_iff_dvd)

lemma greg_year_step: "greg_year (y + 1) = greg_year y + year_days y"
proof -
  have d: "y div 4 = (y - 1) div 4 + (if y mod 4 = 0 then 1 else 0)"
    "y div 100 = (y - 1) div 100 + (if y mod 100 = 0 then 1 else 0)"
    "y div 400 = (y - 1) div 400 + (if y mod 400 = 0 then 1 else 0)"
    by (rule div_step, simp)+
  have "greg_year (y + 1) = greg_year y + 365 + ((if y mod 4 = 0 then 1 else 0) - (if y mod 100 = 0 then 1 else 0) +
      (if y mod 400 = 0 then 1 else 0))"
    unfolding greg_year_def add_diff_cancel_right' d by (simp only: algebra_simps)
  also have "\<dots> = greg_year y + year_days y"
    using leapyear_mods [of y] unfolding year_days_def leapyear_def
    by (cases "y mod 4 = 0"; cases "y mod 100 = 0"; cases "y mod 400 = 0") simp_all
  finally show ?thesis .
qed

lemma greg_year_mono: "i \<le> y \<Longrightarrow> greg_year i \<le> greg_year y"
proof (induction "nat (y - i)" arbitrary: y)
  case (Suc n)
  then have "greg_year i \<le> greg_year (y - 1)" by simp
  moreover have "greg_year y = greg_year (y - 1) + year_days (y - 1)" using greg_year_step [of "y - 1"] by simp
  ultimately show ?case by (simp add: year_days_def split: if_splits)
qed simp

lemma greg_year_1970: "greg_year 1970 = 0"
  by (simp add: greg_year_def)

lemma greg_year_2017: "greg_year 2017 = 17167"
  by (simp add: greg_year_def)

lemma greg_year_nonneg: "1970 \<le> y \<Longrightarrow> 0 \<le> greg_year y"
  using greg_year_mono [of 1970 y] by (simp add: greg_year_1970)

lemma datetime_years_eq:
  assumes "i \<le> y" "days = greg_year i" "1970 \<le> i" "greg_year i < 2147483648"
  shows "datetime_years i y days = (if greg_year y < 2147483648 then Some (greg_year y) else None)"
  using assms
proof (induction i y days rule: datetime_years.induct)
  case (1 i y days)
  show ?case
  proof (cases "i < y")
    case True
    have step: "days + year_days i = greg_year (i + 1)" using 1(3) by (simp add: greg_year_step)
    have mono: "greg_year (i + 1) \<le> greg_year y" using True by (intro greg_year_mono) auto
    have pos: "0 \<le> greg_year (i + 1)" using 1(4) by (intro greg_year_nonneg) simp
    show ?thesis
    proof (cases "greg_year (i + 1) < 2147483648")
      case small: True
      then have c: "c_int (days + year_days i) = Some (greg_year (i + 1))"
        unfolding step using pos by (intro c_int_ok) linarith+
      have "datetime_years (i + 1) y (greg_year (i + 1)) = (if greg_year y < 2147483648 then Some (greg_year y) else None)"
        using 1(1) [OF True, of "greg_year (i + 1)"] True 1(4) small c by auto
      then show ?thesis using True c by (subst datetime_years.simps) simp
    next
      case False
      then have "c_int (days + year_days i) = None" unfolding step by (simp add: c_int_def)
      then show ?thesis using True False mono by (subst datetime_years.simps) simp
    qed
  next
    case False
    then have "i = y" using 1(2) by simp
    then show ?thesis using 1(3,5) by (simp add: datetime_years.simps)
  qed
qed

lemma month_cases:
  fixes m :: int
  assumes "1 \<le> m" "m \<le> 12"
  obtains "m = 1" | "m = 2" | "m = 3" | "m = 4" | "m = 5" | "m = 6" | "m = 7" | "m = 8" | "m = 9" | "m = 10"
    | "m = 11" | "m = 12"
proof -
  have "m = 1 \<or> m = 2 \<or> m = 3 \<or> m = 4 \<or> m = 5 \<or> m = 6 \<or> m = 7 \<or> m = 8 \<or> m = 9 \<or> m = 10 \<or> m = 11 \<or> m = 12"
    using assms by presburger
  then show ?thesis by (elim disjE) (rule that, assumption)+
qed

lemma month_days_greg: "1 \<le> m \<Longrightarrow> m \<le> 12 \<Longrightarrow> month_days y m = Some (greg_month y (nat m))"
  by (erule (1) month_cases; simp add: month_days_def greg_month_def nth_opt_def)

lemma year_month_days_greg:
  "1 \<le> m \<Longrightarrow> m \<le> 12 \<Longrightarrow> year_month_days y (m - 1) = (\<Sum>k \<leftarrow> [1..<nat m]. greg_month y k)"
  by (erule (1) month_cases; simp add: year_month_days_def greg_month_def upt_rec)

lemma year_month_days_nonneg: "0 \<le> year_month_days y m"
  by (simp add: year_month_days_def Let_def)

lemma c_int_nonneg: "0 \<le> x \<Longrightarrow> c_int x = (if x < 2147483648 then Some x else None)"
  by (simp add: c_int_def)

lemma seconds_chain:
  assumes "0 \<le> a" "0 \<le> (b::int)" "0 \<le> c" "0 \<le> h" "0 \<le> m" "0 \<le> s"
  shows "(do {
     days \<leftarrow> c_int (a + b); days \<leftarrow> c_int (days + c); x \<leftarrow> c_int (days * 24); hours \<leftarrow> c_int (x + h);
     x \<leftarrow> c_int (hours * 60); mins \<leftarrow> c_int (x + m); x \<leftarrow> c_int (mins * 60); x \<leftarrow> c_int (x + s); f x }) =
   (if (a + b + c) * 86400 + h * 3600 + m * 60 + s < 2147483648
    then f ((a + b + c) * 86400 + h * 3600 + m * 60 + s) else None)"
  using assms by (simp add: c_int_nonneg algebra_simps)

lemma seconds_days:
  assumes "0 \<le> a" "0 \<le> (b::int)" "0 \<le> c" "0 \<le> h" "0 \<le> m" "0 \<le> s"
  shows "(a + b + c) * 86400 + h * 3600 + m * 60 + s < 2147483648 \<Longrightarrow> a < 2147483648"
  using assms by simp

subsection \<open>Properties\<close>

text \<open>C22. For a well-formed date since 1970, \<^verbatim>\<open>datetime_to_ts\<close> returns the number of seconds since the
  epoch in the Gregorian calendar, whatever start year its table uses; a date whose number
  of seconds does not fit 31 bits (2038-01-19 03:14:08 and later) runs into a signed
  overflow, never into a wrong result.\<close>

theorem datetime_to_ts_gregorian:
  assumes "1970 \<le> dt_year t" and "1 \<le> dt_mon t" "dt_mon t \<le> 12"
    and "1 \<le> dt_day t" "dt_day t \<le> greg_month (dt_year t) (nat (dt_mon t))"
    and "0 \<le> dt_hour t" "dt_hour t < 24" and "0 \<le> dt_min t" "dt_min t < 60" and "0 \<le> dt_sec t" "dt_sec t < 60"
  shows "datetime_to_ts t = (let s = greg_day (dt_year t) (nat (dt_mon t)) (dt_day t) * 86400 +
      dt_hour t * 3600 + dt_min t * 60 + dt_sec t in
    if s < 2 ^ 31 then Some (Inr \<lparr> tv_sec = s, tv_nsec = dt_nsec t \<rparr>) else None)"
proof -
  let ?y = "dt_year t" and ?m = "dt_mon t"
  let ?d = "if cur_year \<le> ?y then datetime_years cur_year ?y cur_year_days else datetime_years YEAR_BASE ?y 0"
  let ?s = "greg_day ?y (nat ?m) (dt_day t) * 86400 + dt_hour t * 3600 + dt_min t * 60 + dt_sec t"
  have d: "?d = (if greg_year ?y < 2147483648 then Some (greg_year ?y) else None)"
    using datetime_years_eq [of cur_year ?y cur_year_days] datetime_years_eq [of YEAR_BASE ?y 0] assms(1)
    by (simp add: cur_year_def cur_year_days_def YEAR_BASE_def greg_year_1970 greg_year_2017)
  have ym: "year_month_days ?y (?m - 1) = (\<Sum>k \<leftarrow> [1..<nat ?m]. greg_month ?y k)"
    by (rule year_month_days_greg [OF assms(2,3)])
  have s: "?s = (greg_year ?y + year_month_days ?y (?m - 1) + (dt_day t - 1)) * 86400 +
      dt_hour t * 3600 + dt_min t * 60 + dt_sec t"
    by (simp add: ym greg_day_def algebra_simps)
  have ge: "0 \<le> greg_year ?y" "0 \<le> year_month_days ?y (?m - 1)" "0 \<le> dt_day t - 1"
    using greg_year_nonneg [OF assms(1)] year_month_days_nonneg assms(4) by auto
  have small: "greg_year ?y < 2147483648" if "?s < 2147483648" using that seconds_days [OF ge assms(6,8,10)] unfolding s by simp
  have unf: "datetime_to_ts t = do {
      days \<leftarrow> ?d; days \<leftarrow> c_int (days + year_month_days ?y (?m - 1)); days \<leftarrow> c_int (days + (dt_day t - 1));
      x \<leftarrow> c_int (days * 24); hours \<leftarrow> c_int (x + dt_hour t); x \<leftarrow> c_int (hours * 60);
      mins \<leftarrow> c_int (x + dt_min t); x \<leftarrow> c_int (mins * 60); x \<leftarrow> c_int (x + dt_sec t);
      Some (Inr \<lparr> tv_sec = x, tv_nsec = dt_nsec t \<rparr>) }"
    using assms month_days_greg [OF assms(2,3), of ?y] by (simp add: datetime_to_ts_def)
  show ?thesis
  proof (cases "greg_year ?y < 2147483648")
    case True
    then have d': "?d = Some (greg_year ?y)" using d by simp
    show ?thesis
      unfolding unf d' Option.bind.bind_lunit seconds_chain [OF ge assms(6,8,10)] s Let_def by simp
  next
    case False
    then have d': "?d = None" using d by simp
    show ?thesis unfolding unf d' using False small by (auto simp: Let_def)
  qed
qed

theorem datetime_to_ts_gregorian_witness:
  "datetime_to_ts \<lparr> dt_nsec = 0, dt_sec = 7, dt_min = 14, dt_hour = 3, dt_day = 19, dt_mon = 1, dt_year = 2038 \<rparr> =
     Some (Inr \<lparr> tv_sec = 2147483647, tv_nsec = 0 \<rparr>)"
  using datetime_to_ts_gregorian [of "\<lparr> dt_nsec = 0, dt_sec = 7, dt_min = 14, dt_hour = 3, dt_day = 19,
      dt_mon = 1, dt_year = 2038 \<rparr>"]
  by (simp add: greg_month_def greg_day_def greg_year_def)

text \<open>A timespec in normal form.\<close>

definition ts_ok :: "timespec \<Rightarrow> bool" where
  "ts_ok ts \<longleftrightarrow> - (2 ^ 31) \<le> tv_sec ts \<and> tv_sec ts < 2 ^ 31 \<and> 0 \<le> tv_nsec ts \<and> tv_nsec ts < SEC_NANOSECS"

definition ts_val :: "timespec \<Rightarrow> int" where
  "ts_val ts = tv_sec ts * SEC_NANOSECS + tv_nsec ts"

lemma ts_add_ok:
  assumes "ts_ok a" "ts_ok b" "tv_sec a + tv_sec b + 1 < 2 ^ 31" "- (2 ^ 31) \<le> tv_sec a + tv_sec b"
  obtains c where "ts_add a b = Some c" "ts_ok c" "ts_val c = ts_val a + ts_val b"
proof -
  have n: "0 \<le> tv_nsec a + tv_nsec b" "tv_nsec a + tv_nsec b < 2147483648"
    using assms(1,2) by (auto simp: ts_ok_def SEC_NANOSECS_def)
  show ?thesis
    using assms n
    by (cases "tv_nsec a + tv_nsec b \<ge> SEC_NANOSECS")
      (auto simp: ts_add_def ts_ok_def ts_val_def SEC_NANOSECS_def algebra_simps intro: that)
qed

text \<open>The seconds of a timespec end at \<open>2 ^ 31\<close>; the addition overflows exactly there.\<close>

definition TS_END :: int where
  "TS_END = 2 ^ 31 * SEC_NANOSECS"

lemma ts_ok_below: "ts_ok ts \<Longrightarrow> ts_val ts < TS_END"
  by (auto simp: ts_ok_def ts_val_def TS_END_def SEC_NANOSECS_def)

lemma ts_add_exact:
  assumes "ts_ok a" "ts_ok b" "0 \<le> tv_sec a" "0 \<le> tv_sec b"
  shows "if ts_val a + ts_val b < TS_END
    then \<exists>c. ts_add a b = Some c \<and> ts_ok c \<and> ts_val c = ts_val a + ts_val b
    else ts_add a b = None"
proof -
  have n: "0 \<le> tv_nsec a + tv_nsec b" "tv_nsec a + tv_nsec b < 2147483648"
    using assms(1,2) by (auto simp: ts_ok_def SEC_NANOSECS_def)
  show ?thesis
  proof (cases "tv_nsec a + tv_nsec b \<ge> SEC_NANOSECS")
    case True
    with assms n show ?thesis
      by (auto simp: ts_add_def ts_ok_def ts_val_def SEC_NANOSECS_def TS_END_def c_int_def algebra_simps)
  next
    case False
    with assms n show ?thesis
      by (auto simp: ts_add_def ts_ok_def ts_val_def SEC_NANOSECS_def TS_END_def c_int_def algebra_simps)
  qed
qed

lemma unat_sec: "unat (word_of_int SEC_NANOSECS :: u64) = 1000000000"
  by (simp add: SEC_NANOSECS_def)

lemma to_long_small: "uint w < 2 ^ 31 \<Longrightarrow> to_long w = uint w"
  using order_trans [OF _ uint_ge_0, of "- 2147483648" w]
  by (simp add: to_long_def sint_uint unsigned_ucast_eq take_bit_int_eq_self signed_take_bit_int_eq_self)

lemma nsec_to_ts_ok:
  assumes "uint ns < 2 ^ 31 * 1000000000"
  shows "ts_ok (nsec_to_ts ns)" "ts_val (nsec_to_ts ns) = uint ns"
proof -
  have d: "uint (ns div word_of_int SEC_NANOSECS) = uint ns div 1000000000"
    and m: "uint (ns mod word_of_int SEC_NANOSECS) = uint ns mod 1000000000"
    by (simp_all add: SEC_NANOSECS_def uint_div uint_mod)
  have dl: "uint ns div 1000000000 < 2 ^ 31" using assms by (simp add: div_less_iff_less_mult)
  have ml: "uint ns mod 1000000000 < 2 ^ 31" by (rule order_less_trans [of _ 1000000000]) auto
  have t: "nsec_to_ts ns = \<lparr> tv_sec = uint ns div 1000000000, tv_nsec = uint ns mod 1000000000 \<rparr>"
    using dl ml by (simp add: nsec_to_ts_def to_long_small d m)
  show "ts_ok (nsec_to_ts ns)" "ts_val (nsec_to_ts ns) = uint ns"
    using dl by (auto simp: t ts_ok_def ts_val_def SEC_NANOSECS_def pos_imp_zdiv_nonneg_iff intro: order_trans [of _ 0])
qed

lemma ts_to_nsec_val: "ts_to_nsec ts = word_of_int (ts_val ts)"
  by (simp add: ts_to_nsec_def ts_val_def)

lemma ts_roundtrip:
  assumes "ts_ok ts" "0 \<le> tv_sec ts"
  shows "nsec_to_ts (ts_to_nsec ts) = ts"
proof -
  let ?n = "tv_sec ts * 1000000000 + tv_nsec ts"
  have n: "0 \<le> ?n" "?n < 2 ^ 64" using assms by (auto simp: ts_ok_def SEC_NANOSECS_def)
  have w: "uint (ts_to_nsec ts) = ?n"
    unfolding ts_to_nsec_val ts_val_def SEC_NANOSECS_def uint_word_of_int_eq
    using n by (intro take_bit_int_eq_self) simp_all
  have dm: "?n div 1000000000 = tv_sec ts" "?n mod 1000000000 = tv_nsec ts"
    using assms by (auto simp: ts_ok_def SEC_NANOSECS_def div_pos_pos_trivial mod_pos_pos_trivial)
  have "uint (ts_to_nsec ts div word_of_int SEC_NANOSECS) = tv_sec ts"
    "uint (ts_to_nsec ts mod word_of_int SEC_NANOSECS) = tv_nsec ts"
    using dm by (simp_all add: uint_div uint_mod w SEC_NANOSECS_def)
  then show ?thesis
    using assms by (simp add: nsec_to_ts_def to_long_small ts_ok_def SEC_NANOSECS_def)
qed

lemma nsec_to_ts_sec:
  assumes "uint ns < TS_END"
  shows "0 \<le> tv_sec (nsec_to_ts ns)"
  using assms
  by (simp add: nsec_to_ts_def SEC_NANOSECS_def TS_END_def to_long_small uint_div div_less_iff_less_mult
      pos_imp_zdiv_nonneg_iff)

lemma ts_inc_exact:
  assumes "ts_ok ts" "0 \<le> tv_sec ts" "uint ns < TS_END"
  shows "if ts_val ts + uint ns < TS_END
    then \<exists>ts'. ts_inc ts ns = Some ts' \<and> ts_ok ts' \<and> ts_val ts' = ts_val ts + uint ns
    else ts_inc ts ns = None"
proof -
  have u: "uint ns < 2 ^ 31 * 1000000000" using assms(3) by (simp add: TS_END_def SEC_NANOSECS_def)
  from ts_add_exact [OF assms(1) nsec_to_ts_ok(1) [OF u] assms(2) nsec_to_ts_sec [OF assms(3)]]
  show ?thesis unfolding ts_inc_def nsec_to_ts_ok(2) [OF u] .
qed

text \<open>C23. Every timespec that passes \<^verbatim>\<open>copyin_ts\<close> is in normal form and survives the conversion to
  nanoseconds and back. \<^verbatim>\<open>ts_inc\<close> advances it by exactly the given nanoseconds, into normal form,
  if and only if the sum is below \<open>2 ^ 31\<close> seconds, the end of what a timespec holds; and for an
  increment below \<open>2 ^ 31\<close> seconds (a larger one does not fit the seconds of the temporary
  timespec) the addition of the seconds overflows in every other case. The seconds that were
  copied in are a \<^verbatim>\<open>long\<close>.\<close>

theorem timespec_normal_form:
  assumes "copyin_ts copied = Inr ts" and "tv_sec ts < 2 ^ 31"
  shows "ts_ok ts \<and> nsec_to_ts (ts_to_nsec ts) = ts \<and>
    ((\<exists>ts'. ts_inc ts ns = Some ts' \<and> ts_ok ts' \<and> ts_val ts' = ts_val ts + uint ns) \<longleftrightarrow>
       ts_val ts + uint ns < 2 ^ 31 * SEC_NANOSECS) \<and>
    (uint ns < 2 ^ 31 * SEC_NANOSECS \<longrightarrow>
       (ts_inc ts ns = None \<longleftrightarrow> 2 ^ 31 * SEC_NANOSECS \<le> ts_val ts + uint ns))"
proof -
  have ts: "ts_ok ts" "0 \<le> tv_sec ts"
    using assms by (auto simp: copyin_ts_def ts_ok_def split: sum.splits if_splits)
  then have pos: "0 \<le> ts_val ts" by (simp add: ts_val_def ts_ok_def SEC_NANOSECS_def)
  have iff: "(\<exists>ts'. ts_inc ts ns = Some ts' \<and> ts_ok ts' \<and> ts_val ts' = ts_val ts + uint ns) \<longleftrightarrow>
      ts_val ts + uint ns < TS_END"
  proof
    assume "ts_val ts + uint ns < TS_END"
    moreover from this pos have "uint ns < TS_END" by linarith
    ultimately show "\<exists>ts'. ts_inc ts ns = Some ts' \<and> ts_ok ts' \<and> ts_val ts' = ts_val ts + uint ns"
      using ts_inc_exact [OF ts, of ns] by simp
  qed (metis ts_ok_below)
  have "ts_inc ts ns = None \<longleftrightarrow> TS_END \<le> ts_val ts + uint ns" if "uint ns < TS_END"
    using ts_inc_exact [OF ts that] by (auto split: if_splits)
  with ts iff ts_roundtrip show ?thesis unfolding TS_END_def by blast
qed

theorem timespec_normal_form_witness:
  "(\<exists>ts'. ts_inc \<lparr> tv_sec = 1, tv_nsec = 999999999 \<rparr> 2000000002 = Some ts' \<and> ts_ok ts' \<and>
      ts_val ts' = 4000000001) \<and>
   ts_inc \<lparr> tv_sec = 2147483647, tv_nsec = 999999999 \<rparr> 1 = None"
  using timespec_normal_form [of "Inr \<lparr> tv_sec = 1, tv_nsec = 999999999 \<rparr>" "\<lparr> tv_sec = 1, tv_nsec = 999999999 \<rparr>" 2000000002]
    timespec_normal_form [of "Inr \<lparr> tv_sec = 2147483647, tv_nsec = 999999999 \<rparr>" "\<lparr> tv_sec = 2147483647, tv_nsec = 999999999 \<rparr>" 1]
  by (simp add: copyin_ts_def SEC_NANOSECS_def ts_val_def)

end
