(* ===== verification/Timekeep.thy ===== *)
theory Timekeep
  imports Time
begin

text \<open>
  The uptime clock of \<^verbatim>\<open>kern/timekeep.c\<close>. Two time windows (\<^verbatim>\<open>timehands\<close>) are updated in
  turn by the timer tick while any processor may read the time without a lock. The model
  keeps every store of the update: \<open>tick_stores\<close> is the list of memory states a tick goes
  through, and a reader takes each of its loads from a later one of the observed states
  \<open>obs 0, obs 1, \<dots>\<close>. The hardware counter is an input.
\<close>

subsection \<open>State\<close>

definition TC_GEN_UPDATE :: u32 where
  "TC_GEN_UPDATE = 0"

definition TC_GEN_INIT :: u32 where
  "TC_GEN_INIT = 1"

record timecounter =
  tc_freq :: u64
  tc_mask :: u64
  tc_quality :: int

record timehands =
  gen :: u32
  last_count :: u64
  nanotime :: u64
  tstime :: timespec

text \<open>\<^verbatim>\<open>th0\<close> and \<^verbatim>\<open>th1\<close>, of which each is the \<^verbatim>\<open>next\<close> of the other, and the pointer \<^verbatim>\<open>timehands\<close>.\<close>

record timekeep =
  hands :: "timehands list"
  cur_hand :: nat
  tc_list :: "timecounter list"
  tcounter :: "timecounter option"
  boottime :: timespec

definition timekeep_start :: timekeep where
  "timekeep_start = (let th = \<lparr> gen = TC_GEN_INIT, last_count = 0, nanotime = 0, tstime = \<lparr> tv_sec = 0, tv_nsec = 0 \<rparr> \<rparr> in
     \<lparr> hands = [th, th], cur_hand = 0, tc_list = [], tcounter = None, boottime = \<lparr> tv_sec = 0, tv_nsec = 0 \<rparr> \<rparr>)"

definition tc_register :: "timecounter \<Rightarrow> timekeep \<Rightarrow> timekeep" where
  "tc_register tc k = (let k = k\<lparr>tc_list := tc # tc_list k\<rparr> in
     case tcounter k of
       None \<Rightarrow> k\<lparr>tcounter := Some tc\<rparr>
     | Some c \<Rightarrow> if tc_quality tc > tc_quality c then k\<lparr>tcounter := Some tc\<rparr> else k)"

definition tc_unregister :: "timecounter \<Rightarrow> errno" where
  "tc_unregister tc = EBUSY"

definition init_timekeep :: "timespec \<Rightarrow> timekeep \<Rightarrow> timekeep panicking" where
  "init_timekeep rtc k = do {
     kassert (tcounter k \<noteq> None);
     Some (k\<lparr>boottime := rtc\<rparr>) }"

subsection \<open>The tick\<close>

definition timekeep_retry :: "u32 \<Rightarrow> timehands \<Rightarrow> bool" where
  "timekeep_retry g th \<longleftrightarrow> g = TC_GEN_UPDATE \<or> gen th \<noteq> g"

text \<open>The division by a zero frequency traps.\<close>

definition timekeep_delta :: "timecounter \<Rightarrow> u64 \<Rightarrow> u64 \<Rightarrow> u64 panicking" where
  "timekeep_delta tc count lc = do {
     kassert (tc_freq tc \<noteq> 0);
     Some ((((count - lc) AND tc_mask tc) * word_of_int SEC_NANOSECS) div tc_freq tc) }"

definition timekeep_ts_add :: "timespec \<Rightarrow> u64 \<Rightarrow> timespec panicking" where
  "timekeep_ts_add ts ns = (let n = to_long (word_of_int (tv_nsec ts) + ns) in
     if n \<ge> SEC_NANOSECS then do {
       s \<leftarrow> c_int (tv_sec ts + 1);
       kassert (n - SEC_NANOSECS < SEC_NANOSECS);
       Some \<lparr> tv_sec = s, tv_nsec = n - SEC_NANOSECS \<rparr> }
     else Some (ts\<lparr>tv_nsec := n\<rparr>))"

definition gen_next :: "u32 \<Rightarrow> u32" where
  "gen_next g = (if g + 1 = TC_GEN_UPDATE then TC_GEN_INIT else g + 1)"

definition set_hand :: "timekeep \<Rightarrow> nat \<Rightarrow> timehands \<Rightarrow> timekeep" where
  "set_hand k h th = k\<lparr>hands := (hands k)[h := th]\<rparr>"

definition tick_stores :: "timekeep \<Rightarrow> u64 \<Rightarrow> timekeep list panicking" where
  "tick_stores k count = do {
     tc \<leftarrow> tcounter k;
     let h = 1 - cur_hand k;
     th \<leftarrow> nth_opt (hands k) h;
     let g = gen th;
     let th1 = th\<lparr>gen := TC_GEN_UPDATE\<rparr>;
     ns \<leftarrow> timekeep_delta tc count (last_count th);
     let th2 = th1\<lparr>last_count := count\<rparr>;
     let th3 = th2\<lparr>nanotime := nanotime th + ns\<rparr>;
     ts \<leftarrow> timekeep_ts_add (tstime th) ns;
     let th4 = th3\<lparr>tstime := ts\<rparr>;
     let th5 = th4\<lparr>gen := gen_next g\<rparr>;
     Some [set_hand k h th1, set_hand k h th2, set_hand k h th3, set_hand k h th4, set_hand k h th5,
           (set_hand k h th5)\<lparr>cur_hand := h\<rparr>] }"

definition timekeep_tick :: "timekeep \<Rightarrow> u64 \<Rightarrow> (timekeep \<times> u64) panicking" where
  "timekeep_tick k count = do {
     ks \<leftarrow> tick_stores k count;
     let k' = last ks;
     th \<leftarrow> nth_opt (hands k') (cur_hand k');
     Some (k', nanotime th) }"

subsection \<open>The readers\<close>

partial_function (option) getnanouptime :: "(nat \<Rightarrow> timekeep) \<Rightarrow> nat \<Rightarrow> u64 option" where
  [code]: "getnanouptime obs i = do {
     let h = cur_hand (obs i);
     a \<leftarrow> nth_opt (hands (obs (i + 1))) h;
     b \<leftarrow> nth_opt (hands (obs (i + 2))) h;
     c \<leftarrow> nth_opt (hands (obs (i + 3))) h;
     if timekeep_retry (gen a) c then getnanouptime obs (i + 4) else Some (nanotime b) }"

partial_function (option) nanouptime :: "(nat \<Rightarrow> timekeep) \<Rightarrow> (nat \<Rightarrow> u64) \<Rightarrow> nat \<Rightarrow> u64 option" where
  [code]: "nanouptime obs count i = do {
     let h = cur_hand (obs i);
     a \<leftarrow> nth_opt (hands (obs (i + 1))) h;
     b \<leftarrow> nth_opt (hands (obs (i + 2))) h;
     tc \<leftarrow> tcounter (obs (i + 3));
     l \<leftarrow> nth_opt (hands (obs (i + 4))) h;
     d \<leftarrow> timekeep_delta tc (count (i + 3)) (last_count l);
     c \<leftarrow> nth_opt (hands (obs (i + 5))) h;
     if timekeep_retry (gen a) c then nanouptime obs count (i + 6) else Some (nanotime b + d) }"

partial_function (option) gettsuptime :: "(nat \<Rightarrow> timekeep) \<Rightarrow> nat \<Rightarrow> timespec option" where
  [code]: "gettsuptime obs i = do {
     let h = cur_hand (obs i);
     a \<leftarrow> nth_opt (hands (obs (i + 1))) h;
     b \<leftarrow> nth_opt (hands (obs (i + 2))) h;
     b' \<leftarrow> nth_opt (hands (obs (i + 3))) h;
     c \<leftarrow> nth_opt (hands (obs (i + 4))) h;
     if timekeep_retry (gen a) c then gettsuptime obs (i + 5)
     else Some \<lparr> tv_sec = tv_sec (tstime b), tv_nsec = tv_nsec (tstime b') \<rparr> }"

partial_function (option) tsuptime :: "(nat \<Rightarrow> timekeep) \<Rightarrow> (nat \<Rightarrow> u64) \<Rightarrow> nat \<Rightarrow> timespec option" where
  [code]: "tsuptime obs count i = do {
     let h = cur_hand (obs i);
     a \<leftarrow> nth_opt (hands (obs (i + 1))) h;
     b \<leftarrow> nth_opt (hands (obs (i + 2))) h;
     b' \<leftarrow> nth_opt (hands (obs (i + 3))) h;
     tc \<leftarrow> tcounter (obs (i + 4));
     l \<leftarrow> nth_opt (hands (obs (i + 5))) h;
     d \<leftarrow> timekeep_delta tc (count (i + 4)) (last_count l);
     ts \<leftarrow> timekeep_ts_add \<lparr> tv_sec = tv_sec (tstime b), tv_nsec = tv_nsec (tstime b') \<rparr> d;
     c \<leftarrow> nth_opt (hands (obs (i + 6))) h;
     if timekeep_retry (gen a) c then tsuptime obs count (i + 7) else Some ts }"

definition gettsboottime :: "(nat \<Rightarrow> timekeep) \<Rightarrow> nat \<Rightarrow> timespec panicking" where
  "gettsboottime obs i = do {
     tmp \<leftarrow> gettsuptime obs i;
     ts_add (boottime (obs i)) tmp }"

text \<open>\<open>i\<close> and \<open>j\<close> are the instants of the two reads.\<close>

definition realtime :: "(nat \<Rightarrow> timekeep) \<Rightarrow> nat \<Rightarrow> nat \<Rightarrow> timespec panicking" where
  "realtime obs i j = do {
     boot \<leftarrow> gettsboottime obs i;
     up \<leftarrow> gettsuptime obs j;
     ts_add up boot }"

text \<open>The system calls; \<open>copyout\<close> stores the result in user memory and returns its error.\<close>

definition sys_clock_gettime :: "int \<Rightarrow> (timespec \<Rightarrow> errno option) \<Rightarrow> (nat \<Rightarrow> timekeep) \<Rightarrow> nat \<Rightarrow> nat \<Rightarrow> errno option panicking" where
  "sys_clock_gettime clk copyout obs i j = (if clk = 0 then do {
       ts \<leftarrow> realtime obs i j;
       Some (copyout ts) }
     else Some (Some ENOTSUP))"

definition sys_clock_getres :: "int \<Rightarrow> bool \<Rightarrow> errno option" where
  "sys_clock_getres clk ts_null = (if ts_null then None else Some ENOTSUP)"

text \<open>The busy wait: \<open>count i\<close> is the \<open>i\<close>-th read of the counter. The remaining count is signed.\<close>

partial_function (option) ndelay_loop :: "timecounter \<Rightarrow> (nat \<Rightarrow> u64) \<Rightarrow> nat \<Rightarrow> u64 \<Rightarrow> u64 \<Rightarrow> nat option" where
  [code]: "ndelay_loop tc count i prev left =
     (if 0 < sint left
      then ndelay_loop tc count (i + 1) (count i) (left - ((count i - prev) AND tc_mask tc))
      else Some i)"

definition ndelay :: "timecounter \<Rightarrow> (nat \<Rightarrow> u64) \<Rightarrow> u64 \<Rightarrow> nat option" where
  "ndelay tc count ns = ndelay_loop tc count 1 (count 0)
     ((ns * tc_freq tc + (word_of_int SEC_NANOSECS - 1)) div word_of_int SEC_NANOSECS)"

subsection \<open>Readers against concurrent ticks\<close>

text \<open>All memory states while the ticks with the counter values \<open>cs\<close> run.\<close>

fun tk_run :: "timekeep \<Rightarrow> u64 list \<Rightarrow> timekeep list panicking" where
  "tk_run k [] = Some [k]"
| "tk_run k (c # cs) = do {
     ks \<leftarrow> tick_stores k c;
     rest \<leftarrow> tk_run (last ks) cs;
     Some (k # butlast ks @ rest) }"

text \<open>The \<open>n\<close>-th generation number, and the stage \<open>m\<close> of a time window: \<open>2 n\<close> while it holds its
  \<open>n\<close>-th value, \<open>2 n + 1\<close> while the next value is written.\<close>

definition gen_seq :: "nat \<Rightarrow> u32" where
  "gen_seq n = 1 + of_nat (n mod 4294967295)"

definition stage_ok :: "nat \<Rightarrow> timehands \<Rightarrow> bool" where
  "stage_ok m th \<longleftrightarrow> gen th = (if even m then gen_seq (m div 2) else TC_GEN_UPDATE)"

definition stage_step :: "nat \<times> timehands \<Rightarrow> nat \<times> timehands \<Rightarrow> bool" where
  "stage_step a b \<longleftrightarrow> fst a \<le> fst b \<and> (fst a = fst b \<and> even (fst a) \<longrightarrow> snd a = snd b)"

lemma unat_gen_seq: "unat (gen_seq n) = Suc (n mod 4294967295)"
proof -
  have "n mod 4294967295 < 4294967295" by simp
  then have "Suc (n mod 4294967295) < 2 ^ 32" by simp
  then have "unat (of_nat (Suc (n mod 4294967295)) :: u32) = Suc (n mod 4294967295)"
    by (simp add: unsigned_of_nat take_bit_nat_eq_self del: of_nat_Suc)
  then show ?thesis by (simp add: gen_seq_def)
qed

lemma gen_seq_nonzero: "gen_seq n \<noteq> TC_GEN_UPDATE"
  using unat_gen_seq [of n] by (auto simp: TC_GEN_UPDATE_def)

lemma gen_next_seq: "gen_next (gen_seq n) = gen_seq (Suc n)"
proof (cases "n mod 4294967295 = 4294967294")
  case True
  then have "Suc n mod 4294967295 = 0" by (simp add: mod_Suc)
  with True show ?thesis by (simp add: gen_next_def gen_seq_def TC_GEN_UPDATE_def TC_GEN_INIT_def)
next
  case False
  then have s: "Suc n mod 4294967295 = Suc (n mod 4294967295)" by (simp add: mod_Suc)
  have "gen_seq n + 1 = gen_seq (Suc n)" by (simp add: gen_seq_def s)
  then show ?thesis using gen_seq_nonzero [of "Suc n"] by (simp add: gen_next_def)
qed

lemma gen_seq_inj: "gen_seq m = gen_seq n \<Longrightarrow> m \<le> n \<Longrightarrow> n < m + 4294967295 \<Longrightarrow> m = n"
proof -
  assume a: "gen_seq m = gen_seq n" "m \<le> n" "n < m + 4294967295"
  then have "n mod 4294967295 = m mod 4294967295" using unat_gen_seq [of m] unat_gen_seq [of n] by simp
  then have "4294967295 dvd n - m" using a(2) by (simp add: mod_eq_dvd_iff_nat)
  then show ?thesis using a(2,3) by (auto dest!: dvd_imp_le)
qed

lemma gen_seq_ex: "g \<noteq> TC_GEN_UPDATE \<Longrightarrow> \<exists>n. g = gen_seq n"
proof
  assume "g \<noteq> TC_GEN_UPDATE"
  then have g: "0 < unat g" by (simp add: TC_GEN_UPDATE_def unat_gt_0)
  have "unat g < 2 ^ 32" using unsigned_less [of g] by simp
  then have "unat (gen_seq (unat g - 1)) = unat g" using g by (simp add: unat_gen_seq)
  then show "g = gen_seq (unat g - 1)" by (metis word_unat_eq_iff)
qed

lemma tick_stores_hands:
  assumes "tick_stores k c = Some ks" "length (hands k) = 2" "h < 2" "gen (hands k ! h) = gen_seq n"
  obtains a b c d e f where "ks = [a, b, c, d, e, f]" "list_all (\<lambda>x. length (hands x) = 2) [a, b, c, d, e, f]"
    "list_all (\<lambda>x. hands x ! h = hands k ! h) [a, b, c, d, e, f] \<or>
     list_all (\<lambda>x. gen (hands x ! h) = TC_GEN_UPDATE) [a, b, c, d] \<and>
     gen (hands e ! h) = gen_seq (Suc n) \<and> hands f ! h = hands e ! h"
proof -
  let ?w = "1 - cur_hand k"
  have w: "?w < 2" by simp
  obtain tc ns ts where tc: "tcounter k = Some tc" "timekeep_delta tc c (last_count (hands k ! ?w)) = Some ns"
    "timekeep_ts_add (tstime (hands k ! ?w)) ns = Some ts"
    using assms(1,2) w by (auto simp: tick_stores_def Let_def bind_eq_Some_conv)
  let ?t = "hands k ! ?w"
  let ?t1 = "?t\<lparr>gen := TC_GEN_UPDATE\<rparr>"
  let ?t2 = "?t1\<lparr>last_count := c\<rparr>"
  let ?t3 = "?t2\<lparr>nanotime := nanotime ?t + ns\<rparr>"
  let ?t4 = "?t3\<lparr>tstime := ts\<rparr>"
  let ?t5 = "?t4\<lparr>gen := gen_next (gen ?t)\<rparr>"
  have ks: "ks = [set_hand k ?w ?t1, set_hand k ?w ?t2, set_hand k ?w ?t3, set_hand k ?w ?t4, set_hand k ?w ?t5,
      (set_hand k ?w ?t5)\<lparr>cur_hand := ?w\<rparr>]"
    using assms(1,2) w tc by (simp add: tick_stores_def Let_def)
  show ?thesis
    by (rule that [OF ks]; cases "?w = h")
      (use assms w in \<open>simp_all add: set_hand_def gen_next_seq\<close>)
qed

lemma run_stages:
  assumes "tk_run k cs = Some L" "length (hands k) = 2" "h < 2" "gen (hands k ! h) = gen_seq n"
  shows "\<exists>M. length M = length L \<and> M \<noteq> [] \<and> hd L = k \<and> hd M = 2 * n \<and> last M \<le> 2 * (n + length cs) \<and>
    list_all2 (\<lambda>m x. length (hands x) = 2 \<and> stage_ok m (hands x ! h)) M L \<and>
    successively stage_step (zip M (map (\<lambda>x. hands x ! h) L))"
  using assms
proof (induction k cs arbitrary: L n rule: tk_run.induct)
  case (1 k)
  then show ?case by (intro exI [of _ "[2 * n]"]) (auto simp: stage_ok_def)
next
  case (2 k cnt cs)
  obtain ks rest where r: "tick_stores k cnt = Some ks" "tk_run (last ks) cs = Some rest" "L = k # butlast ks @ rest"
    using 2(2) by (auto simp: bind_eq_Some_conv)
  obtain a b c d e f where ks: "ks = [a, b, c, d, e, f]" and len: "list_all (\<lambda>x. length (hands x) = 2) [a, b, c, d, e, f]"
    and alt: "list_all (\<lambda>x. hands x ! h = hands k ! h) [a, b, c, d, e, f] \<or>
      list_all (\<lambda>x. gen (hands x ! h) = TC_GEN_UPDATE) [a, b, c, d] \<and>
      gen (hands e ! h) = gen_seq (Suc n) \<and> hands f ! h = hands e ! h"
    by (rule tick_stores_hands [OF r(1) 2(3-5)])
  have L: "L = k # a # b # c # d # e # rest" using r(3) ks by simp
  have run: "tk_run f cs = Some rest" using r(2) ks by simp
  note IH = 2(1) [OF r(1), unfolded ks last.simps, simplified, OF run]
  show ?case
  proof (cases "list_all (\<lambda>x. hands x ! h = hands k ! h) [a, b, c, d, e, f]")
    case True
    then have "gen (hands f ! h) = gen_seq n" using 2(5) by simp
    from IH [OF _ 2(4) this] len obtain M where M: "length M = length rest" "M \<noteq> []" "hd rest = f" "hd M = 2 * n"
      "last M \<le> 2 * (n + length cs)" "list_all2 (\<lambda>m x. length (hands x) = 2 \<and> stage_ok m (hands x ! h)) M rest"
      "successively stage_step (zip M (map (\<lambda>x. hands x ! h) rest))" by auto
    have ne: "rest \<noteq> []" using M(1,2) by auto
    then have "hd (zip M (map (\<lambda>x. hands x ! h) rest)) = (2 * n, hands f ! h)" "zip M (map (\<lambda>x. hands x ! h) rest) \<noteq> []"
      using M(2-4) by (auto simp: hd_zip hd_map zip_eq_Nil_iff)
    then show ?thesis
      using M ne True len 2(3,5) L
      by (intro exI [of _ "[2 * n, 2 * n, 2 * n, 2 * n, 2 * n, 2 * n] @ M"])
        (auto simp: stage_ok_def stage_step_def successively_Cons)
  next
    case False
    then have g: "list_all (\<lambda>x. gen (hands x ! h) = TC_GEN_UPDATE) [a, b, c, d]" "gen (hands e ! h) = gen_seq (Suc n)"
      "hands f ! h = hands e ! h" using alt by auto
    then have "gen (hands f ! h) = gen_seq (Suc n)" by simp
    from IH [OF _ 2(4) this] len obtain M where M: "length M = length rest" "M \<noteq> []" "hd rest = f" "hd M = 2 * Suc n"
      "last M \<le> 2 * (Suc n + length cs)" "list_all2 (\<lambda>m x. length (hands x) = 2 \<and> stage_ok m (hands x ! h)) M rest"
      "successively stage_step (zip M (map (\<lambda>x. hands x ! h) rest))" by auto
    have ne: "rest \<noteq> []" using M(1,2) by auto
    then have "hd (zip M (map (\<lambda>x. hands x ! h) rest)) = (2 * Suc n, hands f ! h)" "zip M (map (\<lambda>x. hands x ! h) rest) \<noteq> []"
      using M(2-4) by (auto simp: hd_zip hd_map zip_eq_Nil_iff)
    then show ?thesis
      using M ne g len 2(3,5) L
      by (intro exI [of _ "[2 * n, Suc (2 * n), Suc (2 * n), Suc (2 * n), Suc (2 * n), 2 * Suc n] @ M"])
        (auto simp: stage_ok_def stage_step_def successively_Cons)
  qed
qed

lemma successively_nth: "successively P xs \<Longrightarrow> Suc i < length xs \<Longrightarrow> P (xs ! i) (xs ! Suc i)"
  by (induction P xs arbitrary: i rule: successively.induct) (auto simp: nth_Cons split: nat.splits)

lemma successively_sorted: "successively stage_step (zip M X) \<Longrightarrow> length M = length X \<Longrightarrow> sorted M"
  using successively_nth [of stage_step "zip M X"] by (auto simp: sorted_iff_nth_Suc stage_step_def)

lemma window_stable:
  assumes run: "tk_run k cs = Some L" and k: "length (hands k) = 2" "h < 2" "gen (hands k ! h) \<noteq> TC_GEN_UPDATE"
    and few: "length cs < 4294967295" and pq: "p \<le> q" "q < length L"
    and g: "gen (hands (L ! p) ! h) \<noteq> TC_GEN_UPDATE" "gen (hands (L ! q) ! h) = gen (hands (L ! p) ! h)"
    and r: "p \<le> r" "r \<le> q"
  shows "hands (L ! r) ! h = hands (L ! p) ! h"
proof -
  let ?X = "map (\<lambda>x. hands x ! h) L"
  obtain n where n: "gen (hands k ! h) = gen_seq n" using gen_seq_ex [OF k(3)] by blast
  from run_stages [OF run k(1,2) n] obtain M where M: "length M = length L" "M \<noteq> []" "hd M = 2 * n"
    "last M \<le> 2 * (n + length cs)" "list_all2 (\<lambda>m x. length (hands x) = 2 \<and> stage_ok m (hands x ! h)) M L"
    "successively stage_step (zip M ?X)" by blast
  have so: "sorted M" by (rule successively_sorted [OF M(6)]) (simp add: M(1))
  have ok: "stage_ok (M ! i) (hands (L ! i) ! h)" if "i < length L" for i
    using list_all2_nthD2 [OF M(5) that] by simp
  have le: "M ! i \<le> M ! j" if "i \<le> j" "j < length L" for i j using sorted_nth_mono [OF so] that M(1) by simp
  have lo: "2 * n \<le> M ! p" using le [of 0 p] M(2,3) pq by (simp add: hd_conv_nth)
  have hi: "M ! q \<le> 2 * (n + length cs)" using le [of q "length L - 1"] M(1,2,4) pq by (fastforce simp: last_conv_nth)
  have ev: "even (M ! p)" "even (M ! q)" using ok [of p] ok [of q] g pq by (auto simp: stage_ok_def split: if_splits)
  have "gen_seq (M ! p div 2) = gen_seq (M ! q div 2)" using ok [of p] ok [of q] g pq ev by (simp add: stage_ok_def)
  then have "M ! p div 2 = M ! q div 2" using le [OF pq] lo hi few by (intro gen_seq_inj) auto
  then have eq: "M ! p = M ! q" using ev by (metis even_two_times_div_two)
  show ?thesis
    using r
  proof (induction r rule: dec_induct)
    case (step i)
    have i: "Suc i < length L" using step pq by simp
    have "M ! i = M ! p" "M ! Suc i = M ! p" using le [of p i] le [of i q] le [of p "Suc i"] le [of "Suc i" q] step pq eq by auto
    moreover have "stage_step (zip M ?X ! i) (zip M ?X ! Suc i)"
      by (rule successively_nth [OF M(6)]) (use i M(1) in simp)
    ultimately have "hands (L ! i) ! h = hands (L ! Suc i) ! h" using ev(1) i M(1) by (simp add: stage_step_def)
    then show ?case using step by simp
  qed simp
qed

lemma run_frame:
  assumes "tk_run k cs = Some L" "length (hands k) = 2" "x \<in> set L"
  shows "tcounter x = tcounter k \<and> length (hands x) = 2"
  using assms
proof (induction k cs arbitrary: L rule: tk_run.induct)
  case (2 k c cs)
  obtain ks rest where r: "tick_stores k c = Some ks" "tk_run (last ks) cs = Some rest" "L = k # butlast ks @ rest"
    using 2(2) by (auto simp: bind_eq_Some_conv)
  have f: "\<forall>y \<in> set ks. tcounter y = tcounter k \<and> length (hands y) = 2" "ks \<noteq> []"
    using r(1) 2(3) by (auto simp: tick_stores_def Let_def bind_eq_Some_conv set_hand_def)
  then have l: "tcounter (last ks) = tcounter k" "length (hands (last ks)) = 2" by simp_all
  show ?case using 2(1) [OF r(1,2) l(2)] 2(3,4) r(3) f l by (auto dest: in_set_butlastD)
qed simp

lemma nanouptime_step:
  assumes "nanouptime obs count i = Some v"
  obtains h a b tc l d c where "h = cur_hand (obs i)"
    "nth_opt (hands (obs (i + 1))) h = Some a" "nth_opt (hands (obs (i + 2))) h = Some b"
    "tcounter (obs (i + 3)) = Some tc" "nth_opt (hands (obs (i + 4))) h = Some l"
    "timekeep_delta tc (count (i + 3)) (last_count l) = Some d" "nth_opt (hands (obs (i + 5))) h = Some c"
    "if timekeep_retry (gen a) c then nanouptime obs count (i + 6) = Some v else v = nanotime b + d"
  using assms by (subst (asm) nanouptime.simps) (auto simp: Let_def bind_eq_Some_conv split: if_splits)

lemma nanouptime_settles:
  assumes const: "\<And>j. N \<le> j \<Longrightarrow> obs j = x" and x: "cur_hand x < length (hands x)" "gen (hands x ! cur_hand x) \<noteq> TC_GEN_UPDATE"
    and tc: "tcounter x = Some tc" "tc_freq tc \<noteq> 0" and i: "N \<le> i"
  shows "\<exists>v. nanouptime obs count i = Some v"
  using x tc i by (subst nanouptime.simps) (simp add: const Let_def timekeep_retry_def timekeep_delta_def)

lemma nanouptime_returns:
  assumes const: "\<And>j. N \<le> j \<Longrightarrow> obs j = x" and x: "cur_hand x < length (hands x)" "gen (hands x ! cur_hand x) \<noteq> TC_GEN_UPDATE"
    and tc: "tc_freq tc \<noteq> 0" and all: "\<And>j. tcounter (obs j) = Some tc \<and> length (hands (obs j)) = 2 \<and> cur_hand (obs j) < 2"
  shows "\<exists>v. nanouptime obs count i = Some v"
proof (induction "N - i" arbitrary: i rule: less_induct)
  case less
  show ?case
  proof (cases "N \<le> i")
    case True
    have "tcounter x = Some tc" using all [of N] const [of N] by simp
    then show ?thesis
      by (intro nanouptime_settles [where N = N and obs = obs and x = x and tc = tc]) (use const x tc True in auto)
  next
    case False
    then have "N - (i + 6) < N - i" by linarith
    from less [OF this] obtain v where "nanouptime obs count (i + 6) = Some v" by blast
    then show ?thesis using all tc by (subst nanouptime.simps) (simp add: Let_def timekeep_delta_def)
  qed
qed

lemma run_hand:
  assumes "tk_run k cs = Some L" "cur_hand k < 2" "x \<in> set L"
  shows "cur_hand x < 2"
  using assms
proof (induction k cs arbitrary: L rule: tk_run.induct)
  case (2 k c cs)
  obtain ks rest where r: "tick_stores k c = Some ks" "tk_run (last ks) cs = Some rest" "L = k # butlast ks @ rest"
    using 2(2) by (auto simp: bind_eq_Some_conv)
  have f: "\<forall>y \<in> set ks. cur_hand y < 2" "ks \<noteq> []"
    using r(1) 2(3) by (auto simp: tick_stores_def Let_def bind_eq_Some_conv set_hand_def)
  then have l: "cur_hand (last ks) < 2" by simp
  show ?case using 2(1) [OF r(1,2) l] 2(3,4) r(3) f by (auto dest: in_set_butlastD)
qed simp

text \<open>A reader of the states of a run: its \<open>j\<close>-th load sees the state number \<open>pos j\<close>.\<close>

definition reads_run :: "timekeep \<Rightarrow> u64 list \<Rightarrow> timekeep list \<Rightarrow> (nat \<Rightarrow> nat) \<Rightarrow> bool" where
  "reads_run k cs L pos \<longleftrightarrow> tk_run k cs = Some L \<and> length (hands k) = 2 \<and> cur_hand k < 2 \<and>
     (\<forall>h < 2. gen (hands k ! h) \<noteq> TC_GEN_UPDATE) \<and> length cs < 4294967295 \<and> mono pos \<and> (\<forall>j. pos j < length L)"

definition snapshot :: "timekeep \<Rightarrow> (nat \<Rightarrow> timekeep) \<Rightarrow> (nat \<Rightarrow> u64) \<Rightarrow> nat \<Rightarrow> u64 \<Rightarrow> bool" where
  "snapshot k obs count i v \<longleftrightarrow> (\<exists>j h d tc. i < j \<and> h < 2 \<and> tcounter k = Some tc \<and>
     gen (hands (obs j) ! h) \<noteq> TC_GEN_UPDATE \<and>
     timekeep_delta tc (count (j + 2)) (last_count (hands (obs j) ! h)) = Some d \<and>
     v = nanotime (hands (obs j) ! h) + d)"

lemma snapshot_later: "snapshot k obs count (i + n) v \<Longrightarrow> snapshot k obs count i v"
  unfolding snapshot_def by (elim exE conjE, drule add_lessD1) blast

lemma accepted_snapshot:
  assumes rr: "reads_run k cs L pos" and obs: "obs = (\<lambda>j. L ! pos j)"
    and r: "nth_opt (hands (obs (i + 1))) h = Some a" "nth_opt (hands (obs (i + 2))) h = Some b"
      "tcounter (obs (i + 3)) = Some tc" "nth_opt (hands (obs (i + 4))) h = Some l"
      "timekeep_delta tc (count (i + 3)) (last_count l) = Some d" "nth_opt (hands (obs (i + 5))) h = Some c"
      "\<not> timekeep_retry (gen a) c"
  shows "snapshot k obs count i (nanotime b + d)"
proof -
  have run: "tk_run k cs = Some L" "length (hands k) = 2" and few: "length cs < 4294967295"
    and pos: "mono pos" "pos j < length L" for j using rr by (auto simp: reads_run_def)
  have fr: "tcounter (obs j) = tcounter k" "length (hands (obs j)) = 2" for j
    using run_frame [OF run nth_mem [OF pos(2)]] by (simp_all add: obs)
  have h: "h < 2" using r(1) fr(2) by (simp add: nth_opt_eq_Some)
  have k: "gen (hands k ! h) \<noteq> TC_GEN_UPDATE" using rr h by (simp add: reads_run_def)
  let ?x = "hands (obs (i + 1)) ! h"
  have val: "a = ?x" "b = hands (obs (i + 2)) ! h" "l = hands (obs (i + 4)) ! h" "c = hands (obs (i + 5)) ! h"
    using r by (simp_all add: nth_opt_eq_Some)
  have g: "gen ?x \<noteq> TC_GEN_UPDATE" "gen (hands (obs (i + 5)) ! h) = gen ?x"
    using r(7) val by (simp_all add: timekeep_retry_def)
  have st: "hands (obs (i + n)) ! h = ?x" if "1 \<le> n" "n \<le> 5" for n
    unfolding obs using that
    by (intro window_stable [OF run(1,2) h k few _ pos(2) g [unfolded obs]] monoD [OF pos(1)]) auto
  have "b = ?x" "l = ?x" using st [of 2] st [of 4] val by simp_all
  then show ?thesis
    using h g r(3,5) fr(1) unfolding snapshot_def by (intro exI [of _ "i + 1"] exI [of _ h] exI [of _ d] exI [of _ tc]) (simp add: eval_nat_numeral)
qed

lemma nanouptime_snapshot:
  assumes rr: "reads_run k cs L pos" and v: "nanouptime (\<lambda>j. L ! pos j) count i = Some v"
  shows "snapshot k (\<lambda>j. L ! pos j) count i v"
proof -
  have "obs = (\<lambda>j. L ! pos j) \<longrightarrow> snapshot k obs count i v" if "nanouptime obs count i = Some v" for obs
  proof (rule nanouptime.raw_induct [OF _ that])
    fix f :: "(nat \<Rightarrow> timekeep) \<Rightarrow> (nat \<Rightarrow> u64) \<Rightarrow> nat \<Rightarrow> u64 option" and obs count i v
    assume IH: "\<And>obs count i v. f obs count i = Some v \<Longrightarrow> obs = (\<lambda>j. L ! pos j) \<longrightarrow> snapshot k obs count i v"
      and run: "do {
         let h = cur_hand (obs i);
         a \<leftarrow> nth_opt (hands (obs (i + 1))) h;
         b \<leftarrow> nth_opt (hands (obs (i + 2))) h;
         tc \<leftarrow> tcounter (obs (i + 3));
         l \<leftarrow> nth_opt (hands (obs (i + 4))) h;
         d \<leftarrow> timekeep_delta tc (count (i + 3)) (last_count l);
         c \<leftarrow> nth_opt (hands (obs (i + 5))) h;
         if timekeep_retry (gen a) c then f obs count (i + 6) else Some (nanotime b + d) } = Some v"
    from run obtain h a b tc l d c where r: "nth_opt (hands (obs (i + 1))) h = Some a" "nth_opt (hands (obs (i + 2))) h = Some b"
      "tcounter (obs (i + 3)) = Some tc" "nth_opt (hands (obs (i + 4))) h = Some l"
      "timekeep_delta tc (count (i + 3)) (last_count l) = Some d" "nth_opt (hands (obs (i + 5))) h = Some c"
      "(if timekeep_retry (gen a) c then f obs count (i + 6) else Some (nanotime b + d)) = Some v"
      unfolding Let_def bind_eq_Some_conv by blast
    show "obs = (\<lambda>j. L ! pos j) \<longrightarrow> snapshot k obs count i v"
    proof (cases "timekeep_retry (gen a) c")
      case True
      with r(7) have "f obs count (i + 6) = Some v" by simp
      from IH [OF this] show ?thesis using snapshot_later by blast
    next
      case False
      with r(7) show ?thesis using accepted_snapshot [of k cs L pos obs i h a b tc l count d c, OF rr _ r(1-6) False] by simp
    qed
  qed
  from this [OF v] show ?thesis by simp
qed

subsection \<open>Properties\<close>

text \<open>C24. \<^verbatim>\<open>nanouptime\<close> reads without a lock and yet never mixes two time windows: while fewer than
  \<open>2^32 - 1\<close> ticks happen, each at any point between its loads, what it returns is computed
  from the time and the counter value of one window at one instant, a window that is not
  being updated. It returns as soon as the ticks leave it alone.\<close>

theorem nanouptime_consistent:
  assumes "reads_run k cs L pos" and "tcounter k = Some tc" "tc_freq tc \<noteq> 0"
  shows "(\<forall>v. nanouptime (\<lambda>j. L ! pos j) count i = Some v \<longrightarrow>
      (\<exists>j h d. i < j \<and> h < 2 \<and> gen (hands (L ! pos j) ! h) \<noteq> TC_GEN_UPDATE \<and>
        timekeep_delta tc (count (j + 2)) (last_count (hands (L ! pos j) ! h)) = Some d \<and>
        v = nanotime (hands (L ! pos j) ! h) + d)) \<and>
    ((\<exists>N. \<forall>j \<ge> N. L ! pos j = x) \<and> gen (hands x ! cur_hand x) \<noteq> TC_GEN_UPDATE \<longrightarrow>
      (\<exists>v. nanouptime (\<lambda>j. L ! pos j) count i = Some v))"
proof (intro conjI allI impI)
  fix v assume "nanouptime (\<lambda>j. L ! pos j) count i = Some v"
  from nanouptime_snapshot [OF assms(1) this] assms(2)
  show "\<exists>j h d. i < j \<and> h < 2 \<and> gen (hands (L ! pos j) ! h) \<noteq> TC_GEN_UPDATE \<and>
      timekeep_delta tc (count (j + 2)) (last_count (hands (L ! pos j) ! h)) = Some d \<and>
      v = nanotime (hands (L ! pos j) ! h) + d" by (auto simp: snapshot_def)
next
  assume s: "(\<exists>N. \<forall>j \<ge> N. L ! pos j = x) \<and> gen (hands x ! cur_hand x) \<noteq> TC_GEN_UPDATE"
  then obtain N where N: "\<And>j. N \<le> j \<Longrightarrow> L ! pos j = x" by blast
  have rr: "tk_run k cs = Some L" "length (hands k) = 2" "cur_hand k < 2" "pos j < length L" for j
    using assms(1) by (auto simp: reads_run_def)
  have all: "tcounter (L ! pos j) = Some tc \<and> length (hands (L ! pos j)) = 2 \<and> cur_hand (L ! pos j) < 2" for j
    using run_frame [OF rr(1,2) nth_mem [OF rr(4)]] run_hand [OF rr(1,3) nth_mem [OF rr(4)]] assms(2) by simp
  have "cur_hand x < length (hands x)" using all [of N] N [of N] by simp
  then show "\<exists>v. nanouptime (\<lambda>j. L ! pos j) count i = Some v"
    by (intro nanouptime_returns [where N = N and x = x and tc = tc]) (use N s assms(3) all in auto)
qed

definition some_counter :: timecounter where
  "some_counter = \<lparr> tc_freq = 1000, tc_mask = 65535, tc_quality = 0 \<rparr>"

definition some_clock :: timekeep where
  "some_clock = timekeep_start\<lparr>tcounter := Some some_counter\<rparr>"

theorem nanouptime_consistent_witness:
  "\<exists>L v. tk_run some_clock [5] = Some L \<and> length L = 7 \<and> nanouptime (\<lambda>j. L ! min j 6) (\<lambda>_. 9) 0 = Some v"
proof -
  obtain L where L: "tk_run some_clock [5] = Some L" "length L = 7"
    by (simp add: some_clock_def some_counter_def timekeep_start_def tick_stores_def timekeep_delta_def timekeep_ts_add_def
        SEC_NANOSECS_def to_long_def set_hand_def gen_next_def TC_GEN_INIT_def TC_GEN_UPDATE_def Let_def)
  have rr: "reads_run some_clock [5] L (\<lambda>j. min j 6)"
    unfolding reads_run_def using L
    by (auto simp: some_clock_def timekeep_start_def TC_GEN_INIT_def TC_GEN_UPDATE_def mono_def less_2_cases_iff Let_def)
  have g: "gen (hands (L ! 6) ! cur_hand (L ! 6)) \<noteq> TC_GEN_UPDATE"
    using L(1) by (auto simp: some_clock_def some_counter_def timekeep_start_def tick_stores_def timekeep_delta_def
        timekeep_ts_add_def SEC_NANOSECS_def to_long_def set_hand_def gen_next_def TC_GEN_INIT_def TC_GEN_UPDATE_def Let_def)
  have "\<exists>N. \<forall>j \<ge> N. L ! min j 6 = L ! 6" by (intro exI [of _ 6]) auto
  with nanouptime_consistent [OF rr, of some_counter "\<lambda>_. 9" 0 "L ! 6"] g L show ?thesis
    by (auto simp: some_clock_def some_counter_def)
qed

lemma gettsuptime_quiet:
  assumes "cur_hand k < length (hands k)" "gen (hands k ! cur_hand k) \<noteq> TC_GEN_UPDATE"
  shows "gettsuptime (\<lambda>_. k) i = Some (tstime (hands k ! cur_hand k))"
  using assms by (subst gettsuptime.simps) (simp add: Let_def timekeep_retry_def)

text \<open>C25. \<^verbatim>\<open>realtime\<close>, the value of \<^verbatim>\<open>clock_gettime(CLOCK_REALTIME)\<close>, counts the uptime twice:
  \<^verbatim>\<open>gettsboottime\<close> adds the uptime to the time of the boot and \<^verbatim>\<open>realtime\<close> adds it again.\<close>

theorem realtime_counts_uptime_twice:
  assumes "cur_hand k < length (hands k)" "gen (hands k ! cur_hand k) \<noteq> TC_GEN_UPDATE"
    and "ts_ok (boottime k)" "ts_ok up" and "up = tstime (hands k ! cur_hand k)"
    and "0 \<le> tv_sec (boottime k)" "0 \<le> tv_sec up" "tv_sec (boottime k) + 2 * tv_sec up + 2 < 2 ^ 31"
  shows "\<exists>now. realtime (\<lambda>_. k) i j = Some now \<and> ts_val now = ts_val (boottime k) + 2 * ts_val up"
proof -
  note q = gettsuptime_quiet [OF assms(1,2), folded assms(5)]
  obtain b where b: "ts_add (boottime k) up = Some b" "ts_ok b" "ts_val b = ts_val (boottime k) + ts_val up"
    using assms by - (rule ts_add_ok [OF assms(3,4)], auto)
  have sb: "tv_sec b \<le> tv_sec (boottime k) + tv_sec up + 1" "0 \<le> tv_sec b"
    using b(1) assms(6,7) by (auto simp: ts_add_def bind_eq_Some_conv c_int_def split: if_splits)
  obtain c where "ts_add up b = Some c" "ts_val c = ts_val up + ts_val b"
    using assms sb by - (rule ts_add_ok [OF assms(4) b(2)], auto)
  then show ?thesis using q b by (simp add: realtime_def gettsboottime_def)
qed

theorem realtime_counts_uptime_twice_witness:
  "\<exists>now. realtime (\<lambda>_. some_clock\<lparr>hands := [\<lparr> gen = 1, last_count = 0, nanotime = 0,
      tstime = \<lparr> tv_sec = 50, tv_nsec = 7 \<rparr> \<rparr>]\<rparr>) 0 0 = Some now \<and> ts_val now = 100000000014"
  using realtime_counts_uptime_twice [of "some_clock\<lparr>hands := [\<lparr> gen = 1, last_count = 0, nanotime = 0,
      tstime = \<lparr> tv_sec = 50, tv_nsec = 7 \<rparr> \<rparr>]\<rparr>" "\<lparr> tv_sec = 50, tv_nsec = 7 \<rparr>" 0 0]
  by (simp add: some_clock_def timekeep_start_def ts_ok_def ts_val_def SEC_NANOSECS_def TC_GEN_UPDATE_def Let_def)

end
