(* ===== verification/Timer.thy ===== *)
theory Timer
  imports Time
begin

text \<open>
  The timer queues of \<^verbatim>\<open>kern/timer.c\<close> and the event timers of \<^verbatim>\<open>device/evtimer.c\<close> that drive
  them. Every processor has a queue sorted by expiry time, a list of timers called on every
  tick, and an event timer device. Timers and event timers are references into maps; what
  a timer calls is identified with the timer, so an interrupt returns the list of the
  timers it called. The current time is an input.
\<close>

type_synonym tmref = nat
type_synonym evref = nat

subsection \<open>Event timers\<close>

datatype evtimer_mode = EV_PERIODIC | EV_ONESHOT

definition EV_F_PERIODIC :: u32 where "EV_F_PERIODIC = 1"
definition EV_F_ONESHOT :: u32 where "EV_F_ONESHOT = 2"
definition EV_F_CPULOCAL :: u32 where "EV_F_CPULOCAL = 4"

text \<open>\<open>ev_conf\<close> is what the device was last told: the mode and the count, or nothing while it is
  stopped. \<open>ev_callback\<close> is the processor whose queue the device serves.\<close>

record evtimer =
  ev_min_period :: u64
  ev_max_period :: u64
  ev_freq :: u64
  ev_cpu :: nat
  ev_flags :: u32
  ev_callback :: "nat option"
  ev_conf :: "(evtimer_mode \<times> u64) option"

definition clamp :: "u64 \<Rightarrow> u64 \<Rightarrow> u64 \<Rightarrow> u64" where
  "clamp d mn mx = max (min d mx) mn"

definition evtimer_config :: "evtimer \<Rightarrow> evtimer_mode \<Rightarrow> u64 \<Rightarrow> evtimer" where
  "evtimer_config ev mode time = (let
     time = clamp time (ev_min_period ev) (ev_max_period ev);
     dv = (time * ev_freq ev) div word_of_int SEC_NANOSECS in
     ev\<lparr>ev_conf := Some (mode, dv)\<rparr>)"

definition evtimer_stop :: "evtimer \<Rightarrow> evtimer" where
  "evtimer_stop ev = ev\<lparr>ev_conf := None\<rparr>"

text \<open>\<open>evl\<close> is \<^verbatim>\<open>evtimer_list\<close>.\<close>

definition evtimer_register :: "(evref \<Rightarrow> evtimer) \<Rightarrow> evref list \<Rightarrow> evref \<Rightarrow> (evref \<Rightarrow> evtimer) \<times> evref list" where
  "evtimer_register evs evl e = (evs(e := (evs e)\<lparr>ev_callback := None\<rparr>), evl @ [e])"

definition evtimer_unregister :: "(evref \<Rightarrow> evtimer) \<Rightarrow> evref list \<Rightarrow> evref \<Rightarrow> errno + evref list" where
  "evtimer_unregister evs evl e = (if ev_callback (evs e) \<noteq> None then Inl EBUSY else Inr (remove1 e evl))"

definition evtimer_get :: "(evref \<Rightarrow> evtimer) \<Rightarrow> evref list \<Rightarrow> bool \<Rightarrow> nat \<Rightarrow> u32 \<Rightarrow> (evref \<Rightarrow> evtimer) \<times> evref option" where
  "evtimer_get evs evl mp_capable cpu flags = (let rflags = flags AND NOT EV_F_CPULOCAL in
     case find (\<lambda>e. ev_flags (evs e) AND flags = rflags \<and>
                    (flags AND EV_F_CPULOCAL = 0 \<or> \<not> mp_capable \<or> cpu = ev_cpu (evs e))) evl of
       None \<Rightarrow> (evs, None)
     | Some e \<Rightarrow> (evs(e := (evs e)\<lparr>ev_callback := Some cpu\<rparr>), Some e))"

definition evtimer_put :: "(evref \<Rightarrow> evtimer) \<Rightarrow> evref \<Rightarrow> evref \<Rightarrow> evtimer" where
  "evtimer_put evs e = evs(e := (evs e)\<lparr>ev_callback := None\<rparr>)"

text \<open>The processor whose queue an interrupt of the device serves.\<close>

definition evtimer_intr :: "evtimer \<Rightarrow> nat option" where
  "evtimer_intr ev = ev_callback ev"

subsection \<open>Timers\<close>

definition TIMER_PERIODIC :: u32 where "TIMER_PERIODIC = 1"
definition TIMER_ONESHOT :: u32 where "TIMER_ONESHOT = 0"
definition TIMER_DONE :: u32 where "TIMER_DONE = 2"
definition TIMER_ONTICK :: u32 where "TIMER_ONTICK = 4"

definition TICK_PERIOD :: u64 where
  "TICK_PERIOD = word_of_int (MILLI2NANO 5)"

record timer =
  tm_tq :: nat
  tm_flags :: u32
  tm_time :: u64
  tm_period :: u64

type_synonym timer_map = "tmref \<Rightarrow> timer"

record timerq =
  tq_dev :: evtimer
  tq_queue :: "tmref list"
  tq_ontick :: "tmref list"
  tq_bsp :: bool

record timersys =
  timers :: timer_map
  timerqs :: "timerq list"

definition timer_ontick_p :: "timer \<Rightarrow> bool" where
  "timer_ontick_p t \<longleftrightarrow> tm_flags t AND TIMER_ONTICK \<noteq> 0"

fun queue_insert :: "timer_map \<Rightarrow> tmref \<Rightarrow> tmref list \<Rightarrow> tmref list" where
  "queue_insert tm t [] = [t]"
| "queue_insert tm t (x # xs) = (if tm_time (tm x) \<ge> tm_time (tm t) then t # x # xs else x # queue_insert tm t xs)"

definition timerq_insert :: "timer_map \<Rightarrow> timerq \<Rightarrow> tmref \<Rightarrow> timerq" where
  "timerq_insert tm q t =
     (if timer_ontick_p (tm t) then
        let q = q\<lparr>tq_ontick := tq_ontick q @ [t]\<rparr> in
        if \<not> tq_bsp q \<and> length (tq_ontick q) = 1
        then q\<lparr>tq_dev := evtimer_config (tq_dev q) EV_PERIODIC TICK_PERIOD\<rparr> else q
      else q\<lparr>tq_queue := queue_insert tm t (tq_queue q)\<rparr>)"

definition timerq_reconf :: "timer_map \<Rightarrow> timerq \<Rightarrow> u64 \<Rightarrow> timerq" where
  "timerq_reconf tm q curtime =
     (if tq_bsp q \<or> tq_ontick q \<noteq> [] then q
      else case tq_queue q of
        [] \<Rightarrow> q\<lparr>tq_dev := evtimer_stop (tq_dev q)\<rparr>
      | t # _ \<Rightarrow> q\<lparr>tq_dev := evtimer_config (tq_dev q) EV_ONESHOT (tm_time (tm t) - curtime)\<rparr>)"

text \<open>Inserting a timer that is on a list already, or removing one that is on none, breaks the
  list; the checks of \<^verbatim>\<open>lib/list.h\<close> stop it.\<close>

definition timer_queued :: "timersys \<Rightarrow> tmref \<Rightarrow> bool" where
  "timer_queued y t \<longleftrightarrow> (\<exists>q \<in> set (timerqs y). t \<in> set (tq_queue q) \<or> t \<in> set (tq_ontick q))"

definition timer_start :: "nat \<Rightarrow> timersys \<Rightarrow> tmref \<Rightarrow> u64 \<Rightarrow> u32 \<Rightarrow> u64 \<Rightarrow> timersys panicking" where
  "timer_start c y t time flags curtime = do {
     q \<leftarrow> nth_opt (timerqs y) c;
     kassert (\<not> timer_queued y t);
     let tm = (timers y)(t := (timers y t)\<lparr>tm_time := time + curtime, tm_period := time, tm_flags := flags, tm_tq := c\<rparr>);
     let q = timerq_insert tm q t;
     let q = timerq_reconf tm q curtime;
     Some (y\<lparr>timers := tm, timerqs := (timerqs y)[c := q]\<rparr>) }"

definition timer_ontick :: "nat \<Rightarrow> timersys \<Rightarrow> tmref \<Rightarrow> u64 \<Rightarrow> timersys panicking" where
  "timer_ontick c y t curtime = timer_start c y t TICK_PERIOD (TIMER_PERIODIC OR TIMER_ONTICK) curtime"

text \<open>Taking a timer off its list; the result says whether the device has to be set anew.\<close>

definition timer_unlink :: "timer_map \<Rightarrow> timerq \<Rightarrow> tmref \<Rightarrow> (timerq \<times> timer_map \<times> bool) panicking" where
  "timer_unlink tm q t =
     (if timer_ontick_p (tm t) then do {
        kassert (t \<in> set (tq_ontick q));
        let l = remove1 t (tq_ontick q);
        Some (q\<lparr>tq_ontick := l\<rparr>, tm, l = []) }
      else if tm_flags (tm t) AND TIMER_DONE = 0 then do {
        kassert (t \<in> set (tq_queue q));
        Some (q\<lparr>tq_queue := remove1 t (tq_queue q)\<rparr>,
              tm(t := (tm t)\<lparr>tm_flags := tm_flags (tm t) OR TIMER_DONE\<rparr>), hd (tq_queue q) = t) }
      else Some (q, tm, False))"

text \<open>The result is the remaining time.\<close>

definition timer_stop :: "nat \<Rightarrow> timersys \<Rightarrow> tmref \<Rightarrow> u64 \<Rightarrow> (timersys \<times> u64) panicking" where
  "timer_stop c y t curtime = do {
     let b = tm_tq (timers y t);
     q \<leftarrow> nth_opt (timerqs y) b;
     let rem = (if curtime \<ge> tm_time (timers y t) then 0 else tm_time (timers y t) - curtime);
     (q, tm, reconf) \<leftarrow> timer_unlink (timers y) q t;
     let q = (if reconf \<and> b = c then timerq_reconf tm q curtime else q);
     Some (y\<lparr>timers := tm, timerqs := (timerqs y)[b := q]\<rparr>, rem) }"

text \<open>The loop over the expired timers. A periodic timer with period zero keeps it busy forever.\<close>

partial_function (option) timer_loop ::
  "u64 \<Rightarrow> timer_map \<Rightarrow> timerq \<Rightarrow> tmref list \<Rightarrow> (timer_map \<times> timerq \<times> tmref list) option" where
  [code]: "timer_loop curtime tm q fired =
     (case tq_queue q of
        [] \<Rightarrow> Some (tm, q, fired)
      | t # rest \<Rightarrow>
          if tm_time (tm t) \<le> curtime then
            let q = q\<lparr>tq_queue := rest\<rparr> in
            if tm_flags (tm t) AND TIMER_PERIODIC \<noteq> 0 then
              let tm = tm(t := (tm t)\<lparr>tm_time := curtime + tm_period (tm t)\<rparr>) in
              timer_loop curtime tm (timerq_insert tm q t) (fired @ [t])
            else
              timer_loop curtime (tm(t := (tm t)\<lparr>tm_flags := tm_flags (tm t) OR TIMER_DONE\<rparr>)) q (fired @ [t])
          else Some (tm, q, fired))"

definition timer_intr :: "nat \<Rightarrow> timersys \<Rightarrow> u64 \<Rightarrow> (timersys \<times> tmref list) panicking" where
  "timer_intr c y curtime = do {
     q \<leftarrow> nth_opt (timerqs y) c;
     (tm, q, fired) \<leftarrow> timer_loop curtime (timers y) q [];
     let q = (if fired \<noteq> [] then timerq_reconf tm q curtime else q);
     Some (y\<lparr>timers := tm, timerqs := (timerqs y)[c := q]\<rparr>, tq_ontick (timerqs y ! c) @ fired) }"

text \<open>\<^verbatim>\<open>init_timer\<close> with the device \<^verbatim>\<open>evtimer_get\<close> found for the processor.\<close>

definition init_timer :: "bool \<Rightarrow> evtimer option \<Rightarrow> timerq panicking" where
  "init_timer bsp_p found = do {
     ev \<leftarrow> found;
     let q = \<lparr> tq_dev = ev, tq_queue = [], tq_ontick = [], tq_bsp = False \<rparr>;
     if bsp_p then Some (q\<lparr>tq_bsp := True, tq_dev := evtimer_config ev EV_PERIODIC TICK_PERIOD\<rparr>)
     else Some q }"

subsection \<open>The invariant\<close>

definition sorted_queue :: "timer_map \<Rightarrow> tmref list \<Rightarrow> bool" where
  "sorted_queue tm xs \<longleftrightarrow> distinct xs \<and> sorted (map (\<lambda>t. tm_time (tm t)) xs)"

text \<open>Every timer is on at most one list, the one its \<^verbatim>\<open>tq\<close> pointer and flags say.\<close>

definition timer_inv :: "timersys \<Rightarrow> bool" where
  "timer_inv y \<longleftrightarrow> (\<forall>c < length (timerqs y). let q = timerqs y ! c in
     sorted_queue (timers y) (tq_queue q) \<and> distinct (tq_ontick q) \<and>
     (\<forall>t \<in> set (tq_queue q). tm_tq (timers y t) = c \<and> \<not> timer_ontick_p (timers y t) \<and> tm_flags (timers y t) AND TIMER_DONE = 0) \<and>
     (\<forall>t \<in> set (tq_ontick q). tm_tq (timers y t) = c \<and> timer_ontick_p (timers y t)))"

lemma queue_insert_set [simp]: "set (queue_insert tm t xs) = insert t (set xs)"
  by (induction xs) auto

lemma queue_insert_distinct [simp]: "distinct (queue_insert tm t xs) \<longleftrightarrow> distinct xs \<and> t \<notin> set xs"
  by (induction xs) auto

lemma queue_insert_sorted:
  "sorted (map (\<lambda>t. tm_time (tm t)) xs) \<Longrightarrow> sorted (map (\<lambda>t. tm_time (tm t)) (queue_insert tm t xs))"
  by (induction xs) (auto intro: order_trans)

lemma sorted_queue_insert: "sorted_queue tm xs \<Longrightarrow> t \<notin> set xs \<Longrightarrow> sorted_queue tm (queue_insert tm t xs)"
  by (simp add: sorted_queue_def queue_insert_sorted)

lemma queue_insert_later:
  "\<forall>x \<in> set ds. tm_time (tm x) < tm_time (tm t) \<Longrightarrow> queue_insert tm t (ds @ xs) = ds @ queue_insert tm t xs"
  by (induction ds) auto

lemma sorted_queue_cong: "(\<And>t. t \<in> set xs \<Longrightarrow> tm_time (tm' t) = tm_time (tm t)) \<Longrightarrow> sorted_queue tm' xs = sorted_queue tm xs"
  unfolding sorted_queue_def by (metis (mono_tags, lifting) map_cong)

lemma sorted_queue_upd: "t \<notin> set xs \<Longrightarrow> sorted_queue (tm(t := x)) xs = sorted_queue tm xs"
  by (rule sorted_queue_cong) auto

lemma queue_insert_cong:
  "(\<And>x. x \<in> insert t (set xs) \<Longrightarrow> tm_time (tm' x) = tm_time (tm x)) \<Longrightarrow> queue_insert tm' t xs = queue_insert tm t xs"
  by (induction xs) auto

abbreviation periodic :: "timer \<Rightarrow> bool" where
  "periodic x \<equiv> tm_flags x AND TIMER_PERIODIC \<noteq> 0"

text \<open>A timer after it expired at the time \<open>cur\<close>.\<close>

definition expired :: "u64 \<Rightarrow> timer \<Rightarrow> timer" where
  "expired cur x = (if periodic x then x\<lparr>tm_time := cur + tm_period x\<rparr> else x\<lparr>tm_flags := tm_flags x OR TIMER_DONE\<rparr>)"

lemma timer_loop_run:
  assumes "tq_queue q = ds @ rs" "sorted_queue tm (ds @ rs)" "\<forall>t \<in> set ds. tm_time (tm t) \<le> cur"
    "\<forall>t \<in> set rs. cur < tm_time (tm t)" "\<forall>t \<in> set ds. \<not> timer_ontick_p (tm t)"
    "\<forall>t \<in> set ds. periodic (tm t) \<longrightarrow> cur < cur + tm_period (tm t)"
  shows "\<exists>rs'. timer_loop cur tm q fired =
      Some ((\<lambda>t. if t \<in> set ds then expired cur (tm t) else tm t), q\<lparr>tq_queue := rs'\<rparr>, fired @ ds) \<and>
    sorted_queue (\<lambda>t. if t \<in> set ds then expired cur (tm t) else tm t) rs' \<and>
    set rs' = set rs \<union> {t \<in> set ds. periodic (tm t)}"
  using assms
proof (induction ds arbitrary: q rs tm fired)
  case Nil
  then have "timer_loop cur tm q fired = Some (tm, q, fired)"
    by (subst timer_loop.simps) (auto split: list.splits)
  moreover have "q\<lparr>tq_queue := rs\<rparr> = q" using Nil(1) by (cases q) simp
  ultimately show ?case using Nil(2) by (intro exI [of _ rs]) simp
next
  case (Cons t ds)
  define tm1 where "tm1 = tm(t := expired cur (tm t))"
  have tm1: "tm1 t = expired cur (tm t)" "\<And>u. u \<noteq> t \<Longrightarrow> tm1 u = tm u" by (auto simp: tm1_def)
  have nt: "t \<notin> set ds" "t \<notin> set rs" and so: "sorted_queue tm (ds @ rs)"
    using Cons.prems(2) by (auto simp: sorted_queue_def)
  have tmq: "u \<in> set ds \<Longrightarrow> tm1 u = tm u" "u \<in> set rs \<Longrightarrow> tm1 u = tm u" for u by (rule tm1(2); use nt in blast)+
  have per: "{u \<in> set ds. periodic (tm1 u)} = {u \<in> set ds. periodic (tm u)}" using tmq(1) by auto
  have so1: "sorted_queue tm1 (ds @ rs)" using so nt by (simp add: tm1_def sorted_queue_upd)
  have fin: "(\<lambda>u. if u \<in> set ds then expired cur (tm1 u) else tm1 u) = (\<lambda>u. if u \<in> set (t # ds) then expired cur (tm u) else tm u)"
    using nt by (auto simp: tm1_def)
  have due: "tm_time (tm t) \<le> cur" and q: "tq_queue q = t # ds @ rs" using Cons.prems(1,3) by auto
  show ?case
  proof (cases "periodic (tm t)")
    case True
    let ?rs = "queue_insert tm1 t rs"
    have ex: "expired cur (tm t) = (tm t)\<lparr>tm_time := cur + tm_period (tm t)\<rparr>" using True by (simp add: expired_def)
    have late: "cur < tm_time (tm1 t)" using True Cons.prems(6) by (simp add: tm1 ex)
    have "\<forall>x \<in> set ds. tm_time (tm1 x) < tm_time (tm1 t)"
    proof
      fix x assume x: "x \<in> set ds"
      then have "tm_time (tm x) \<le> cur" "x \<noteq> t" using Cons.prems(3) nt by auto
      then show "tm_time (tm1 x) < tm_time (tm1 t)" using late tm1(2) [of x] by (simp add: order_le_less_trans)
    qed
    then have li: "queue_insert tm1 t (ds @ rs) = ds @ ?rs" by (rule queue_insert_later)
    have on: "\<not> timer_ontick_p (tm1 t)" using Cons.prems(5) by (simp add: tm1 ex timer_ontick_p_def)
    have ins: "timerq_insert tm1 (q\<lparr>tq_queue := ds @ rs\<rparr>) t = q\<lparr>tq_queue := ds @ ?rs\<rparr>"
      unfolding timerq_insert_def using on li by simp
    have step: "timer_loop cur tm q fired = timer_loop cur tm1 (q\<lparr>tq_queue := ds @ ?rs\<rparr>) (fired @ [t])"
      using q due True by (subst timer_loop.simps) (simp add: Let_def flip: ex tm1_def, simp add: ins)
    have so2: "sorted_queue tm1 (ds @ ?rs)"
      unfolding li [symmetric] using so1 nt by (intro sorted_queue_insert) auto
    have "\<exists>rs'. timer_loop cur tm1 (q\<lparr>tq_queue := ds @ ?rs\<rparr>) (fired @ [t]) =
        Some ((\<lambda>u. if u \<in> set ds then expired cur (tm1 u) else tm1 u), q\<lparr>tq_queue := ds @ ?rs\<rparr>\<lparr>tq_queue := rs'\<rparr>, (fired @ [t]) @ ds) \<and>
      sorted_queue (\<lambda>u. if u \<in> set ds then expired cur (tm1 u) else tm1 u) rs' \<and>
      set rs' = set ?rs \<union> {u \<in> set ds. periodic (tm1 u)}"
      by (rule Cons.IH) (use Cons.prems nt so2 late in \<open>auto simp: tm1(1) tmq\<close>)
    then show ?thesis unfolding step fin per
      by (elim exE, intro exI) (use True nt in auto)
  next
    case False
    have ex: "expired cur (tm t) = (tm t)\<lparr>tm_flags := tm_flags (tm t) OR TIMER_DONE\<rparr>" using False by (simp add: expired_def)
    have step: "timer_loop cur tm q fired = timer_loop cur tm1 (q\<lparr>tq_queue := ds @ rs\<rparr>) (fired @ [t])"
      using q due False by (subst timer_loop.simps) (simp add: Let_def flip: ex tm1_def)
    have "\<exists>rs'. timer_loop cur tm1 (q\<lparr>tq_queue := ds @ rs\<rparr>) (fired @ [t]) =
        Some ((\<lambda>u. if u \<in> set ds then expired cur (tm1 u) else tm1 u), q\<lparr>tq_queue := ds @ rs\<rparr>\<lparr>tq_queue := rs'\<rparr>, (fired @ [t]) @ ds) \<and>
      sorted_queue (\<lambda>u. if u \<in> set ds then expired cur (tm1 u) else tm1 u) rs' \<and>
      set rs' = set rs \<union> {u \<in> set ds. periodic (tm1 u)}"
      by (rule Cons.IH) (use Cons.prems nt so1 in \<open>auto simp: tm1(1) tmq\<close>)
    then show ?thesis unfolding step fin per
      by (elim exE, intro exI) (use False nt in auto)
  qed
qed

text \<open>
  A due periodic timer whose next expiry is not in the future, because its period is zero or
  the sum wraps around. It is queued as due again each time it has been called.
\<close>

definition stuck :: "u64 \<Rightarrow> timer \<Rightarrow> bool" where
  "stuck cur x \<longleftrightarrow> periodic x \<and> tm_time x \<le> cur \<and> cur + tm_period x \<le> cur"

lemma timer_loop_not_stuck:
  assumes "timer_loop cur tm q fired = Some r"
  shows "sorted_queue tm (tq_queue q) \<longrightarrow> (\<forall>x \<in> set (tq_queue q). \<not> timer_ontick_p (tm x)) \<longrightarrow>
    t \<in> set (tq_queue q) \<longrightarrow> \<not> stuck cur (tm t)"
proof (rule timer_loop.raw_induct [OF _ assms], intro impI)
  fix loop cur tm q fired r
  assume IH: "\<And>cur tm q fired r. loop cur tm q fired = Some r \<Longrightarrow> sorted_queue tm (tq_queue q) \<longrightarrow>
      (\<forall>x \<in> set (tq_queue q). \<not> timer_ontick_p (tm x)) \<longrightarrow> t \<in> set (tq_queue q) \<longrightarrow> \<not> stuck cur (tm t)"
    and run: "(case tq_queue q of
        [] \<Rightarrow> Some (tm, q, fired)
      | t # rest \<Rightarrow>
          if tm_time (tm t) \<le> cur then
            let q = q\<lparr>tq_queue := rest\<rparr> in
            if periodic (tm t) then
              let tm = tm(t := (tm t)\<lparr>tm_time := cur + tm_period (tm t)\<rparr>) in
              loop cur tm (timerq_insert tm q t) (fired @ [t])
            else
              loop cur (tm(t := (tm t)\<lparr>tm_flags := tm_flags (tm t) OR TIMER_DONE\<rparr>)) q (fired @ [t])
          else Some (tm, q, fired)) = Some r"
    and so: "sorted_queue tm (tq_queue q)" and on: "\<forall>x \<in> set (tq_queue q). \<not> timer_ontick_p (tm x)"
    and t: "t \<in> set (tq_queue q)"
  show "\<not> stuck cur (tm t)"
  proof
    assume st: "stuck cur (tm t)"
    obtain h rest where q: "tq_queue q = h # rest" using t by (cases "tq_queue q") auto
    have nh: "h \<notin> set rest" "sorted_queue tm rest" using so q by (auto simp: sorted_queue_def)
    have due: "tm_time (tm h) \<le> cur"
      using so t st q by (auto simp: sorted_queue_def stuck_def intro: order_trans)
    show False
    proof (cases "periodic (tm h)")
      case True
      let ?tm = "tm(h := (tm h)\<lparr>tm_time := cur + tm_period (tm h)\<rparr>)"
      have "\<not> timer_ontick_p (?tm h)" using on q by (simp add: timer_ontick_p_def)
      then have ins: "timerq_insert ?tm (q\<lparr>tq_queue := rest\<rparr>) h = q\<lparr>tq_queue := queue_insert ?tm h rest\<rparr>"
        unfolding timerq_insert_def by simp
      have "loop cur ?tm (q\<lparr>tq_queue := queue_insert ?tm h rest\<rparr>) (fired @ [h]) = Some r"
        using run q due True ins by (simp add: Let_def)
      moreover have "sorted_queue ?tm (queue_insert ?tm h rest)"
        using nh by (intro sorted_queue_insert) (simp_all add: sorted_queue_upd)
      moreover have "\<forall>x \<in> set (queue_insert ?tm h rest). \<not> timer_ontick_p (?tm x)"
        using on q nh(1) by (auto simp: timer_ontick_p_def)
      moreover have "stuck cur (?tm t)" using st by (auto simp: stuck_def)
      ultimately show False using IH t q by fastforce
    next
      case False
      let ?tm = "tm(h := (tm h)\<lparr>tm_flags := tm_flags (tm h) OR TIMER_DONE\<rparr>)"
      have "t \<noteq> h" using st False by (auto simp: stuck_def)
      moreover have "loop cur ?tm (q\<lparr>tq_queue := rest\<rparr>) (fired @ [h]) = Some r"
        using run q due False by (simp add: Let_def)
      moreover have "sorted_queue ?tm rest" using nh by (simp add: sorted_queue_upd)
      moreover have "\<forall>x \<in> set rest. \<not> timer_ontick_p (?tm x)" using on q nh(1) by auto
      ultimately show False using IH t q st by fastforce
    qed
  qed
qed

definition queue_ok :: "timer_map \<Rightarrow> nat \<Rightarrow> timerq \<Rightarrow> bool" where
  "queue_ok tm c q \<longleftrightarrow> sorted_queue tm (tq_queue q) \<and> distinct (tq_ontick q) \<and>
     (\<forall>t \<in> set (tq_queue q). tm_tq (tm t) = c \<and> \<not> timer_ontick_p (tm t) \<and> tm_flags (tm t) AND TIMER_DONE = 0) \<and>
     (\<forall>t \<in> set (tq_ontick q). tm_tq (tm t) = c \<and> timer_ontick_p (tm t))"

lemma timer_inv_queue: "timer_inv y \<longleftrightarrow> (\<forall>c < length (timerqs y). queue_ok (timers y) c (timerqs y ! c))"
  by (simp add: timer_inv_def queue_ok_def Let_def)

lemma queue_ok_cong:
  assumes "queue_ok tm c q" "\<And>t. t \<in> set (tq_queue q) \<union> set (tq_ontick q) \<Longrightarrow> tm' t = tm t"
  shows "queue_ok tm' c q"
proof -
  have "sorted_queue tm' (tq_queue q) = sorted_queue tm (tq_queue q)" by (rule sorted_queue_cong) (simp add: assms(2))
  with assms show ?thesis by (auto simp: queue_ok_def)
qed

lemma timer_inv_upd:
  assumes i: "timer_inv y" and q: "queue_ok tm b q'"
    and fr: "\<And>t d. d < length (timerqs y) \<Longrightarrow> d \<noteq> b \<Longrightarrow> t \<in> set (tq_queue (timerqs y ! d)) \<union> set (tq_ontick (timerqs y ! d)) \<Longrightarrow>
      tm t = timers y t"
  shows "timer_inv (y\<lparr>timers := tm, timerqs := (timerqs y)[b := q']\<rparr>)"
proof -
  have "queue_ok tm d ((timerqs y)[b := q'] ! d)" if d: "d < length (timerqs y)" for d
  proof (cases "d = b")
    case False
    have "queue_ok tm d (timerqs y ! d)"
      by (rule queue_ok_cong [of "timers y"]) (use i d fr [OF d False] in \<open>auto simp: timer_inv_queue\<close>)
    then show ?thesis using False by simp
  qed (use q d in simp)
  then show ?thesis by (simp add: timer_inv_queue)
qed

lemma reconf_queue_ok [simp]: "queue_ok tm c (timerq_reconf tm' q cur) = queue_ok tm c q"
  by (auto simp: timerq_reconf_def queue_ok_def split: list.splits)

lemma reconf_queue [simp]: "tq_queue (timerq_reconf tm q cur) = tq_queue q" "tq_ontick (timerq_reconf tm q cur) = tq_ontick q"
  by (auto simp: timerq_reconf_def split: list.splits)

lemma timerq_insert_ok:
  assumes "queue_ok tm c q" "t \<notin> set (tq_queue q) \<union> set (tq_ontick q)" "tm_tq (tm t) = c" "tm_flags (tm t) AND TIMER_DONE = 0"
  shows "queue_ok tm c (timerq_insert tm q t)"
  using assms by (auto simp: timerq_insert_def queue_ok_def Let_def sorted_queue_insert)

lemma timer_start_inv:
  assumes i: "timer_inv y" and s: "timer_start c y t time flags cur = Some y'" and f: "flags AND TIMER_DONE = 0"
  shows "timer_inv y'"
proof -
  define tm where "tm = (timers y)(t := (timers y t)\<lparr>tm_time := time + cur, tm_period := time, tm_flags := flags, tm_tq := c\<rparr>)"
  have c: "c < length (timerqs y)" and nq: "\<not> timer_queued y t"
    and y': "y' = y\<lparr>timers := tm, timerqs := (timerqs y)[c := timerq_reconf tm (timerq_insert tm (timerqs y ! c) t) cur]\<rparr>"
    using s by (auto simp: timer_start_def Let_def bind_eq_Some_conv nth_opt_eq_Some tm_def)
  have out: "t \<notin> set (tq_queue (timerqs y ! d)) \<union> set (tq_ontick (timerqs y ! d))" if "d < length (timerqs y)" for d
    using nq nth_mem [OF that] by (auto simp: timer_queued_def)
  have "queue_ok tm c (timerqs y ! c)"
    by (rule queue_ok_cong [of "timers y"]) (use i c out [OF c] in \<open>auto simp: timer_inv_queue tm_def\<close>)
  then have "queue_ok tm c (timerq_insert tm (timerqs y ! c) t)"
    using out [OF c] f by (intro timerq_insert_ok) (auto simp: tm_def)
  then show ?thesis unfolding y' using out by (intro timer_inv_upd [OF i]) (auto simp: tm_def)
qed

lemma other_queue:
  assumes "timer_inv y" "d < length (timerqs y)" "t \<in> set (tq_queue (timerqs y ! d)) \<union> set (tq_ontick (timerqs y ! d))"
  shows "tm_tq (timers y t) = d"
  using assms by (auto simp: timer_inv_queue queue_ok_def)

lemma sorted_queue_remove1: "sorted_queue tm xs \<Longrightarrow> sorted_queue tm (remove1 t xs)"
  by (simp add: sorted_queue_def sorted_map_remove1)

lemma queue_ok_shrink:
  "queue_ok tm c q \<Longrightarrow> queue_ok tm c (q\<lparr>tq_queue := remove1 t (tq_queue q)\<rparr>)"
  "queue_ok tm c q \<Longrightarrow> queue_ok tm c (q\<lparr>tq_ontick := remove1 t (tq_ontick q)\<rparr>)"
  unfolding queue_ok_def by (simp_all add: sorted_queue_remove1) (meson notin_set_remove1)+

lemma timer_unlink_ok:
  assumes "timer_unlink tm q t = Some (q', tm', r)" "queue_ok tm c q"
  shows "queue_ok tm' c q' \<and> (\<forall>u. u \<noteq> t \<longrightarrow> tm' u = tm u)"
proof -
  have d: "distinct (tq_queue q)" "distinct (tq_ontick q)" using assms(2) by (auto simp: queue_ok_def sorted_queue_def)
  show ?thesis
  proof (cases "\<not> timer_ontick_p (tm t) \<and> tm_flags (tm t) AND TIMER_DONE = 0")
    case True
    then have q': "q' = q\<lparr>tq_queue := remove1 t (tq_queue q)\<rparr>"
      and tm': "tm' = tm(t := (tm t)\<lparr>tm_flags := tm_flags (tm t) OR TIMER_DONE\<rparr>)"
      using assms(1) by (auto simp: timer_unlink_def)
    have "t \<notin> set (tq_ontick q)" using True assms(2) unfolding queue_ok_def by blast
    then have nt: "t \<notin> set (tq_queue q') \<union> set (tq_ontick q')" using d by (simp add: q')
    have fr: "tm' u = tm u" if "u \<noteq> t" for u using that by (simp add: tm')
    have "queue_ok tm' c q'"
    proof (rule queue_ok_cong [of tm c q' tm'])
      show "queue_ok tm c q'" unfolding q' by (rule queue_ok_shrink(1) [OF assms(2)])
      show "tm' u = tm u" if "u \<in> set (tq_queue q') \<union> set (tq_ontick q')" for u
        by (rule fr) (use that nt in blast)
    qed
    then show ?thesis by (simp add: tm')
  next
    case False
    then have "tm' = tm \<and> (q' = q \<or> q' = q\<lparr>tq_ontick := remove1 t (tq_ontick q)\<rparr>)"
      using assms(1) by (auto simp: timer_unlink_def Let_def split: if_splits)
    then show ?thesis using assms(2) queue_ok_shrink(2) by blast
  qed
qed

lemma timer_stop_inv:
  assumes i: "timer_inv y" and s: "timer_stop c y t cur = Some (y', rem)"
  shows "timer_inv y'"
proof -
  let ?b = "tm_tq (timers y t)" let ?q = "timerqs y ! ?b"
  obtain q tm r where b: "?b < length (timerqs y)" and u: "timer_unlink (timers y) ?q t = Some (q, tm, r)"
    and y': "y' = y\<lparr>timers := tm, timerqs := (timerqs y)[?b := if r \<and> ?b = c then timerq_reconf tm q cur else q]\<rparr>"
    using s by (auto simp: timer_stop_def Let_def bind_eq_Some_conv nth_opt_eq_Some)
  have ok: "queue_ok (timers y) ?b ?q" using i b by (simp add: timer_inv_queue)
  note un = timer_unlink_ok [OF u ok]
  have ot: "t' \<noteq> t" if "d < length (timerqs y)" "d \<noteq> ?b"
      "t' \<in> set (tq_queue (timerqs y ! d)) \<union> set (tq_ontick (timerqs y ! d))" for t' d
    using other_queue [OF i that(1,3)] that(2) by auto
  show ?thesis unfolding y' by (rule timer_inv_upd [OF i]) (use un ot in auto)
qed

text \<open>What a timer interrupt does to the queue of its processor.\<close>

lemma timer_intr_run:
  assumes i: "timer_inv y" and c: "c < length (timerqs y)"
    and p: "\<forall>t \<in> set (tq_queue (timerqs y ! c)). \<not> stuck cur (timers y t)"
  obtains y' ds rs where "timer_intr c y cur = Some (y', tq_ontick (timerqs y ! c) @ ds)"
    "ds = takeWhile (\<lambda>t. tm_time (timers y t) \<le> cur) (tq_queue (timerqs y ! c))"
    "set ds = {t \<in> set (tq_queue (timerqs y ! c)). tm_time (timers y t) \<le> cur}"
    "timers y' = (\<lambda>t. if t \<in> set ds then expired cur (timers y t) else timers y t)"
    "tq_queue (timerqs y' ! c) = rs"
    "set rs = {t \<in> set (tq_queue (timerqs y ! c)). t \<in> set ds \<longrightarrow> periodic (timers y t)}" "timer_inv y'"
proof -
  let ?q = "timerqs y ! c" and ?tm = "timers y"
  let ?due = "\<lambda>t. tm_time (?tm t) \<le> cur"
  define ds where "ds = takeWhile ?due (tq_queue ?q)"
  define es where "es = dropWhile ?due (tq_queue ?q)"
  have ok: "queue_ok ?tm c ?q" using i c by (simp add: timer_inv_queue)
  have split: "tq_queue ?q = ds @ es" by (simp add: ds_def es_def)
  have so: "sorted_queue ?tm (ds @ es)" using ok split by (simp add: queue_ok_def)
  have due: "\<forall>t \<in> set ds. ?due t" by (auto simp: ds_def dest: set_takeWhileD)
  have late: "\<forall>t \<in> set es. cur < tm_time (?tm t)"
  proof (cases es)
    case (Cons x xs)
    then have "\<not> ?due x" unfolding es_def by (metis hd_dropWhile list.distinct(1) list.sel(1))
    then show ?thesis using so Cons by (auto simp: sorted_queue_def sorted_append not_le intro: order_less_le_trans)
  qed simp
  have ndue: "t \<notin> set es" if "t \<in> set ds" for t using so that by (auto simp: sorted_queue_def)
  let ?tm' = "\<lambda>t. if t \<in> set ds then expired cur (?tm t) else ?tm t"
  have "\<exists>rs'. timer_loop cur ?tm ?q [] = Some (?tm', ?q\<lparr>tq_queue := rs'\<rparr>, [] @ ds) \<and> sorted_queue ?tm' rs' \<and>
      set rs' = set es \<union> {t \<in> set ds. periodic (?tm t)}"
  proof (rule timer_loop_run [OF split so due late])
    show "\<forall>t \<in> set ds. \<not> timer_ontick_p (?tm t)" using ok split by (auto simp: queue_ok_def)
    show "\<forall>t \<in> set ds. periodic (?tm t) \<longrightarrow> cur < cur + tm_period (?tm t)"
      using p due split unfolding stuck_def by (metis Un_iff not_le set_append)
  qed
  then obtain rs where rs: "timer_loop cur ?tm ?q [] = Some (?tm', ?q\<lparr>tq_queue := rs\<rparr>, ds)" "sorted_queue ?tm' rs"
      "set rs = set es \<union> {t \<in> set ds. periodic (?tm t)}" by auto
  let ?q' = "?q\<lparr>tq_queue := rs\<rparr>"
  let ?y = "y\<lparr>timers := ?tm', timerqs := (timerqs y)[c := if ds \<noteq> [] then timerq_reconf ?tm' ?q' cur else ?q']\<rparr>"
  have run: "timer_intr c y cur = Some (?y, tq_ontick ?q @ ds)" using c rs(1) by (simp add: timer_intr_def Let_def)
  have nt: "t \<notin> set (tq_ontick ?q)" if "t \<in> set ds" for t using ok split that by (auto simp: queue_ok_def)
  have "queue_ok ?tm' c ?q'"
    using ok rs split nt ndue by (auto simp: queue_ok_def expired_def timer_ontick_p_def)
  moreover have "t \<notin> set ds" if "d < length (timerqs y)" "d \<noteq> c"
      "t \<in> set (tq_queue (timerqs y ! d)) \<union> set (tq_ontick (timerqs y ! d))" for t d
    using other_queue [OF i that(1,3)] other_queue [OF i c, of t] split that(2) by auto
  ultimately have inv: "timer_inv ?y" by (intro timer_inv_upd [OF i]) auto
  show ?thesis
  proof (rule that [OF run ds_def])
    show "set ds = {t \<in> set (tq_queue ?q). ?due t}" using split due late by auto
    show "set rs = {t \<in> set (tq_queue ?q). t \<in> set ds \<longrightarrow> periodic (?tm t)}" using rs(3) split ndue by auto
    show "tq_queue (timerqs ?y ! c) = rs" using c by simp
  qed (use inv in simp_all)
qed

text \<open>An interrupt returns exactly if no timer of its queue is stuck.\<close>

lemma timer_intr_stuck:
  assumes i: "timer_inv y" and c: "c < length (timerqs y)"
    and t: "t \<in> set (tq_queue (timerqs y ! c))" "stuck cur (timers y t)"
  shows "timer_intr c y cur = None"
proof -
  have ok: "queue_ok (timers y) c (timerqs y ! c)" using i c by (simp add: timer_inv_queue)
  have "timer_loop cur (timers y) (timerqs y ! c) [] = None"
  proof (rule ccontr)
    assume "timer_loop cur (timers y) (timerqs y ! c) [] \<noteq> None"
    then obtain r where "timer_loop cur (timers y) (timerqs y ! c) [] = Some r" by blast
    from timer_loop_not_stuck [OF this, of t] ok t show False by (simp add: queue_ok_def)
  qed
  with c show ?thesis by (simp add: timer_intr_def)
qed

text \<open>All sequences of timer operations that return.\<close>

inductive timer_step :: "timersys \<Rightarrow> timersys \<Rightarrow> bool" where
  start: "flags AND TIMER_DONE = 0 \<Longrightarrow> timer_start c y t time flags cur = Some y' \<Longrightarrow> timer_step y y'"
| stop: "timer_stop c y t cur = Some (y', rem) \<Longrightarrow> timer_step y y'"
| intr: "timer_intr c y cur = Some (y', fired) \<Longrightarrow> timer_step y y'"

lemma timer_step_inv: "timer_step y y' \<Longrightarrow> timer_inv y \<Longrightarrow> timer_inv y'"
proof (induction rule: timer_step.induct)
  case (intr c y cur y' fired)
  have c: "c < length (timerqs y)" using intr.hyps by (auto simp: timer_intr_def bind_eq_Some_conv nth_opt_eq_Some)
  have ns: "\<forall>t \<in> set (tq_queue (timerqs y ! c)). \<not> stuck cur (timers y t)"
    using timer_intr_stuck [OF intr.prems c] intr.hyps by auto
  obtain z f where "timer_intr c y cur = Some (z, f)" "timer_inv z"
    by (rule timer_intr_run [OF intr.prems c ns])
  with intr.hyps show ?case by simp
qed (auto intro: timer_start_inv timer_stop_inv)

lemma timer_steps_inv: "timer_step\<^sup>*\<^sup>* y y' \<Longrightarrow> timer_inv y \<Longrightarrow> timer_inv y'"
  by (induction rule: rtranclp_induct) (auto intro: timer_step_inv)

lemma timer_start_state: "\<forall>q \<in> set qs. tq_queue q = [] \<and> tq_ontick q = [] \<Longrightarrow> timer_inv \<lparr> timers = tm, timerqs = qs \<rparr>"
  by (auto simp: timer_inv_queue queue_ok_def sorted_queue_def)

subsection \<open>Properties\<close>

text \<open>C26. After any sequence of starting, stopping and expiring timers on any number of processors, a
  timer interrupt returns exactly if its processor has no due periodic timer whose next expiry,
  the current time plus its period, is not in the future (a period of zero, or one with which
  the 64 bit sum wraps around); with such a timer it loops forever. When it returns it has
  called, besides the timers called on every tick, exactly the timers of its processor that
  are due, each once and in the order of their expiry. A one-shot timer then is done and off
  the queue, a periodic one is queued again one period later, every other timer is untouched,
  and no timer left on the queue is due.\<close>

theorem timer_intr_fires_due:
  assumes "timer_step\<^sup>*\<^sup>* \<lparr> timers = tm0, timerqs = qs \<rparr> y" and "\<forall>q \<in> set qs. tq_queue q = [] \<and> tq_ontick q = []"
    and "c < length (timerqs y)"
  shows "if \<exists>t \<in> set (tq_queue (timerqs y ! c)). periodic (timers y t) \<and> tm_time (timers y t) \<le> cur \<and>
      cur + tm_period (timers y t) \<le> cur
    then timer_intr c y cur = None
    else \<exists>y' due. timer_intr c y cur = Some (y', tq_ontick (timerqs y ! c) @ due) \<and>
      set due = {t \<in> set (tq_queue (timerqs y ! c)). tm_time (timers y t) \<le> cur} \<and> distinct due \<and>
      sorted (map (\<lambda>t. tm_time (timers y t)) due) \<and>
      (\<forall>t. timers y' t = (if t \<in> set due then expired cur (timers y t) else timers y t)) \<and>
      set (tq_queue (timerqs y' ! c)) = {t \<in> set (tq_queue (timerqs y ! c)). t \<in> set due \<longrightarrow> periodic (timers y t)} \<and>
      (\<forall>t \<in> set (tq_queue (timerqs y' ! c)). cur < tm_time (timers y' t))"
proof (cases "\<exists>t \<in> set (tq_queue (timerqs y ! c)). stuck cur (timers y t)")
  case True
  have i: "timer_inv y" by (rule timer_steps_inv [OF assms(1) timer_start_state [OF assms(2)]])
  from True timer_intr_stuck [OF i assms(3)] show ?thesis by (auto simp: stuck_def)
next
  case False
  let ?q = "tq_queue (timerqs y ! c)"
  have i: "timer_inv y" by (rule timer_steps_inv [OF assms(1) timer_start_state [OF assms(2)]])
  have ns: "\<forall>t \<in> set ?q. \<not> stuck cur (timers y t)" using False by blast
  obtain y' ds rs where run: "timer_intr c y cur = Some (y', tq_ontick (timerqs y ! c) @ ds)"
    and ds: "ds = takeWhile (\<lambda>t. tm_time (timers y t) \<le> cur) ?q" "set ds = {t \<in> set ?q. tm_time (timers y t) \<le> cur}"
    and tm: "timers y' = (\<lambda>t. if t \<in> set ds then expired cur (timers y t) else timers y t)"
    and rs: "tq_queue (timerqs y' ! c) = rs" "set rs = {t \<in> set ?q. t \<in> set ds \<longrightarrow> periodic (timers y t)}"
    by (rule timer_intr_run [OF i assms(3) ns])
  have so: "sorted_queue (timers y) ?q" using i assms(3) by (simp add: timer_inv_queue queue_ok_def)
  have "sorted (map (\<lambda>t. tm_time (timers y t)) ds)" "distinct ds"
    using so unfolding ds(1) sorted_queue_def
    by (metis append_same_eq map_append sorted_append takeWhile_dropWhile_id) (simp add: so [unfolded sorted_queue_def])
  moreover have "\<forall>t \<in> set rs. cur < tm_time (timers y' t)"
    using rs(2) ds(2) ns unfolding tm by (auto simp: expired_def stuck_def not_le)
  moreover have "\<not> (\<exists>t \<in> set ?q. periodic (timers y t) \<and> tm_time (timers y t) \<le> cur \<and> cur + tm_period (timers y t) \<le> cur)"
    using False by (simp add: stuck_def)
  ultimately show ?thesis using run ds(2) tm rs
    by (simp only: if_False) (intro exI [of _ y'] exI [of _ ds], simp)
qed

definition some_evtimer :: evtimer where
  "some_evtimer = \<lparr> ev_min_period = 1, ev_max_period = 1000000000, ev_freq = 1000000000, ev_cpu = 0,
     ev_flags = EV_F_PERIODIC OR EV_F_ONESHOT, ev_callback = None, ev_conf = None \<rparr>"

definition idle_timerq :: timerq where
  "idle_timerq = \<lparr> tq_dev = some_evtimer, tq_queue = [], tq_ontick = [], tq_bsp = False \<rparr>"

definition some_timers :: timer_map where
  "some_timers = (\<lambda>_. \<lparr> tm_tq = 0, tm_flags = 0, tm_time = 0, tm_period = 0 \<rparr>)"

theorem timer_intr_fires_due_witness:
  "(\<exists>y y' due. timer_start 0 \<lparr> timers = some_timers, timerqs = [idle_timerq] \<rparr> 4 100 TIMER_ONESHOT 50 = Some y \<and>
     timer_intr 0 y 200 = Some (y', due) \<and> set due = {4}) \<and>
   (\<exists>y. timer_start 0 \<lparr> timers = some_timers, timerqs = [idle_timerq] \<rparr> 4 0 TIMER_PERIODIC 50 = Some y \<and>
     timer_intr 0 y 200 = None)"
proof
  let ?y0 = "\<lparr> timers = some_timers, timerqs = [idle_timerq] \<rparr>"
  have e: "\<forall>q \<in> set [idle_timerq]. tq_queue q = [] \<and> tq_ontick q = []" by (simp add: idle_timerq_def)
  note defs = timer_start_def timer_queued_def some_timers_def idle_timerq_def timerq_insert_def timer_ontick_p_def
    TIMER_ONESHOT_def TIMER_PERIODIC_def TIMER_ONTICK_def Let_def
  show "\<exists>y y' due. timer_start 0 ?y0 4 100 TIMER_ONESHOT 50 = Some y \<and>
     timer_intr 0 y 200 = Some (y', due) \<and> set due = {4}"
  proof -
    obtain y where y: "timer_start 0 ?y0 4 100 TIMER_ONESHOT 50 = Some y" "tq_queue (timerqs y ! 0) = [4]"
      "tm_time (timers y 4) = 150" "tm_flags (timers y 4) = 0" "length (timerqs y) = 1" "tq_ontick (timerqs y ! 0) = []"
      by (auto simp: defs)
    have s: "timer_step\<^sup>*\<^sup>* ?y0 y" using y(1) by (intro r_into_rtranclp timer_step.start) (auto simp: TIMER_ONESHOT_def)
    from timer_intr_fires_due [OF s e, of 0 200] y show ?thesis by auto
  qed
  show "\<exists>y. timer_start 0 ?y0 4 0 TIMER_PERIODIC 50 = Some y \<and> timer_intr 0 y 200 = None"
  proof -
    obtain y where y: "timer_start 0 ?y0 4 0 TIMER_PERIODIC 50 = Some y" "tq_queue (timerqs y ! 0) = [4]"
      "tm_time (timers y 4) = 50" "tm_flags (timers y 4) = 1" "tm_period (timers y 4) = 0" "length (timerqs y) = 1"
      by (auto simp: defs)
    have s: "timer_step\<^sup>*\<^sup>* ?y0 y" using y(1)
      by (intro r_into_rtranclp timer_step.start) (auto simp: TIMER_PERIODIC_def TIMER_DONE_def)
    from timer_intr_fires_due [OF s e, of 0 200] y show ?thesis by (auto simp: TIMER_PERIODIC_def)
  qed
qed

end
