(* ===== verification/Sched.thy ===== *)
theory Sched
  imports Prelude
begin

text \<open>
  The scheduler, \<^verbatim>\<open>src/kernel/kern/sched.c\<close>. Each processor has a \<^verbatim>\<open>scheduler_t\<close> with an interrupt
  queue, 32 run queues that are scanned in a ring, and a bit set of the queues that are not
  empty. Threads are identified by numbers; the record \<open>system\<close> holds all threads and all
  schedulers, and an operation takes the number of the processor it runs on. Every operation
  holds the scheduler lock throughout, so it is one atomic step. The stack switch itself is
  outside the model: after \<^verbatim>\<open>do_schedule\<close> the processor runs the thread in the field \<open>cur\<close>.
  A bit of \<^verbatim>\<open>thread->sflags\<close> is one boolean field each.
\<close>

subsection \<open>Model\<close>

datatype sched_prio = SCHED_INTR | SCHED_IO | SCHED_LOCK | SCHED_KERNEL | SCHED_INPUT | SCHED_SIGNAL | SCHED_NORMAL

fun prio_num :: "sched_prio \<Rightarrow> nat" where
  "prio_num SCHED_INTR = 0"
| "prio_num SCHED_IO = 1"
| "prio_num SCHED_LOCK = 2"
| "prio_num SCHED_KERNEL = 3"
| "prio_num SCHED_INPUT = 4"
| "prio_num SCHED_SIGNAL = 5"
| "prio_num SCHED_NORMAL = 6"

instantiation sched_prio :: linorder
begin

definition less_eq_sched_prio :: "sched_prio \<Rightarrow> sched_prio \<Rightarrow> bool" where
  "less_eq_sched_prio p q \<longleftrightarrow> prio_num p \<le> prio_num q"

definition less_sched_prio :: "sched_prio \<Rightarrow> sched_prio \<Rightarrow> bool" where
  "less_sched_prio p q \<longleftrightarrow> prio_num p < prio_num q"

instance
proof
  fix p q :: sched_prio
  show "p = q" if "p \<le> q" "q \<le> p"
    using that by (cases p; cases q) (auto simp: less_eq_sched_prio_def)
qed (auto simp: less_eq_sched_prio_def less_sched_prio_def)

end

datatype thread_state = THREAD_SPAWNED | THREAD_RUNNING | THREAD_RUNNABLE | THREAD_SLEEP | THREAD_EXIT

type_synonym tref = nat

record thread =
  state :: thread_state
  prio :: sched_prio
  sched_prio :: sched_prio
  on_cpu :: nat
  runq_idx :: nat
  do_sleep :: bool
  interruptable :: bool
  interrupted :: bool
  restartsys :: bool
  intr :: u8
  proc :: nat

definition SCHEDQ_NLIST :: nat where
  "SCHEDQ_NLIST = 32"

record scheduler =
  resched :: bool
  exit_thread :: "tref option"
  cur :: "tref option"
  idle :: tref
  nthread :: nat
  runq :: "tref list list"
  runq_intr :: "tref list"
  runq_ptr :: nat
  not_empty :: u32
  timer_on :: bool

type_synonym threads = "tref \<Rightarrow> thread"

definition sched_choose :: "scheduler \<Rightarrow> threads \<Rightarrow> (tref \<times> scheduler \<times> threads) panicking" where
  "sched_choose s th =
     (if nthread s = 0 then Some (idle s, s, th)
      else do {
        let s = s\<lparr>nthread := nthread s - 1\<rparr>;
        (t, s) \<leftarrow> (case runq_intr s of
            t # q \<Rightarrow> Some (t, s\<lparr>runq_intr := q\<rparr>)
          | [] \<Rightarrow> do {
              kassert (not_empty s \<noteq> 0);
              let f = ffs (drop_bit (runq_ptr s) (not_empty s));
              let ptr1 = (if f \<noteq> 0 then f + runq_ptr s else ffs (not_empty s));
              kassert (ptr1 > 0);
              let ptr = ptr1 - 1;
              q \<leftarrow> nth_opt (runq s) ptr;
              (case q of
                 [] \<Rightarrow> None
               | t # r \<Rightarrow> Some (t, s\<lparr>runq := (runq s)[ptr := r], runq_ptr := ptr,
                   not_empty := (if r = [] then not_empty s AND NOT (2 ^ ptr) else not_empty s)\<rparr>)) });
        kassert (state (th t) \<noteq> THREAD_EXIT);
        Some (t, s, th(t := (th t)\<lparr>runq_idx := 255, state := THREAD_RUNNING\<rparr>)) })"

text \<open>The offset of the queue a priority is appended to, for the priorities below \<^verbatim>\<open>SCHED_IO\<close>.\<close>

fun prio_off :: "sched_prio \<Rightarrow> nat" where
  "prio_off SCHED_INPUT = 4"
| "prio_off SCHED_SIGNAL = 3"
| "prio_off SCHED_KERNEL = 2"
| "prio_off SCHED_LOCK = 1"
| "prio_off SCHED_NORMAL = SCHEDQ_NLIST - 1"
| "prio_off _ = 0"

definition scheduler_add_thread :: "nat \<Rightarrow> scheduler \<Rightarrow> threads \<Rightarrow> tref \<Rightarrow> sched_prio \<Rightarrow> (scheduler \<times> threads) panicking" where
  "scheduler_add_thread c s th t pr = do {
     kassert (state (th t) \<noteq> THREAD_EXIT);
     let x = (th t)\<lparr>on_cpu := c, sched_prio := pr,
               state := (if state (th t) \<noteq> THREAD_SPAWNED then THREAD_RUNNABLE else state (th t))\<rparr>;
     let s = s\<lparr>nthread := nthread s + 1\<rparr>;
     if pr = SCHED_INTR then Some (s\<lparr>runq_intr := runq_intr s @ [t]\<rparr>, th(t := x))
     else do {
       let ptr = (if pr = SCHED_IO then runq_ptr s else (runq_ptr s + prio_off pr) mod SCHEDQ_NLIST);
       q \<leftarrow> nth_opt (runq s) ptr;
       Some (s\<lparr>runq := (runq s)[ptr := (if pr = SCHED_IO then t # q else q @ [t])],
               not_empty := not_empty s OR 2 ^ ptr\<rparr>,
             th(t := x\<lparr>runq_idx := ptr\<rparr>)) } }"

record system =
  threads :: threads
  scheds :: "scheduler list"
  running :: "bool list"
  ipis :: "nat list"
  free_calls :: "tref list"

definition sched_timer_start :: "scheduler \<Rightarrow> scheduler" where
  "sched_timer_start s = (if timer_on s then s else s\<lparr>timer_on := True\<rparr>)"

text \<open>The loop over the processors of \<^verbatim>\<open>sched_add_thread\<close>: the first one with the least threads.\<close>

fun sched_best :: "(scheduler \<times> bool) list \<Rightarrow> nat \<Rightarrow> (nat \<times> nat) option \<Rightarrow> (nat \<times> nat) option" where
  "sched_best [] i best = best"
| "sched_best ((s, run) # xs) i best =
     (if run \<and> (case best of None \<Rightarrow> True | Some (_, n) \<Rightarrow> nthread s < n)
      then sched_best xs (i + 1) (Some (i, nthread s)) else sched_best xs (i + 1) best)"

definition sched_add_thread :: "nat \<Rightarrow> system \<Rightarrow> tref \<Rightarrow> system panicking" where
  "sched_add_thread c y t = do {
     let th = (threads y)(t := (threads y t)\<lparr>runq_idx := 255\<rparr>);
     (b, _) \<leftarrow> sched_best (zip (scheds y) (running y)) 0 None;
     s \<leftarrow> nth_opt (scheds y) b;
     (s, th) \<leftarrow> scheduler_add_thread b s th t (prio (th t));
     let ipi = (\<not> timer_on s \<and> b \<noteq> c);
     let s = (if b = c then sched_timer_start s else s);
     Some (y\<lparr>threads := th, scheds := (scheds y)[b := s],
             ipis := (if ipi then ipis y @ [b] else ipis y)\<rparr>) }"

definition sched_has_runnable :: "nat \<Rightarrow> system \<Rightarrow> bool panicking" where
  "sched_has_runnable c y = do { s \<leftarrow> nth_opt (scheds y) c; Some (nthread s \<noteq> 0) }"

definition sched_set_inactive :: "nat \<Rightarrow> system \<Rightarrow> bool \<Rightarrow> system panicking" where
  "sched_set_inactive c y may_intr = do {
     s \<leftarrow> nth_opt (scheds y) c;
     t \<leftarrow> cur s;
     let x = threads y t;
     kassert (\<not> interruptable x);
     if may_intr \<and> interrupted x then Some y
     else Some (y\<lparr>threads := (threads y)(t := x\<lparr>interruptable := may_intr, do_sleep := True\<rparr>)\<rparr>) }"

text \<open>\<^verbatim>\<open>schedule_async\<close> sets the flag \<^verbatim>\<open>SCHED_NEEDED\<close> of the current processor.\<close>

definition schedule_async :: "nat \<Rightarrow> system \<Rightarrow> system panicking" where
  "schedule_async c y = do {
     s \<leftarrow> nth_opt (scheds y) c;
     Some (y\<lparr>scheds := (scheds y)[c := s\<lparr>resched := True\<rparr>]\<rparr>) }"

definition sched_wakeup_thread :: "nat \<Rightarrow> system \<Rightarrow> tref \<Rightarrow> sched_prio \<Rightarrow> (system \<times> bool) panicking" where
  "sched_wakeup_thread c y t pr = do {
     let x = threads y t;
     let b = on_cpu x;
     kassert (state x \<noteq> THREAD_EXIT);
     (y, ipi) \<leftarrow>
       (if state x = THREAD_RUNNING then
          Some (y\<lparr>threads := (threads y)(t := x\<lparr>do_sleep := False\<rparr>)\<rparr>, False)
        else if state x = THREAD_SLEEP then do {
          s \<leftarrow> nth_opt (scheds y) b;
          (s, th) \<leftarrow> scheduler_add_thread b s (threads y) t (min pr (prio x));
          let y = y\<lparr>threads := th, scheds := (scheds y)[b := s]\<rparr>;
          urgent \<leftarrow> (if pr = SCHED_INTR then do { r \<leftarrow> cur s; Some (sched_prio (th r) \<noteq> SCHED_INTR) }
                    else Some False);
          if urgent \<or> \<not> timer_on s
          then (if b = c then do { y \<leftarrow> schedule_async c y; Some (y, False) } else Some (y, True))
          else Some (y, False) }
        else Some (y, False));
     Some (y\<lparr>threads := (threads y)(t := (threads y t)\<lparr>interruptable := False\<rparr>)\<rparr>, ipi) }"

definition ipi_preempt :: "nat \<Rightarrow> bool \<Rightarrow> system \<Rightarrow> system" where
  "ipi_preempt b ipi y = (if ipi then y\<lparr>ipis := ipis y @ [b]\<rparr> else y)"

definition sched_wakeup :: "nat \<Rightarrow> system \<Rightarrow> tref \<Rightarrow> sched_prio \<Rightarrow> system panicking" where
  "sched_wakeup c y t pr = do {
     let b = on_cpu (threads y t);
     (y, ipi) \<leftarrow> sched_wakeup_thread c y t pr;
     Some (ipi_preempt b ipi y) }"

definition sched_pending_intr :: "nat \<Rightarrow> system \<Rightarrow> (system \<times> u8) panicking" where
  "sched_pending_intr c y = do {
     s \<leftarrow> nth_opt (scheds y) c;
     t \<leftarrow> cur s;
     let x = threads y t;
     if interrupted x
     then Some (y\<lparr>threads := (threads y)(t := x\<lparr>interrupted := False, restartsys := False, intr := 0\<rparr>)\<rparr>, intr x)
     else Some (y, 0) }"

definition sched_interrupt :: "nat \<Rightarrow> system \<Rightarrow> tref \<Rightarrow> sched_prio \<Rightarrow> u8 \<Rightarrow> bool \<Rightarrow> system panicking" where
  "sched_interrupt c y t pr i restart = do {
     let b = on_cpu (threads y t);
     (y, ipi) \<leftarrow> (if \<not> interrupted (threads y t) \<and> interruptable (threads y t)
       then sched_wakeup_thread c y t pr else Some (y, False));
     let x = threads y t;
     let y = y\<lparr>threads := (threads y)(t := x\<lparr>intr := intr x OR i, restartsys := restartsys x \<or> restart,
               interrupted := True\<rparr>)\<rparr>;
     Some (ipi_preempt b ipi y) }"

text \<open>\<^verbatim>\<open>sched_interrupted\<close> for the current thread: \<open>Some e\<close> is the error.\<close>

definition sched_interrupted :: "nat \<Rightarrow> system \<Rightarrow> errno option panicking" where
  "sched_interrupted c y = do {
     s \<leftarrow> nth_opt (scheds y) c;
     t \<leftarrow> cur s;
     let x = threads y t;
     if interrupted x then do {
       kassert (\<not> interruptable x);
       Some (Some (if restartsys x then ERESTART else EINTR)) }
     else Some None }"

text \<open>
  The call \<^verbatim>\<open>async_call\<close> that frees an exited thread is queued; the worker thread that runs it is
  woken in a step of its own.
\<close>

definition sched_exit_free :: "nat \<Rightarrow> system \<Rightarrow> system panicking" where
  "sched_exit_free c y = do {
     s \<leftarrow> nth_opt (scheds y) c;
     Some (case exit_thread s of
         None \<Rightarrow> y
       | Some t \<Rightarrow> y\<lparr>free_calls := free_calls y @ [t], scheds := (scheds y)[c := s\<lparr>exit_thread := None\<rparr>]\<rparr>) }"

definition sched_put_last :: "nat \<Rightarrow> scheduler \<Rightarrow> threads \<Rightarrow> tref \<Rightarrow> (scheduler \<times> threads) panicking" where
  "sched_put_last c s th prev =
     (if prev \<noteq> idle s \<and> state (th prev) \<noteq> THREAD_EXIT then
        (if do_sleep (th prev)
         then Some (s, th(prev := (th prev)\<lparr>do_sleep := False, state := THREAD_SLEEP\<rparr>))
         else scheduler_add_thread c s th prev (prio (th prev)))
      else Some (s, th))"

text \<open>The result says whether the address space of the new thread is switched to.\<close>

definition do_schedule :: "nat \<Rightarrow> system \<Rightarrow> (system \<times> bool) panicking" where
  "do_schedule c y = do {
     s \<leftarrow> nth_opt (scheds y) c;
     (case cur s of
        None \<Rightarrow> Some (y, False)
      | Some prev \<Rightarrow> do {
          (s, th) \<leftarrow> sched_put_last c s (threads y) prev;
          (nxt, s, th) \<leftarrow> sched_choose s th;
          let s = s\<lparr>cur := Some nxt\<rparr>;
          let s = (if nxt = idle s then s\<lparr>timer_on := False\<rparr> else sched_timer_start s);
          if nxt = prev then do {
            kassert (state (th prev) \<noteq> THREAD_EXIT);
            Some (y\<lparr>threads := th, scheds := (scheds y)[c := s]\<rparr>, False) }
          else do {
            s \<leftarrow> (if state (th prev) = THREAD_EXIT then do {
                   kassert (exit_thread s = None);
                   Some (s\<lparr>exit_thread := Some prev\<rparr>) }
                 else Some s);
            let vas = (proc (th nxt) \<noteq> proc (th prev) \<and> proc (th nxt) \<noteq> 0 \<or>
                       state (th prev) = THREAD_EXIT \<and> proc (th prev) \<noteq> 0);
            Some (y\<lparr>threads := th, scheds := (scheds y)[c := s]\<rparr>, vas) } }) }"

definition schedule :: "nat \<Rightarrow> system \<Rightarrow> (system \<times> bool) panicking" where
  "schedule c y = do {
     (y, vas) \<leftarrow> do_schedule c y;
     y \<leftarrow> sched_exit_free c y;
     Some (y, vas) }"

definition resched_needed :: "nat \<Rightarrow> system \<Rightarrow> (system \<times> bool) panicking" where
  "resched_needed c y = do {
     s \<leftarrow> nth_opt (scheds y) c;
     Some (y\<lparr>scheds := (scheds y)[c := s\<lparr>resched := False\<rparr>]\<rparr>, resched s) }"

partial_function (option) sched_intr_preempt :: "nat \<Rightarrow> system \<Rightarrow> system panicking" where
  [code]: "sched_intr_preempt c y = do {
     (y, need) \<leftarrow> resched_needed c y;
     if need then do {
       (y, vas) \<leftarrow> do_schedule c y;
       y \<leftarrow> sched_exit_free c y;
       sched_intr_preempt c y }
     else Some y }"

definition scheduler_init :: "tref \<Rightarrow> tref \<Rightarrow> scheduler" where
  "scheduler_init idle_thr boot_thr = \<lparr> resched = False, exit_thread = None, cur = Some boot_thr, idle = idle_thr,
     nthread = 0, runq = replicate SCHEDQ_NLIST [], runq_intr = [], runq_ptr = 0, not_empty = 0, timer_on = False \<rparr>"

text \<open>The entry points that only wrap an operation.\<close>

definition sched_need_resched :: "nat \<Rightarrow> system \<Rightarrow> (system \<times> bool) panicking" where
  "sched_need_resched c y = resched_needed c y"

definition sched_postsched :: "nat \<Rightarrow> system \<Rightarrow> system panicking" where
  "sched_postsched c y = sched_exit_free c y"

definition sched_tick :: "nat \<Rightarrow> system \<Rightarrow> system panicking" where
  "sched_tick c y = schedule_async c y"

definition init_sched :: "nat \<Rightarrow> system \<Rightarrow> tref \<Rightarrow> tref \<Rightarrow> system" where
  "init_sched c y idle_thr boot_thr =
     y\<lparr>scheds := (scheds y)[c := sched_timer_start (scheduler_init idle_thr boot_thr)],
       threads := (threads y)(boot_thr := (threads y boot_thr)\<lparr>on_cpu := c\<rparr>)\<rparr>"

definition sched_init_ap :: "nat \<Rightarrow> system \<Rightarrow> tref \<Rightarrow> tref \<Rightarrow> system" where
  "sched_init_ap c y idle_thr boot_thr =
     y\<lparr>scheds := (scheds y)[c := scheduler_init idle_thr boot_thr],
       threads := (threads y)(boot_thr := (threads y boot_thr)\<lparr>on_cpu := c\<rparr>)\<rparr>"

subsection \<open>The run queues as one sequence\<close>

text \<open>
  \<open>scan p\<close> lists the queues in the order in which the scheduler looks at them, starting at the
  ring pointer \<open>p\<close>; \<open>order\<close> is the sequence in which the queued threads are chosen.
\<close>

definition scan :: "nat \<Rightarrow> nat list" where
  "scan p = [p..<SCHEDQ_NLIST] @ [0..<p]"

definition order :: "scheduler \<Rightarrow> tref list" where
  "order s = runq_intr s @ concat (map ((!) (runq s)) (scan (runq_ptr s)))"

definition sched_ok :: "scheduler \<Rightarrow> bool" where
  "sched_ok s \<longleftrightarrow> length (runq s) = SCHEDQ_NLIST \<and> runq_ptr s < SCHEDQ_NLIST \<and>
     (\<forall>i < SCHEDQ_NLIST. bit (not_empty s) i \<longleftrightarrow> runq s ! i \<noteq> []) \<and> nthread s = length (order s)"

lemma upt_split: "i \<le> j \<Longrightarrow> j \<le> k \<Longrightarrow> [i..<k] = [i..<j] @ [j..<k]"
  by (metis le_Suc_ex upt_add_eq_append)

lemma upt_split_at: "i \<le> j \<Longrightarrow> j < k \<Longrightarrow> [i..<k] = [i..<j] @ j # [Suc j..<k]"
  using upt_split [of i j k] by (simp add: upt_conv_Cons)

lemma scan_split:
  assumes "scan p = pre @ i # post" "p < SCHEDQ_NLIST"
  shows "scan i = i # post @ pre" "i \<notin> set pre" "i \<notin> set post" "i < SCHEDQ_NLIST" "set pre \<subseteq> {..<SCHEDQ_NLIST}"
    "set post \<subseteq> {..<SCHEDQ_NLIST}"
proof -
  have d: "distinct (scan p)" and st: "set (scan p) = {..<SCHEDQ_NLIST}" using assms(2) by (auto simp: scan_def)
  show n: "i \<notin> set pre" "i \<notin> set post" using d assms(1) by auto
  show lt: "i < SCHEDQ_NLIST" "set pre \<subseteq> {..<SCHEDQ_NLIST}" "set post \<subseteq> {..<SCHEDQ_NLIST}"
    using st assms(1) by auto
  have uniq: "pre = a \<and> post = b" if "scan p = a @ i # b" for a b
    using that assms(1) append_Cons_eq_iff [OF n] by metis
  show "scan i = i # post @ pre"
  proof (cases "p \<le> i")
    case True
    then have "pre = [p..<i] \<and> post = [Suc i..<SCHEDQ_NLIST] @ [0..<p]"
      using lt(1) by (intro uniq) (simp add: scan_def upt_split_at [of p i SCHEDQ_NLIST])
    moreover have "[0..<i] = [0..<p] @ [p..<i]" "[i..<SCHEDQ_NLIST] = i # [Suc i..<SCHEDQ_NLIST]"
      using True lt(1) by (auto intro: upt_split upt_conv_Cons)
    ultimately show ?thesis by (simp add: scan_def)
  next
    case False
    then have "pre = [p..<SCHEDQ_NLIST] @ [0..<i] \<and> post = [Suc i..<p]"
      by (intro uniq) (simp add: scan_def upt_split_at [of 0 i p])
    moreover have "[i..<SCHEDQ_NLIST] = i # [Suc i..<p] @ [p..<SCHEDQ_NLIST]"
      using False assms(2) upt_split [of i p SCHEDQ_NLIST] upt_conv_Cons [of i p] by simp
    ultimately show ?thesis by (simp add: scan_def)
  qed
qed

lemma first_nonempty:
  assumes "\<exists>i \<in> set xs. q i \<noteq> []"
  obtains pre i post where "xs = pre @ i # post" "\<forall>j \<in> set pre. q j = []" "q i \<noteq> []"
  using split_list_first_prop [OF assms] by blast

lemma ffs_drop:
  assumes "bit (w :: u32) i" "p \<le> i" "\<forall>j. p \<le> j \<and> j < i \<longrightarrow> \<not> bit w j"
  shows "ffs (drop_bit p w) = Suc (i - p)"
  using assms by (auto simp: ffs_Suc_iff bit_drop_bit_eq)

text \<open>The queue that the two searches of \<^verbatim>\<open>sched_choose\<close> find is the first non-empty one of the scan.\<close>

lemma choose_ptr:
  assumes ok: "length q = SCHEDQ_NLIST" "p < SCHEDQ_NLIST" "\<forall>i < SCHEDQ_NLIST. bit (w :: u32) i \<longleftrightarrow> q ! i \<noteq> []"
    and sp: "scan p = pre @ i # post" "\<forall>j \<in> set pre. q ! j = []" "q ! i \<noteq> []"
  shows "w \<noteq> 0" "(if ffs (drop_bit p w) \<noteq> 0 then ffs (drop_bit p w) + p else ffs w) = Suc i"
proof -
  note s = scan_split [OF sp(1) ok(2)]
  have i: "bit w i" using ok(3) s(4) sp(3) by blast
  then show "w \<noteq> 0" by auto
  have none: "\<not> bit w j" if "j \<in> set pre" for j using ok(3) s(5) sp(2) that by blast
  show "(if ffs (drop_bit p w) \<noteq> 0 then ffs (drop_bit p w) + p else ffs w) = Suc i"
  proof (cases "p \<le> i")
    case True
    have "j \<in> set pre" if "p \<le> j" "j < i" for j
    proof -
      have "scan p = [p..<i] @ i # [Suc i..<SCHEDQ_NLIST] @ [0..<p]"
        using True s(4) by (simp add: scan_def upt_split_at [of p i SCHEDQ_NLIST])
      then have "pre = [p..<i]" using sp(1) append_Cons_eq_iff [OF s(2,3)] by metis
      with that show ?thesis by simp
    qed
    with none True i have "ffs (drop_bit p w) = Suc (i - p)" by (intro ffs_drop) auto
    with True show ?thesis by simp
  next
    case False
    have "scan p = ([p..<SCHEDQ_NLIST] @ [0..<i]) @ i # [Suc i..<p]"
      using False by (simp add: scan_def upt_split_at [of 0 i p])
    then have pre: "pre = [p..<SCHEDQ_NLIST] @ [0..<i]" using sp(1) append_Cons_eq_iff [OF s(2,3)] by metis
    have "\<not> bit w (p + n)" for n
    proof (cases "p + n < SCHEDQ_NLIST")
      case True
      then show ?thesis by (intro none) (simp add: pre)
    next
      case False
      then show ?thesis by (intro notI) (drule bit_imp_le_length, simp add: SCHEDQ_NLIST_def)
    qed
    then have "drop_bit p w = 0" by (simp add: bit_eq_iff bit_drop_bit_eq)
    moreover have "ffs w = Suc i" unfolding ffs_Suc_iff using i none pre False by auto
    ultimately show ?thesis by (simp add: ffs_0_iff)
  qed
qed

definition chosen :: "threads \<Rightarrow> tref \<Rightarrow> threads" where
  "chosen th t = th(t := (th t)\<lparr>runq_idx := 255, state := THREAD_RUNNING\<rparr>)"

lemma sched_choose_order:
  assumes ok: "sched_ok s" and ne: "order s = t # rest" and st: "state (th t) \<noteq> THREAD_EXIT"
  obtains s' where "sched_choose s th = Some (t, s', chosen th t)" "order s' = rest" "sched_ok s'"
    "idle s' = idle s" "cur s' = cur s" "exit_thread s' = exit_thread s" "timer_on s' = timer_on s" "resched s' = resched s"
proof -
  have n: "nthread s \<noteq> 0" using ok ne by (simp add: sched_ok_def)
  show ?thesis
  proof (cases "runq_intr s")
    case (Cons u q)
    with ne have u: "u = t" "rest = q @ concat (map ((!) (runq s)) (scan (runq_ptr s)))" by (auto simp: order_def)
    let ?s = "s\<lparr>nthread := nthread s - 1, runq_intr := q\<rparr>"
    have "sched_choose s th = Some (t, ?s, chosen th t)"
      using n Cons u(1) st by (simp add: sched_choose_def chosen_def)
    moreover have "order ?s = rest" using u(2) by (simp add: order_def)
    ultimately show ?thesis using ok ne by (intro that [of ?s]) (auto simp: sched_ok_def)
  next
    case Nil
    let ?q = "runq s" and ?p = "runq_ptr s"
    have o: "concat (map ((!) ?q) (scan ?p)) = t # rest" using ne Nil by (simp add: order_def)
    then have "\<exists>i \<in> set (scan ?p). ?q ! i \<noteq> []" by (metis concat_eq_Nil_conv list.distinct(1) list.set_map imageE)
    then obtain pre i post where sp: "scan ?p = pre @ i # post" "\<forall>j \<in> set pre. ?q ! j = []" "?q ! i \<noteq> []"
      by (rule first_nonempty)
    have okd: "length ?q = SCHEDQ_NLIST" "?p < SCHEDQ_NLIST"
      "\<forall>i < SCHEDQ_NLIST. bit (not_empty s) i \<longleftrightarrow> ?q ! i \<noteq> []" "nthread s = length (order s)"
      using ok by (auto simp: sched_ok_def)
    note sc = scan_split [OF sp(1) okd(2)] and ptr = choose_ptr [OF okd(1-3) sp]
    obtain u r where ur: "?q ! i = u # r" using sp(3) by (cases "?q ! i") auto
    have pre0: "concat (map ((!) ?q) pre) = []" using sp(2) by simp
    have tr: "u = t" "rest = r @ concat (map ((!) ?q) post)"
      using o pre0 ur unfolding sp(1) by auto
    let ?ne = "if r = [] then not_empty s AND NOT (2 ^ i) else not_empty s"
    let ?s = "s\<lparr>nthread := nthread s - 1, runq := ?q[i := r], runq_ptr := i, not_empty := ?ne\<rparr>"
    define s1 where "s1 = s\<lparr>nthread := nthread s - 1\<rparr>"
    have s1: "runq_intr s1 = []" "not_empty s1 = not_empty s" "runq_ptr s1 = ?p" "runq s1 = ?q"
      using Nil by (simp_all add: s1_def)
    have "sched_choose s th = Some (t, s1\<lparr>runq := ?q[i := r], runq_ptr := i, not_empty := ?ne\<rparr>, chosen th t)"
      unfolding sched_choose_def Let_def if_not_P [OF n] s1_def [symmetric] s1 list.case ptr(2)
      using ptr(1) okd(1) sc(4) ur tr(1) st by (simp add: chosen_def)
    then have run: "sched_choose s th = Some (t, ?s, chosen th t)" by (simp add: s1_def)
    have other: "map ((!) (?q[i := r])) xs = map ((!) ?q) xs" if "i \<notin> set xs" for xs
      using that by (intro map_cong) (auto intro: nth_list_update_neq)
    have ord: "order ?s = rest"
      using Nil okd(1) sc(4) tr(2)
      by (simp add: order_def sc(1) other [OF sc(3)] other [OF sc(2)] pre0 del: map_eq_conv concat_eq_Nil_conv)
    have "bit ?ne j \<longleftrightarrow> (?q[i := r]) ! j \<noteq> []" if "j < SCHEDQ_NLIST" for j
      using that okd(1,3) ur sc(4)
      by (cases "j = i") (auto simp: bit_and_not_single SCHEDQ_NLIST_def)
    then have "sched_ok ?s" using okd sc(4) ord ne by (simp add: sched_ok_def)
    with run ord show ?thesis by (intro that [of ?s]) auto
  qed
qed

text \<open>Where a thread of a given priority enters the sequence.\<close>

definition add_pos :: "scheduler \<Rightarrow> sched_prio \<Rightarrow> nat" where
  "add_pos s pr = length (runq_intr s) + (if pr = SCHED_INTR \<or> pr = SCHED_IO then 0
     else length (concat (map ((!) (runq s)) (take (prio_off pr + 1) (scan (runq_ptr s))))))"

lemma length_concat_take: "length (concat (map f (take k xs))) \<le> length (concat (map f xs))"
  using append_take_drop_id [of k xs] by (metis concat_append length_append le_add1 map_append)

lemma add_pos_le: "add_pos s pr \<le> length (order s)"
  by (simp add: add_pos_def order_def length_concat_take)

definition queued :: "nat \<Rightarrow> threads \<Rightarrow> tref \<Rightarrow> sched_prio \<Rightarrow> nat \<Rightarrow> threads" where
  "queued c th t pr i = th(t := (th t)\<lparr>on_cpu := c, sched_prio := pr,
     state := (if state (th t) \<noteq> THREAD_SPAWNED then THREAD_RUNNABLE else THREAD_SPAWNED), runq_idx := i\<rparr>)"

lemma prio_off_less: "prio_off pr < SCHEDQ_NLIST"
  by (cases pr) (simp_all add: SCHEDQ_NLIST_def)

lemma scan_nth: "p < SCHEDQ_NLIST \<Longrightarrow> k < SCHEDQ_NLIST \<Longrightarrow> scan p ! k = (p + k) mod SCHEDQ_NLIST"
  by (auto simp: scan_def nth_append mod_if)

lemma scheduler_add_order:
  assumes ok: "sched_ok s" and st: "state (th t) \<noteq> THREAD_EXIT"
  obtains s' i where "scheduler_add_thread c s th t pr = Some (s', queued c th t pr i)"
    "order s' = take (add_pos s pr) (order s) @ t # drop (add_pos s pr) (order s)" "sched_ok s'"
    "idle s' = idle s" "cur s' = cur s" "exit_thread s' = exit_thread s" "timer_on s' = timer_on s" "resched s' = resched s"
proof -
  let ?q = "runq s" and ?p = "runq_ptr s"
  have okd: "length ?q = SCHEDQ_NLIST" "?p < SCHEDQ_NLIST"
    "\<forall>i < SCHEDQ_NLIST. bit (not_empty s) i \<longleftrightarrow> ?q ! i \<noteq> []" "nthread s = length (order s)"
    using ok by (auto simp: sched_ok_def)
  show ?thesis
  proof (cases "pr = SCHED_INTR")
    case True
    let ?s = "s\<lparr>nthread := nthread s + 1, runq_intr := runq_intr s @ [t]\<rparr>"
    have "scheduler_add_thread c s th t pr = Some (?s, queued c th t pr (runq_idx (th t)))"
      using True st by (simp add: scheduler_add_thread_def queued_def)
    moreover have "order ?s = take (add_pos s pr) (order s) @ t # drop (add_pos s pr) (order s)"
      using True by (simp add: order_def add_pos_def)
    ultimately show ?thesis using okd by (intro that [of ?s]) (auto simp: sched_ok_def order_def)
  next
    case False
    define k where "k = (if pr = SCHED_IO then 0 else prio_off pr)"
    define i where "i = (if pr = SCHED_IO then ?p else (?p + prio_off pr) mod SCHEDQ_NLIST)"
    define x where "x = (if pr = SCHED_IO then t # ?q ! i else ?q ! i @ [t])"
    have k: "k < SCHEDQ_NLIST" by (simp add: k_def prio_off_less) (simp add: SCHEDQ_NLIST_def)
    have i: "scan ?p ! k = i" "i < SCHEDQ_NLIST"
      using okd(2) scan_nth [OF okd(2) k] by (auto simp: i_def k_def SCHEDQ_NLIST_def)
    let ?pre = "take k (scan ?p)" and ?post = "drop (Suc k) (scan ?p)"
    have len: "length (scan ?p) = SCHEDQ_NLIST" using okd(2) by (simp add: scan_def)
    have sp: "scan ?p = ?pre @ i # ?post" using k len i(1) by (metis id_take_nth_drop)
    note sc = scan_split [OF sp okd(2)]
    let ?s = "s\<lparr>nthread := nthread s + 1, runq := ?q[i := x], not_empty := not_empty s OR 2 ^ i\<rparr>"
    have run: "scheduler_add_thread c s th t pr = Some (?s, queued c th t pr i)"
      using False st okd(1,2) i(2)
      by (cases "pr = SCHED_IO") (simp_all add: scheduler_add_thread_def queued_def x_def i_def Let_def)
    have other: "map ((!) (?q[i := x])) xs = map ((!) ?q) xs" if "i \<notin> set xs" for xs
      using that by (intro map_cong) (auto intro: nth_list_update_neq)
    let ?A = "concat (map ((!) ?q) ?pre)" and ?B = "concat (map ((!) ?q) ?post)"
    have o: "order s = runq_intr s @ ?A @ ?q ! i @ ?B"
      unfolding order_def by (subst sp) simp
    have o': "order ?s = runq_intr s @ ?A @ x @ ?B"
      unfolding order_def using okd(1) i(2)
      by (simp, subst sp) (simp add: other [OF sc(2)] other [OF sc(3)] del: map_eq_conv)
    have pos: "add_pos s pr = length (runq_intr s) + (if pr = SCHED_IO then 0 else length ?A + length (?q ! i))"
    proof (cases "pr = SCHED_IO")
      case True
      then show ?thesis by (simp add: add_pos_def)
    next
      case f: False
      then have "take (prio_off pr + 1) (scan ?p) = ?pre @ [i]"
        using k len i(1) by (simp add: k_def take_Suc_conv_app_nth)
      with f False show ?thesis by (simp add: add_pos_def k_def)
    qed
    have "?pre = []" if "pr = SCHED_IO" using that by (simp add: k_def)
    then have ord: "order ?s = take (add_pos s pr) (order s) @ t # drop (add_pos s pr) (order s)"
      unfolding o o' pos by (auto simp: x_def)
    have "bit (not_empty s OR 2 ^ i) j \<longleftrightarrow> (?q[i := x]) ! j \<noteq> []" if "j < SCHEDQ_NLIST" for j
      using that okd(1,3) i(2)
      by (cases "j = i") (auto simp: bit_or_single x_def SCHEDQ_NLIST_def)
    moreover have "length (order ?s) = nthread s + 1" using add_pos_le [of s pr] by (subst ord) (simp add: okd(4))
    ultimately have "sched_ok ?s" using okd by (simp add: sched_ok_def)
    with run ord show ?thesis by (intro that [of ?s]) auto
  qed
qed

lemma add_pos_normal:
  assumes "sched_ok s"
  shows "add_pos s SCHED_NORMAL = length (order s)"
proof -
  have "take SCHEDQ_NLIST (scan (runq_ptr s)) = scan (runq_ptr s)"
    using assms by (simp add: scan_def sched_ok_def)
  then show ?thesis by (simp add: add_pos_def order_def SCHEDQ_NLIST_def)
qed

subsection \<open>Round robin\<close>

text \<open>
  A sequence of events on one processor: a thread becomes ready at normal priority, or the
  processor chooses its next thread. The result lists the threads chosen.
\<close>

datatype sched_event = Ready tref | Switch

fun sched_run :: "nat \<Rightarrow> sched_event list \<Rightarrow> scheduler \<Rightarrow> threads \<Rightarrow> tref list panicking" where
  "sched_run c [] s th = Some []"
| "sched_run c (Ready t # es) s th = do {
     (s, th) \<leftarrow> scheduler_add_thread c s th t SCHED_NORMAL;
     sched_run c es s th }"
| "sched_run c (Switch # es) s th = do {
     (t, s, th) \<leftarrow> sched_choose s th;
     ts \<leftarrow> sched_run c es s th;
     Some (t # ts) }"

definition switches :: "sched_event list \<Rightarrow> nat" where
  "switches es = length (filter (\<lambda>e. e = Switch) es)"

definition readied :: "sched_event list \<Rightarrow> tref set" where
  "readied es = {t. Ready t \<in> set es}"

lemma chosen_live: "state (th u) \<noteq> THREAD_EXIT \<Longrightarrow> state (chosen th t u) \<noteq> THREAD_EXIT"
  by (simp add: chosen_def)

lemma queued_live: "state (th u) \<noteq> THREAD_EXIT \<Longrightarrow> state (queued c th t pr i u) \<noteq> THREAD_EXIT"
  by (simp add: queued_def)

lemma sched_run_total:
  "sched_ok s \<Longrightarrow> \<forall>t \<in> set (order s) \<union> readied es. state (th t) \<noteq> THREAD_EXIT \<Longrightarrow>
   \<exists>ts. sched_run c es s th = Some ts \<and> length ts = switches es \<and>
     (\<forall>n < min (switches es) (length (order s)). ts ! n = order s ! n)"
proof (induction es arbitrary: s th)
  case Nil
  then show ?case by (simp add: switches_def)
next
  case (Cons e es)
  show ?case
  proof (cases e)
    case (Ready t)
    with Cons.prems have live: "state (th t) \<noteq> THREAD_EXIT" by (simp add: readied_def)
    obtain s' i where s': "scheduler_add_thread c s th t SCHED_NORMAL = Some (s', queued c th t SCHED_NORMAL i)"
      "order s' = take (add_pos s SCHED_NORMAL) (order s) @ t # drop (add_pos s SCHED_NORMAL) (order s)" "sched_ok s'"
      by (rule scheduler_add_order [of s th t, OF Cons.prems(1) live])
    then have o: "order s' = order s @ [t]" using add_pos_normal [OF Cons.prems(1)] by simp
    have "\<forall>u \<in> set (order s') \<union> readied es. state (queued c th t SCHED_NORMAL i u) \<noteq> THREAD_EXIT"
      using Cons.prems(2) live unfolding o by (intro ballI queued_live) (auto simp: readied_def)
    from Cons.IH [OF s'(3) this] obtain ts where ts: "sched_run c es s' (queued c th t SCHED_NORMAL i) = Some ts"
      "length ts = switches es" "\<forall>n < min (switches es) (length (order s')). ts ! n = order s' ! n" by blast
    have "ts ! n = order s ! n" if "n < min (switches es) (length (order s))" for n
      using ts(3) that by (auto simp: o nth_append)
    with ts(1,2) s'(1) Ready show ?thesis by (simp add: switches_def)
  next
    case Switch
    show ?thesis
    proof (cases "order s")
      case Nil
      have "sched_choose s th = Some (idle s, s, th)"
        using Nil Cons.prems(1) by (simp add: sched_choose_def sched_ok_def)
      moreover have "\<forall>u \<in> set (order s) \<union> readied es. state (th u) \<noteq> THREAD_EXIT"
        using Cons.prems(2) by (auto simp: readied_def)
      from Cons.IH [OF Cons.prems(1) this] obtain ts where "sched_run c es s th = Some ts" "length ts = switches es"
        by blast
      ultimately show ?thesis using Switch Nil by (simp add: switches_def)
    next
      case (Cons t rest)
      then have live: "state (th t) \<noteq> THREAD_EXIT" using Cons.prems(2) by simp
      obtain s' where s': "sched_choose s th = Some (t, s', chosen th t)" "order s' = rest" "sched_ok s'"
        by (rule sched_choose_order [of s t rest th, OF Cons.prems(1) Cons live])
      have "\<forall>u \<in> set (order s') \<union> readied es. state (chosen th t u) \<noteq> THREAD_EXIT"
        using Cons.prems(2) Cons s'(2) by (intro ballI chosen_live) (auto simp: readied_def)
      from Cons.IH [OF s'(3) this] obtain ts where ts: "sched_run c es s' (chosen th t) = Some ts"
        "length ts = switches es" "\<forall>n < min (switches es) (length rest). ts ! n = rest ! n"
        unfolding s'(2) by blast
      have "(t # ts) ! n = order s ! n" if "n < min (Suc (switches es)) (length (order s))" for n
        using ts(3) that Cons by (cases n) auto
      with ts(1,2) s'(1) Switch show ?thesis by (simp add: switches_def)
    qed
  qed
qed

lemma scheduler_init_ok: "sched_ok (scheduler_init i b)" "order (scheduler_init i b) = []"
  by (auto simp: sched_ok_def scheduler_init_def order_def scan_def SCHEDQ_NLIST_def)

subsection \<open>Properties\<close>

text \<open>C18. The 32 run queues, the bit set of non-empty queues and the ring pointer implement one
  sequence of threads: choosing a thread takes the head of the sequence, and adding a thread
  inserts it at the place its priority gives, at the end for normal threads.\<close>

theorem sched_refines_sequence:
  assumes "sched_ok s" "\<forall>u \<in> set (order s). state (th u) \<noteq> THREAD_EXIT" "state (th t) \<noteq> THREAD_EXIT"
  shows "(\<exists>s' th'. scheduler_add_thread c s th t pr = Some (s', th') \<and> sched_ok s' \<and>
      order s' = take (add_pos s pr) (order s) @ t # drop (add_pos s pr) (order s) \<and>
      (pr = SCHED_NORMAL \<longrightarrow> order s' = order s @ [t])) \<and>
    (\<exists>s' th'. sched_choose s th = Some (hd (order s @ [idle s]), s', th') \<and> sched_ok s' \<and> order s' = tl (order s))"
proof
  obtain s' i where s': "scheduler_add_thread c s th t pr = Some (s', queued c th t pr i)"
    "order s' = take (add_pos s pr) (order s) @ t # drop (add_pos s pr) (order s)" "sched_ok s'"
    by (rule scheduler_add_order [of s th t, OF assms(1,3)])
  then show "\<exists>s' th'. scheduler_add_thread c s th t pr = Some (s', th') \<and> sched_ok s' \<and>
      order s' = take (add_pos s pr) (order s) @ t # drop (add_pos s pr) (order s) \<and>
      (pr = SCHED_NORMAL \<longrightarrow> order s' = order s @ [t])"
    using add_pos_normal [OF assms(1)] by auto
  show "\<exists>s' th'. sched_choose s th = Some (hd (order s @ [idle s]), s', th') \<and> sched_ok s' \<and> order s' = tl (order s)"
  proof (cases "order s")
    case Nil
    then show ?thesis using assms(1) by (simp add: sched_choose_def sched_ok_def)
  next
    case (Cons u rest)
    then have "state (th u) \<noteq> THREAD_EXIT" using assms(2) by simp
    from sched_choose_order [of s u rest th, OF assms(1) Cons this] Cons show ?thesis by (metis append_Cons list.sel)
  qed
qed

definition some_thread :: thread where
  "some_thread = \<lparr> state = THREAD_SPAWNED, prio = SCHED_NORMAL, sched_prio = SCHED_NORMAL, on_cpu = 0,
     runq_idx = 255, do_sleep = False, interruptable = False, interrupted = False, restartsys = False,
     intr = 0, proc = 0 \<rparr>"

lemma some_thread_live: "state some_thread \<noteq> THREAD_EXIT"
  by (simp add: some_thread_def)

theorem sched_refines_sequence_witness:
  "\<exists>s' th'. scheduler_add_thread 0 (scheduler_init 0 1) (\<lambda>_. some_thread) 7 SCHED_NORMAL = Some (s', th') \<and> order s' = [7]"
  using sched_refines_sequence [OF scheduler_init_ok(1), of 0 1 "\<lambda>_. some_thread" 7 0 SCHED_NORMAL]
    some_thread_live scheduler_init_ok(2) [of 0 1]
  by auto

text \<open>C19. Round robin: while other threads only become ready at normal priority, a thread that has
  \<open>n\<close> threads before it is the one that runs after the \<open>n\<close>-th following switch, whatever becomes
  ready in between.\<close>

theorem sched_bounded_wait:
  assumes "sched_ok s" "\<forall>t \<in> set (order s) \<union> readied es. state (th t) \<noteq> THREAD_EXIT"
    and "n < length (order s)" "n < switches es"
  shows "\<exists>ts. sched_run c es s th = Some ts \<and> ts ! n = order s ! n"
  using sched_run_total [OF assms(1,2)] assms(3,4) by auto

lemma one_ready: "\<exists>s. sched_ok s \<and> order s = [7]"
proof -
  obtain s' i where "sched_ok s'"
    "order s' = take (add_pos (scheduler_init 0 1) SCHED_NORMAL) (order (scheduler_init 0 1)) @ 7 #
      drop (add_pos (scheduler_init 0 1) SCHED_NORMAL) (order (scheduler_init 0 1))"
    by (rule scheduler_add_order [of "scheduler_init 0 1" "\<lambda>_. some_thread" 7, OF scheduler_init_ok(1) some_thread_live])
  then show ?thesis by (auto simp: scheduler_init_ok)
qed

theorem sched_bounded_wait_witness:
  "\<exists>s ts. order s = [7] \<and> sched_run 0 [Ready 8, Switch, Ready 9] s (\<lambda>_. some_thread) = Some ts \<and> ts ! 0 = 7"
proof -
  obtain s where s: "sched_ok s" "order s = [7]" using one_ready by blast
  have "\<exists>ts. sched_run 0 [Ready 8, Switch, Ready 9] s (\<lambda>_. some_thread) = Some ts \<and> ts ! 0 = order s ! 0"
    using s some_thread_live by (intro sched_bounded_wait) (auto simp: switches_def)
  with s(2) show ?thesis by auto
qed

end
