(* ===== verification/Sched_Inv.thy ===== *)
theory Sched_Inv
  imports Sched
begin

text \<open>
  The scheduler invariant over all threads and processors: every runnable thread is in exactly
  one run queue, every running thread is the current thread of its processor, a sleeping
  thread is in no queue. \<open>sinv A\<close> is the invariant in which only the processors of \<open>A\<close> have a
  current thread, so that it also describes the middle of a context switch.
\<close>

subsection \<open>One processor\<close>

definition queue_inv :: "nat \<Rightarrow> scheduler \<Rightarrow> threads \<Rightarrow> bool" where
  "queue_inv c s th \<longleftrightarrow> sched_ok s \<and> distinct (order s) \<and>
     (\<forall>t \<in> set (order s). (state (th t) = THREAD_RUNNABLE \<or> state (th t) = THREAD_SPAWNED) \<and> on_cpu (th t) = c)"

lemma order_upd [simp]:
  "order (s\<lparr>resched := b\<rparr>) = order s" "order (s\<lparr>cur := k\<rparr>) = order s" "order (s\<lparr>timer_on := b\<rparr>) = order s"
  "order (s\<lparr>exit_thread := k\<rparr>) = order s"
  by (simp_all add: order_def)

lemma sched_ok_upd [simp]:
  "sched_ok (s\<lparr>resched := b\<rparr>) = sched_ok s" "sched_ok (s\<lparr>cur := k\<rparr>) = sched_ok s"
  "sched_ok (s\<lparr>timer_on := b\<rparr>) = sched_ok s" "sched_ok (s\<lparr>exit_thread := k\<rparr>) = sched_ok s"
  by (simp_all add: sched_ok_def)

lemma queue_inv_upd [simp]:
  "queue_inv c (s\<lparr>resched := b\<rparr>) th = queue_inv c s th" "queue_inv c (s\<lparr>cur := k\<rparr>) th = queue_inv c s th"
  "queue_inv c (s\<lparr>timer_on := b\<rparr>) th = queue_inv c s th" "queue_inv c (s\<lparr>exit_thread := k\<rparr>) th = queue_inv c s th"
  by (simp_all add: queue_inv_def)

lemma queue_inv_frame:
  assumes "queue_inv c s th" "\<And>t. t \<in> set (order s) \<Longrightarrow> state (th' t) = state (th t) \<and> on_cpu (th' t) = on_cpu (th t)"
  shows "queue_inv c s th'"
  using assms by (auto simp: queue_inv_def)

lemma queue_add:
  assumes q: "queue_inv c s th" "t \<notin> set (order s)" "state (th t) \<noteq> THREAD_EXIT"
  obtains s' i where "scheduler_add_thread c s th t pr = Some (s', queued c th t pr i)"
    "queue_inv c s' (queued c th t pr i)" "set (order s') = insert t (set (order s))"
    "idle s' = idle s" "cur s' = cur s" "exit_thread s' = exit_thread s"
proof -
  have ok: "sched_ok s" using q(1) by (simp add: queue_inv_def)
  obtain s' i where s': "scheduler_add_thread c s th t pr = Some (s', queued c th t pr i)"
    "order s' = take (add_pos s pr) (order s) @ t # drop (add_pos s pr) (order s)" "sched_ok s'"
    "idle s' = idle s" "cur s' = cur s" "exit_thread s' = exit_thread s"
    by (rule scheduler_add_order [of s th t, OF ok q(3)])
  have st: "set (order s') = insert t (set (order s))"
    using append_take_drop_id [of "add_pos s pr" "order s"] unfolding s'(2)
    by (metis Un_insert_right list.simps(15) set_append)
  have "distinct (order s')"
    using q append_take_drop_id [of "add_pos s pr" "order s"] unfolding s'(2) queue_inv_def
    by (metis (no_types, lifting) Un_iff distinct.simps(2) distinct_append disjoint_insert(2) list.simps(15) set_append)
  moreover have "(state (queued c th t pr i u) = THREAD_RUNNABLE \<or> state (queued c th t pr i u) = THREAD_SPAWNED) \<and>
      on_cpu (queued c th t pr i u) = c" if "u \<in> set (order s')" for u
    using that q unfolding st by (auto simp: queued_def queue_inv_def)
  ultimately have "queue_inv c s' (queued c th t pr i)" using s'(3) by (auto simp: queue_inv_def)
  from that [OF s'(1) this st s'(4-6)] show ?thesis .
qed

lemma queue_states: "queue_inv d s th \<Longrightarrow> t \<in> set (order s) \<Longrightarrow>
    (state (th t) = THREAD_RUNNABLE \<or> state (th t) = THREAD_SPAWNED) \<and> on_cpu (th t) = d"
  by (simp add: queue_inv_def)

lemma queue_choose:
  assumes q: "queue_inv c s th" "order s = t # rest"
  obtains s' where "sched_choose s th = Some (t, s', chosen th t)" "queue_inv c s' (chosen th t)" "order s' = rest"
    "idle s' = idle s" "cur s' = cur s" "exit_thread s' = exit_thread s"
proof -
  have ok: "sched_ok s" "distinct (t # rest)" using q(1) unfolding queue_inv_def q(2) by blast+
  note qs = queue_states [OF q(1), unfolded q(2)]
  have st: "state (th t) \<noteq> THREAD_EXIT" using qs [of t] by auto
  obtain s' where s': "sched_choose s th = Some (t, s', chosen th t)" "order s' = rest" "sched_ok s'"
    "idle s' = idle s" "cur s' = cur s" "exit_thread s' = exit_thread s"
    by (rule sched_choose_order [of s t rest th, OF ok(1) q(2) st])
  have "queue_inv c s' (chosen th t)"
    unfolding queue_inv_def s'(2)
  proof (intro conjI ballI)
    fix u assume u: "u \<in> set rest"
    then have "u \<noteq> t" using ok(2) by auto
    with qs [of u] u show "state (chosen th t u) = THREAD_RUNNABLE \<or> state (chosen th t u) = THREAD_SPAWNED"
      "on_cpu (chosen th t u) = c" by (simp_all add: chosen_def)
  qed (use s'(3) ok(2) in auto)
  from that [OF s'(1) this s'(2) s'(4-6)] show ?thesis .
qed

subsection \<open>All processors\<close>

definition sinv :: "nat set \<Rightarrow> scheduler list \<Rightarrow> threads \<Rightarrow> bool" where
  "sinv A sc th \<longleftrightarrow>
     (\<forall>d < length sc. queue_inv d (sc ! d) th) \<and>
     (\<forall>d \<in> A. d < length sc \<and> (\<exists>t. cur (sc ! d) = Some t \<and> (t = idle (sc ! d) \<or>
        on_cpu (th t) = d \<and> (state (th t) = THREAD_RUNNING \<or> state (th t) = THREAD_EXIT)))) \<and>
     (\<forall>t. state (th t) = THREAD_RUNNING \<longrightarrow> on_cpu (th t) \<in> A \<and> cur (sc ! on_cpu (th t)) = Some t) \<and>
     (\<forall>t. state (th t) = THREAD_SLEEP \<longrightarrow> on_cpu (th t) < length sc) \<and>
     (\<forall>t. state (th t) = THREAD_RUNNABLE \<longrightarrow> on_cpu (th t) < length sc \<and> t \<in> set (order (sc ! on_cpu (th t)))) \<and>
     (\<forall>t. do_sleep (th t) \<longrightarrow> state (th t) = THREAD_RUNNING) \<and>
     (\<forall>t. interrupted (th t) \<longrightarrow> \<not> interruptable (th t)) \<and>
     (\<forall>d < length sc. state (th (idle (sc ! d))) = THREAD_SPAWNED \<and>
        (\<forall>e < length sc. idle (sc ! d) \<notin> set (order (sc ! e))))"

definition sys_inv :: "system \<Rightarrow> bool" where
  "sys_inv y \<longleftrightarrow> sinv {..<length (scheds y)} (scheds y) (threads y) \<and> length (running y) = length (scheds y) \<and>
     (\<forall>s \<in> set (scheds y). exit_thread s = None)"

lemma sinvD:
  assumes "sinv A sc th"
  shows sinv_queue: "d < length sc \<Longrightarrow> queue_inv d (sc ! d) th"
    and sinv_cur: "d \<in> A \<Longrightarrow> d < length sc \<and> (\<exists>t. cur (sc ! d) = Some t \<and> (t = idle (sc ! d) \<or>
        on_cpu (th t) = d \<and> (state (th t) = THREAD_RUNNING \<or> state (th t) = THREAD_EXIT)))"
    and sinv_running: "state (th t) = THREAD_RUNNING \<Longrightarrow> on_cpu (th t) \<in> A \<and> cur (sc ! on_cpu (th t)) = Some t"
    and sinv_sleep: "state (th t) = THREAD_SLEEP \<Longrightarrow> on_cpu (th t) < length sc"
    and sinv_runnable: "state (th t) = THREAD_RUNNABLE \<Longrightarrow> on_cpu (th t) < length sc \<and> t \<in> set (order (sc ! on_cpu (th t)))"
    and sinv_do_sleep: "do_sleep (th t) \<Longrightarrow> state (th t) = THREAD_RUNNING"
    and sinv_intr: "interrupted (th t) \<Longrightarrow> \<not> interruptable (th t)"
    and sinv_idle: "d < length sc \<Longrightarrow> state (th (idle (sc ! d))) = THREAD_SPAWNED"
    and sinv_idle_queue: "d < length sc \<Longrightarrow> e < length sc \<Longrightarrow> idle (sc ! d) \<notin> set (order (sc ! e))"
  using assms unfolding sinv_def by blast+

text \<open>Changing only flags of a thread.\<close>

lemma sinv_flags:
  assumes "sinv A sc th" "state x = state (th t)" "on_cpu x = on_cpu (th t)"
    "do_sleep x \<Longrightarrow> state (th t) = THREAD_RUNNING" "interrupted x \<Longrightarrow> \<not> interruptable x"
  shows "sinv A sc (th(t := x))"
proof -
  have s: "state ((th(t := x)) u) = state (th u)" "on_cpu ((th(t := x)) u) = on_cpu (th u)" for u
    using assms(2,3) by auto
  have q: "queue_inv d (sc ! d) (th(t := x))" if "d < length sc" for d
    using sinv_queue [OF assms(1) that] by (rule queue_inv_frame) (use s in blast)
  have "do_sleep ((th(t := x)) u) \<Longrightarrow> state (th u) = THREAD_RUNNING" for u
    using assms(4) sinv_do_sleep [OF assms(1)] by (cases "u = t") auto
  moreover have "interrupted ((th(t := x)) u) \<Longrightarrow> \<not> interruptable ((th(t := x)) u)" for u
    using assms(5) sinv_intr [OF assms(1)] by (cases "u = t") auto
  ultimately show ?thesis
    using assms(1) q unfolding sinv_def s by blast
qed

text \<open>Changing fields of a scheduler that do not matter to the invariant.\<close>

lemma sinv_sched_fields:
  assumes "sinv A sc th" "b < length sc" "order s' = order (sc ! b)" "sched_ok s' = sched_ok (sc ! b)"
    "cur s' = cur (sc ! b)" "idle s' = idle (sc ! b)"
  shows "sinv A (sc[b := s']) th"
proof -
  have e: "order (sc[b := s'] ! d) = order (sc ! d)" "cur (sc[b := s'] ! d) = cur (sc ! d)"
    "idle (sc[b := s'] ! d) = idle (sc ! d)" "queue_inv d (sc[b := s'] ! d) th = queue_inv d (sc ! d) th"
    if "d < length sc" for d
    using assms(2-6) that by (cases "d = b"; simp add: queue_inv_def)+
  show ?thesis
    unfolding sinv_def length_list_update
  proof (intro conjI)
    show "\<forall>d \<in> A. d < length sc \<and> (\<exists>t. cur (sc[b := s'] ! d) = Some t \<and> (t = idle (sc[b := s'] ! d) \<or>
        on_cpu (th t) = d \<and> (state (th t) = THREAD_RUNNING \<or> state (th t) = THREAD_EXIT)))"
      using sinv_cur [OF assms(1)] e by metis
    show "\<forall>t. state (th t) = THREAD_RUNNING \<longrightarrow> on_cpu (th t) \<in> A \<and> cur (sc[b := s'] ! on_cpu (th t)) = Some t"
      using sinv_cur [OF assms(1)] sinv_running [OF assms(1)] e by metis
  qed (use assms(1) e in \<open>auto simp: sinv_def\<close>)
qed

text \<open>A thread enters the queue of a processor.\<close>

lemma sinv_enqueue:
  assumes i: "sinv A sc th" and b: "b < length sc" and t: "state (th t) \<noteq> THREAD_EXIT" "state (th t) \<noteq> THREAD_RUNNING"
    "\<forall>d < length sc. t \<notin> set (order (sc ! d))" "\<forall>d < length sc. t \<noteq> idle (sc ! d)"
    and cur: "\<forall>d \<in> A. cur (sc ! d) \<noteq> Some t"
  obtains s' k where "scheduler_add_thread b (sc ! b) th t pr = Some (s', queued b th t pr k)"
    "sinv A (sc[b := s']) (queued b th t pr k)" "t \<in> set (order s')" "cur s' = cur (sc ! b)"
    "idle s' = idle (sc ! b)" "exit_thread s' = exit_thread (sc ! b)"
proof -
  obtain s' k where s': "scheduler_add_thread b (sc ! b) th t pr = Some (s', queued b th t pr k)"
    "queue_inv b s' (queued b th t pr k)" "set (order s') = insert t (set (order (sc ! b)))"
    "idle s' = idle (sc ! b)" "cur s' = cur (sc ! b)" "exit_thread s' = exit_thread (sc ! b)"
    by (rule queue_add [OF sinv_queue [OF i b] _ t(1)]) (use t(3) b in auto)
  let ?th = "queued b th t pr k" and ?sc = "sc[b := s']"
  have other: "?th u = th u" if "u \<noteq> t" for u using that by (simp add: queued_def)
  have new: "state (?th t) = THREAD_RUNNABLE \<or> state (?th t) = THREAD_SPAWNED" "on_cpu (?th t) = b"
    "do_sleep (?th t) = do_sleep (th t)" "interrupted (?th t) = interrupted (th t)"
    "interruptable (?th t) = interruptable (th t)"
    by (simp_all add: queued_def)
  have e: "cur (?sc ! d) = cur (sc ! d)" "idle (?sc ! d) = idle (sc ! d)" if "d < length sc" for d
    using that b s'(4,5) by (cases "d = b"; simp)+
  have o: "set (order (?sc ! d)) = (if d = b then insert t (set (order (sc ! d))) else set (order (sc ! d)))"
    if "d < length sc" for d using that s'(3) by simp
  have "sinv A ?sc ?th"
    unfolding sinv_def length_list_update
  proof (intro conjI)
    show "\<forall>d < length sc. queue_inv d (?sc ! d) ?th"
    proof (intro allI impI)
      fix d assume d: "d < length sc"
      show "queue_inv d (?sc ! d) ?th"
      proof (cases "d = b")
        case False
        have "queue_inv d (sc ! d) ?th"
          by (rule queue_inv_frame [OF sinv_queue [OF i d]]) (use t(3) d other in metis)
        with False show ?thesis by simp
      qed (use s'(2) b in simp)
    qed
    show "\<forall>d \<in> A. d < length sc \<and> (\<exists>u. cur (?sc ! d) = Some u \<and> (u = idle (?sc ! d) \<or>
        on_cpu (?th u) = d \<and> (state (?th u) = THREAD_RUNNING \<or> state (?th u) = THREAD_EXIT)))"
    proof
      fix d assume d: "d \<in> A"
      with sinv_cur [OF i d] obtain u where u: "d < length sc" "cur (sc ! d) = Some u" "u = idle (sc ! d) \<or>
        on_cpu (th u) = d \<and> (state (th u) = THREAD_RUNNING \<or> state (th u) = THREAD_EXIT)" by blast
      then have "u \<noteq> t" using cur d by auto
      with u e other show "d < length sc \<and> (\<exists>u. cur (?sc ! d) = Some u \<and> (u = idle (?sc ! d) \<or>
        on_cpu (?th u) = d \<and> (state (?th u) = THREAD_RUNNING \<or> state (?th u) = THREAD_EXIT)))" by auto
    qed
    show "\<forall>u. state (?th u) = THREAD_RUNNING \<longrightarrow> on_cpu (?th u) \<in> A \<and> cur (?sc ! on_cpu (?th u)) = Some u"
      using sinv_running [OF i] sinv_cur [OF i] new(1) other e by (metis thread_state.distinct(1,9) thread_state.distinct(2))
    show "\<forall>u. state (?th u) = THREAD_SLEEP \<longrightarrow> on_cpu (?th u) < length sc"
      using sinv_sleep [OF i] new other b by metis
    show "\<forall>u. state (?th u) = THREAD_RUNNABLE \<longrightarrow> on_cpu (?th u) < length sc \<and> u \<in> set (order (?sc ! on_cpu (?th u)))"
    proof (intro allI impI)
      fix u assume u: "state (?th u) = THREAD_RUNNABLE"
      show "on_cpu (?th u) < length sc \<and> u \<in> set (order (?sc ! on_cpu (?th u)))"
      proof (cases "u = t")
        case True
        then show ?thesis using new(2) o [OF b] b by simp
      next
        case False
        with u other sinv_runnable [OF i, of u] o show ?thesis by auto
      qed
    qed
    show "\<forall>u. do_sleep (?th u) \<longrightarrow> state (?th u) = THREAD_RUNNING"
      using sinv_do_sleep [OF i] new(3) other t(2) by metis
    show "\<forall>u. interrupted (?th u) \<longrightarrow> \<not> interruptable (?th u)"
      using sinv_intr [OF i] new(4,5) other by metis
    show "\<forall>d < length sc. state (?th (idle (?sc ! d))) = THREAD_SPAWNED \<and>
        (\<forall>f < length sc. idle (?sc ! d) \<notin> set (order (?sc ! f)))"
      using sinv_idle [OF i] sinv_idle_queue [OF i] t(4) other e o by auto
  qed
  from that [OF s'(1) this _ s'(5,4,6)] s'(3) show ?thesis by simp
qed

text \<open>The current thread of a processor gives it up.\<close>

lemma sinv_leave:
  assumes i: "sinv A sc th" and c: "c \<in> A" "cur (sc ! c) = Some t" and st: "state (th t) \<noteq> THREAD_RUNNING"
  shows "sinv (A - {c}) sc th"
proof -
  have "on_cpu (th u) \<noteq> c" if "state (th u) = THREAD_RUNNING" for u
    using sinv_running [OF i that] c(2) st that by auto
  with i show ?thesis unfolding sinv_def by blast
qed

lemma sinv_retire:
  assumes i: "sinv A sc th" and c: "c \<in> A" "cur (sc ! c) = Some t" and st: "state (th t) = THREAD_RUNNING"
  shows "sinv (A - {c}) sc (th(t := (th t)\<lparr>do_sleep := False, state := THREAD_SLEEP\<rparr>))"
proof -
  let ?th = "th(t := (th t)\<lparr>do_sleep := False, state := THREAD_SLEEP\<rparr>)"
  have oc: "on_cpu (th t) = c"
  proof -
    have "on_cpu (th t) \<in> A" "cur (sc ! on_cpu (th t)) = Some t" using sinv_running [OF i st] by auto
    moreover from sinv_cur [OF i c(1)] c(2) st sinv_idle [OF i, of c]
    have "on_cpu (th t) = c" by auto
    ultimately show ?thesis by simp
  qed
  have n: "t \<notin> set (order (sc ! d))" if "d < length sc" for d
    using queue_states [OF sinv_queue [OF i that]] st by (metis thread_state.distinct(1,9))
  have q: "queue_inv d (sc ! d) ?th" if d: "d < length sc" for d
    by (rule queue_inv_frame [OF sinv_queue [OF i d]]) (use n [OF d] in auto)
  have cl: "c < length sc" using sinv_cur [OF i c(1)] by simp
  show ?thesis
    unfolding sinv_def
  proof (intro conjI)
    show "\<forall>d \<in> A - {c}. d < length sc \<and> (\<exists>u. cur (sc ! d) = Some u \<and> (u = idle (sc ! d) \<or>
        on_cpu (?th u) = d \<and> (state (?th u) = THREAD_RUNNING \<or> state (?th u) = THREAD_EXIT)))"
    proof
      fix d assume d: "d \<in> A - {c}"
      with sinv_cur [OF i, of d] obtain u where u: "d < length sc" "cur (sc ! d) = Some u" "u = idle (sc ! d) \<or>
        on_cpu (th u) = d \<and> (state (th u) = THREAD_RUNNING \<or> state (th u) = THREAD_EXIT)" by blast
      then have "u = t \<Longrightarrow> u = idle (sc ! d)" using oc d by auto
      with u show "d < length sc \<and> (\<exists>u. cur (sc ! d) = Some u \<and> (u = idle (sc ! d) \<or>
        on_cpu (?th u) = d \<and> (state (?th u) = THREAD_RUNNING \<or> state (?th u) = THREAD_EXIT)))" by auto
    qed
    show "\<forall>u. state (?th u) = THREAD_RUNNING \<longrightarrow> on_cpu (?th u) \<in> A - {c} \<and> cur (sc ! on_cpu (?th u)) = Some u"
      using sinv_running [OF i] c(2) by (auto split: if_splits)
    show "\<forall>d < length sc. state (?th (idle (sc ! d))) = THREAD_SPAWNED \<and>
        (\<forall>f < length sc. idle (sc ! d) \<notin> set (order (sc ! f)))"
      using sinv_idle [OF i] sinv_idle_queue [OF i] st by auto
  qed (use q i oc cl in \<open>auto simp: sinv_def split: if_splits\<close>)
qed

text \<open>A processor without a current thread chooses one.\<close>

lemma sinv_choose:
  assumes i: "sinv (A - {c}) sc th" and c: "c < length sc"
  obtains t s' th' where "sched_choose (sc ! c) th = Some (t, s', th')"
    "sinv (insert c A) (sc[c := s'\<lparr>cur := Some t\<rparr>]) th'" "idle s' = idle (sc ! c)"
    "exit_thread s' = exit_thread (sc ! c)" "\<And>u. u \<noteq> t \<Longrightarrow> th' u = th u"
    "t = idle (sc ! c) \<and> th' = th \<and> order (sc ! c) = [] \<or> t \<in> set (order (sc ! c)) \<and> th' = chosen th t"
proof (cases "order (sc ! c)")
  case Nil
  let ?s = "sc ! c"
  have q: "queue_inv c ?s th" by (rule sinv_queue [OF i c])
  then have ch: "sched_choose ?s th = Some (idle ?s, ?s, th)"
    using Nil by (simp add: sched_choose_def queue_inv_def sched_ok_def)
  have e: "order (sc[c := ?s\<lparr>cur := Some (idle ?s)\<rparr>] ! d) = order (sc ! d)"
    "idle (sc[c := ?s\<lparr>cur := Some (idle ?s)\<rparr>] ! d) = idle (sc ! d)"
    "queue_inv d (sc[c := ?s\<lparr>cur := Some (idle ?s)\<rparr>] ! d) th = queue_inv d (sc ! d) th"
    "d \<noteq> c \<Longrightarrow> sc[c := ?s\<lparr>cur := Some (idle ?s)\<rparr>] ! d = sc ! d" if "d < length sc" for d
    using that c by (cases "d = c"; simp)+
  have "sinv (insert c A) (sc[c := ?s\<lparr>cur := Some (idle ?s)\<rparr>]) th"
    unfolding sinv_def length_list_update
  proof (intro conjI)
    show "\<forall>d \<in> insert c A. d < length sc \<and> (\<exists>u. cur (sc[c := ?s\<lparr>cur := Some (idle ?s)\<rparr>] ! d) = Some u \<and>
        (u = idle (sc[c := ?s\<lparr>cur := Some (idle ?s)\<rparr>] ! d) \<or>
        on_cpu (th u) = d \<and> (state (th u) = THREAD_RUNNING \<or> state (th u) = THREAD_EXIT)))"
    proof
      fix d assume "d \<in> insert c A"
      then show "d < length sc \<and> (\<exists>u. cur (sc[c := ?s\<lparr>cur := Some (idle ?s)\<rparr>] ! d) = Some u \<and>
        (u = idle (sc[c := ?s\<lparr>cur := Some (idle ?s)\<rparr>] ! d) \<or>
        on_cpu (th u) = d \<and> (state (th u) = THREAD_RUNNING \<or> state (th u) = THREAD_EXIT)))"
        using sinv_cur [OF i, of d] c by (cases "d = c") auto
    qed
    show "\<forall>u. state (th u) = THREAD_RUNNING \<longrightarrow> on_cpu (th u) \<in> insert c A \<and>
        cur (sc[c := ?s\<lparr>cur := Some (idle ?s)\<rparr>] ! on_cpu (th u)) = Some u"
    proof (intro allI impI)
      fix u assume "state (th u) = THREAD_RUNNING"
      from sinv_running [OF i this] show "on_cpu (th u) \<in> insert c A \<and>
        cur (sc[c := ?s\<lparr>cur := Some (idle ?s)\<rparr>] ! on_cpu (th u)) = Some u" by auto
    qed
  qed (use i e in \<open>auto simp: sinv_def\<close>)
  from that [OF ch this refl refl] Nil show ?thesis by blast
next
  case (Cons t rest)
  let ?s = "sc ! c"
  obtain s' where s': "sched_choose ?s th = Some (t, s', chosen th t)" "queue_inv c s' (chosen th t)" "order s' = rest"
    "idle s' = idle ?s" "cur s' = cur ?s" "exit_thread s' = exit_thread ?s"
    by (rule queue_choose [OF sinv_queue [OF i c] Cons])
  let ?th = "chosen th t" and ?sc = "sc[c := s'\<lparr>cur := Some t\<rparr>]"
  have ts: "state (th t) = THREAD_RUNNABLE \<or> state (th t) = THREAD_SPAWNED" "on_cpu (th t) = c"
    using queue_states [OF sinv_queue [OF i c], of t] Cons by auto
  have other: "?th u = th u" if "u \<noteq> t" for u using that by (simp add: chosen_def)
  have new: "state (?th t) = THREAD_RUNNING" "on_cpu (?th t) = c" "interrupted (?th t) = interrupted (th t)"
    "interruptable (?th t) = interruptable (th t)"
    using ts by (simp_all add: chosen_def)
  have ti: "t \<noteq> idle (sc ! d)" if "d < length sc" for d
    using sinv_idle_queue [OF i that c] Cons by auto
  have e: "?sc ! d = (if d = c then s'\<lparr>cur := Some t\<rparr> else sc ! d)" if "d < length sc" for d using that by simp
  have "sinv (insert c A) ?sc ?th"
    unfolding sinv_def length_list_update
  proof (intro conjI)
    show "\<forall>d < length sc. queue_inv d (?sc ! d) ?th"
    proof (intro allI impI)
      fix d assume d: "d < length sc"
      show "queue_inv d (?sc ! d) ?th"
      proof (cases "d = c")
        case False
        have "t \<notin> set (order (sc ! d))" using queue_states [OF sinv_queue [OF i d], of t] ts(2) False by auto
        then have "queue_inv d (sc ! d) ?th"
          by (intro queue_inv_frame [OF sinv_queue [OF i d]]) (use other in metis)
        with False show ?thesis by simp
      qed (use s'(2) c in simp)
    qed
    show "\<forall>d \<in> insert c A. d < length sc \<and> (\<exists>u. cur (?sc ! d) = Some u \<and> (u = idle (?sc ! d) \<or>
        on_cpu (?th u) = d \<and> (state (?th u) = THREAD_RUNNING \<or> state (?th u) = THREAD_EXIT)))"
    proof
      fix d assume d: "d \<in> insert c A"
      show "d < length sc \<and> (\<exists>u. cur (?sc ! d) = Some u \<and> (u = idle (?sc ! d) \<or>
        on_cpu (?th u) = d \<and> (state (?th u) = THREAD_RUNNING \<or> state (?th u) = THREAD_EXIT)))"
      proof (cases "d = c")
        case True
        then show ?thesis using c new by simp
      next
        case False
        with d sinv_cur [OF i, of d] obtain u where u: "d < length sc" "cur (sc ! d) = Some u" "u = idle (sc ! d) \<or>
          on_cpu (th u) = d \<and> (state (th u) = THREAD_RUNNING \<or> state (th u) = THREAD_EXIT)" by auto
        then have "u \<noteq> t" using ti ts False by auto
        with u other False show ?thesis by auto
      qed
    qed
    show "\<forall>u. state (?th u) = THREAD_RUNNING \<longrightarrow> on_cpu (?th u) \<in> insert c A \<and> cur (?sc ! on_cpu (?th u)) = Some u"
    proof (intro allI impI)
      fix u assume u: "state (?th u) = THREAD_RUNNING"
      show "on_cpu (?th u) \<in> insert c A \<and> cur (?sc ! on_cpu (?th u)) = Some u"
        using u sinv_running [OF i, of u] other [of u] new c by (cases "u = t") auto
    qed
    show "\<forall>u. state (?th u) = THREAD_SLEEP \<longrightarrow> on_cpu (?th u) < length sc"
      using sinv_sleep [OF i] new other c by metis
    show "\<forall>u. state (?th u) = THREAD_RUNNABLE \<longrightarrow> on_cpu (?th u) < length sc \<and> u \<in> set (order (?sc ! on_cpu (?th u)))"
    proof (intro allI impI)
      fix u assume u: "state (?th u) = THREAD_RUNNABLE"
      then have "u \<noteq> t" using new(1) by auto
      with u other have u': "state (th u) = THREAD_RUNNABLE" "?th u = th u" by auto
      note r = sinv_runnable [OF i u'(1)]
      show "on_cpu (?th u) < length sc \<and> u \<in> set (order (?sc ! on_cpu (?th u)))"
      proof (cases "on_cpu (th u) = c")
        case True
        with r \<open>u \<noteq> t\<close> Cons s'(3) u'(2) c show ?thesis by auto
      next
        case False
        with r u'(2) show ?thesis by simp
      qed
    qed
    show "\<forall>u. do_sleep (?th u) \<longrightarrow> state (?th u) = THREAD_RUNNING"
      using sinv_do_sleep [OF i] new(1) other by metis
    show "\<forall>u. interrupted (?th u) \<longrightarrow> \<not> interruptable (?th u)"
      using sinv_intr [OF i] new other by metis
    show "\<forall>d < length sc. state (?th (idle (?sc ! d))) = THREAD_SPAWNED \<and>
        (\<forall>f < length sc. idle (?sc ! d) \<notin> set (order (?sc ! f)))"
    proof (intro allI impI conjI)
      fix d assume d: "d < length sc"
      have idl: "idle (?sc ! d) = idle (sc ! d)" using d s'(4) by (cases "d = c") auto
      show "state (?th (idle (?sc ! d))) = THREAD_SPAWNED"
        unfolding idl using sinv_idle [OF i d] ti [OF d] other by metis
      fix f assume f: "f < length sc"
      have "set (order (?sc ! f)) \<subseteq> set (order (sc ! f))" using f Cons s'(3) by (cases "f = c") auto
      then show "idle (?sc ! d) \<notin> set (order (?sc ! f))" unfolding idl using sinv_idle_queue [OF i d f] by blast
    qed
  qed
  from that [OF s'(1) this s'(4,6) other] Cons show ?thesis by auto
qed

subsection \<open>Operations\<close>

lemma sys_invI:
  assumes "sinv {..<length (scheds y)} (scheds y) (threads y)" "length (running y) = length (scheds y)"
    "\<And>s. s \<in> set (scheds y) \<Longrightarrow> exit_thread s = None"
  shows "sys_inv y"
  using assms by (simp add: sys_inv_def)

lemma sys_inv_flags:
  assumes "sys_inv y" "state x = state (threads y t)" "on_cpu x = on_cpu (threads y t)"
    "do_sleep x \<Longrightarrow> state (threads y t) = THREAD_RUNNING" "interrupted x \<Longrightarrow> \<not> interruptable x"
  shows "sys_inv (y\<lparr>threads := (threads y)(t := x)\<rparr>)"
  using assms sinv_flags [of _ "scheds y" "threads y" x t] by (auto simp: sys_inv_def)

lemma sys_inv_exit: "sys_inv y \<Longrightarrow> d < length (scheds y) \<Longrightarrow> exit_thread (scheds y ! d) = None"
  by (simp add: sys_inv_def)

lemma sys_inv_upd:
  assumes "sys_inv y" "sinv {..<length (scheds y)} ((scheds y)[b := s']) th'" "exit_thread s' = None"
  shows "sys_inv (y\<lparr>threads := th', scheds := (scheds y)[b := s']\<rparr>)"
  using assms by (auto simp: sys_inv_def dest: set_update_subset_insert [THEN subsetD])

lemma nth_upd_same: "f s' = f (xs ! b) \<Longrightarrow> f (xs[b := s'] ! d) = f (xs ! d)"
  by (cases "d = b"; cases "b < length xs") (auto simp: list_update_beyond)

text \<open>What a wakeup does to the rest of the system, and to the thread.\<close>

definition same_cpus :: "system \<Rightarrow> system \<Rightarrow> bool" where
  "same_cpus y y' \<longleftrightarrow> length (scheds y') = length (scheds y) \<and> running y' = running y \<and>
     (\<forall>d < length (scheds y). cur (scheds y' ! d) = cur (scheds y ! d))"

definition woken :: "thread \<Rightarrow> thread \<Rightarrow> bool" where
  "woken x x' \<longleftrightarrow> \<not> interruptable x' \<and> \<not> do_sleep x' \<and> interrupted x' = interrupted x \<and> restartsys x' = restartsys x \<and>
     intr x' = intr x \<and> prio x' = prio x \<and>
     state x' = (if state x = THREAD_SLEEP then THREAD_RUNNABLE else state x) \<and> on_cpu x' = on_cpu x"

lemma same_cpus_refl [simp]: "same_cpus y (y\<lparr>threads := th\<rparr>)" "same_cpus y y"
  by (simp_all add: same_cpus_def)

lemma schedule_async_inv:
  assumes "sys_inv y" "c < length (scheds y)"
  obtains y' where "schedule_async c y = Some y'" "sys_inv y'" "same_cpus y y'" "threads y' = threads y"
proof -
  let ?s = "(scheds y ! c)\<lparr>resched := True\<rparr>"
  have "sinv {..<length (scheds y)} ((scheds y)[c := ?s]) (threads y)"
    using assms by (intro sinv_sched_fields) (auto simp: sys_inv_def)
  then have "sys_inv (y\<lparr>threads := threads y, scheds := (scheds y)[c := ?s]\<rparr>)"
    using assms sys_inv_exit by (intro sys_inv_upd) auto
  moreover have "same_cpus y (y\<lparr>scheds := (scheds y)[c := ?s]\<rparr>)"
    by (auto simp: same_cpus_def intro!: nth_upd_same)
  ultimately show ?thesis
    using assms(2) by (intro that [of "y\<lparr>scheds := (scheds y)[c := ?s]\<rparr>"]) (auto simp: schedule_async_def)
qed

lemma sched_wakeup_thread_inv:
  assumes i: "sys_inv y" and c: "c < length (scheds y)" and t: "state (threads y t) \<noteq> THREAD_EXIT"
  obtains y' ipi where "sched_wakeup_thread c y t pr = Some (y', ipi)" "sys_inv y'" "same_cpus y y'"
    "\<And>u. u \<noteq> t \<Longrightarrow> threads y' u = threads y u" "woken (threads y t) (threads y' t)"
proof -
  let ?n = "length (scheds y)" and ?x = "threads y t"
  have si: "sinv {..<?n} (scheds y) (threads y)" using i by (simp add: sys_inv_def)
  have *: "\<exists>y1 ipi. sched_wakeup_thread c y t pr =
        Some (y1\<lparr>threads := (threads y1)(t := (threads y1 t)\<lparr>interruptable := False\<rparr>)\<rparr>, ipi) \<and> sys_inv y1 \<and> same_cpus y y1 \<and>
      (\<forall>u. u \<noteq> t \<longrightarrow> threads y1 u = threads y u) \<and> woken ?x ((threads y1 t)\<lparr>interruptable := False\<rparr>)"
  proof -
    consider "state ?x = THREAD_RUNNING" | "state ?x = THREAD_SLEEP" | "state ?x = THREAD_RUNNABLE \<or> state ?x = THREAD_SPAWNED"
      using t by (cases "state ?x") auto
    then show ?thesis
    proof cases
      case 1
      let ?y = "y\<lparr>threads := (threads y)(t := ?x\<lparr>do_sleep := False\<rparr>)\<rparr>"
      have "sys_inv ?y" using i sinv_intr [OF si, of t] by (intro sys_inv_flags) auto
      with 1 show ?thesis
        by (intro exI [of _ ?y] exI [of _ False]) (auto simp: sched_wakeup_thread_def woken_def)
    next
      case 3
      then have "\<not> do_sleep ?x" using sinv_do_sleep [OF si, of t] by auto
      with 3 i show ?thesis
        by (intro exI [of _ y] exI [of _ False]) (auto simp: sched_wakeup_thread_def woken_def)
    next
      case 2
      let ?b = "on_cpu ?x"
      have b: "?b < ?n" using sinv_sleep [OF si 2] .
      have nq: "\<forall>d < ?n. t \<notin> set (order (scheds y ! d))" using queue_states [OF sinv_queue [OF si]] 2 by fastforce
      have ni: "\<forall>d < ?n. t \<noteq> idle (scheds y ! d)" using sinv_idle [OF si] 2 by fastforce
      have nc: "\<forall>d \<in> {..<?n}. cur (scheds y ! d) \<noteq> Some t" using sinv_cur [OF si] ni 2 by fastforce
      obtain s' k where s': "scheduler_add_thread ?b (scheds y ! ?b) (threads y) t (min pr (prio ?x)) =
          Some (s', queued ?b (threads y) t (min pr (prio ?x)) k)"
        "sinv {..<?n} ((scheds y)[?b := s']) (queued ?b (threads y) t (min pr (prio ?x)) k)" "cur s' = cur (scheds y ! ?b)"
        "exit_thread s' = exit_thread (scheds y ! ?b)"
        by (rule sinv_enqueue [OF si b _ _ nq ni nc]) (use 2 in auto)
      let ?th = "queued ?b (threads y) t (min pr (prio ?x)) k"
      define y1 where "y1 = y\<lparr>threads := ?th, scheds := (scheds y)[?b := s']\<rparr>"
      have i1: "sys_inv y1" unfolding y1_def using i s'(2,4) sys_inv_exit [OF i b] by (intro sys_inv_upd) auto
      have sc1: "same_cpus y y1" using s'(3) by (auto simp: same_cpus_def y1_def intro!: nth_upd_same)
      have th1: "\<forall>u. u \<noteq> t \<longrightarrow> threads y1 u = threads y u" "woken ?x ((threads y1 t)\<lparr>interruptable := False\<rparr>)"
        using 2 sinv_do_sleep [OF si, of t] by (auto simp: y1_def queued_def woken_def)
      obtain r where r: "cur s' = Some r" using sinv_cur [OF si, of ?b] b s'(3) by auto
      define urgent where "urgent = (pr = SCHED_INTR \<and> sched_prio (?th r) \<noteq> SCHED_INTR)"
      have run: "sched_wakeup_thread c y t pr = do {
          (y2, ipi) \<leftarrow> (if urgent \<or> \<not> timer_on s'
             then (if ?b = c then do { y2 \<leftarrow> schedule_async c y1; Some (y2, False) } else Some (y1, True))
             else Some (y1, False));
          Some (y2\<lparr>threads := (threads y2)(t := (threads y2 t)\<lparr>interruptable := False\<rparr>)\<rparr>, ipi) }"
        using 2 b r s'(1) by (simp add: sched_wakeup_thread_def Let_def y1_def urgent_def)
      have c1: "c < length (scheds y1)" using c by (simp add: y1_def)
      obtain y2 where y2: "schedule_async c y1 = Some y2" "sys_inv y2" "same_cpus y1 y2" "threads y2 = threads y1"
        by (rule schedule_async_inv [OF i1 c1])
      have sc2: "same_cpus y y2" using sc1 y2(3) by (auto simp: same_cpus_def)
      show ?thesis
      proof (cases "(urgent \<or> \<not> timer_on s') \<and> ?b = c")
        case True
        with run y2 sc2 th1 show ?thesis by (intro exI [of _ y2] exI [of _ False]) auto
      next
        case False
        with run i1 sc1 th1 show ?thesis
          by (intro exI [of _ y1] exI [of _ "urgent \<or> \<not> timer_on s'"]) auto
      qed
    qed
  qed
  then obtain y1 ipi where y1: "sched_wakeup_thread c y t pr =
        Some (y1\<lparr>threads := (threads y1)(t := (threads y1 t)\<lparr>interruptable := False\<rparr>)\<rparr>, ipi)" "sys_inv y1" "same_cpus y y1"
      "\<forall>u. u \<noteq> t \<longrightarrow> threads y1 u = threads y u" "woken ?x ((threads y1 t)\<lparr>interruptable := False\<rparr>)"
    by blast
  let ?y = "y1\<lparr>threads := (threads y1)(t := (threads y1 t)\<lparr>interruptable := False\<rparr>)\<rparr>"
  have "sinv {..<length (scheds y1)} (scheds y1) (threads y1)" using y1(2) by (simp add: sys_inv_def)
  then have "sys_inv ?y"
    using y1(2) sinv_do_sleep by (intro sys_inv_flags) auto
  moreover have "same_cpus y ?y" using y1(3) by (simp add: same_cpus_def)
  ultimately show ?thesis using y1 by (intro that [OF y1(1)]) auto
qed

text \<open>A thread that sleeps or is about to.\<close>

definition parked :: "thread \<Rightarrow> bool" where
  "parked x \<longleftrightarrow> do_sleep x \<or> state x = THREAD_SLEEP"

definition same_flags :: "thread \<Rightarrow> thread \<Rightarrow> bool" where
  "same_flags x x' \<longleftrightarrow> interruptable x' = interruptable x \<and> interrupted x' = interrupted x \<and>
     restartsys x' = restartsys x \<and> intr x' = intr x \<and> prio x' = prio x \<and>
     (state x' = THREAD_EXIT \<longleftrightarrow> state x = THREAD_EXIT)"

definition switched :: "thread \<Rightarrow> thread \<Rightarrow> bool" where
  "switched x x' \<longleftrightarrow> same_flags x x' \<and> parked x' = parked x"

lemma switched_refl [simp]: "switched x x"
  by (simp add: switched_def same_flags_def)

lemma switched_trans: "switched x y \<Longrightarrow> switched y z \<Longrightarrow> switched x z"
  by (simp add: switched_def same_flags_def)

lemma queued_switched: "state (th t) \<noteq> THREAD_EXIT \<Longrightarrow> \<not> parked (th t) \<Longrightarrow> switched (th t) (queued c th t pr k t)"
  by (simp add: queued_def switched_def same_flags_def parked_def)

lemma add_thread_state:
  assumes "state (th t) = THREAD_RUNNING"
  shows "scheduler_add_thread c s (th(t := (th t)\<lparr>do_sleep := False, state := THREAD_SLEEP\<rparr>)) t pr =
    scheduler_add_thread c s (th(t := (th t)\<lparr>do_sleep := False\<rparr>)) t pr"
  using assms by (simp add: scheduler_add_thread_def Let_def)

lemma sched_put_last_inv:
  assumes i: "sinv A sc th" and c: "c \<in> A" "cur (sc ! c) = Some t"
  obtains s' th' where "sched_put_last c (sc ! c) th t = Some (s', th')" "sinv (A - {c}) (sc[c := s']) th'"
    "idle s' = idle (sc ! c)" "exit_thread s' = exit_thread (sc ! c)" "\<And>u. switched (th u) (th' u)"
    "\<And>u. u \<noteq> t \<Longrightarrow> th' u = th u" "state (th t) = THREAD_EXIT \<Longrightarrow> t \<notin> set (order s')"
    "state (th t) = THREAD_EXIT \<Longrightarrow> t \<noteq> idle (sc ! c)" "\<not> do_sleep (th' t)"
proof -
  let ?s = "sc ! c"
  have cl: "c < length sc" and cu: "t = idle ?s \<or> on_cpu (th t) = c \<and> (state (th t) = THREAD_RUNNING \<or> state (th t) = THREAD_EXIT)"
    using sinv_cur [OF i c(1)] c(2) by auto
  have idl: "state (th (idle ?s)) = THREAD_SPAWNED" by (rule sinv_idle [OF i cl])
  show ?thesis
  proof (cases "t = idle ?s \<or> state (th t) = THREAD_EXIT")
    case True
    then have nr: "state (th t) \<noteq> THREAD_RUNNING" using idl by auto
    have nq: "t \<notin> set (order ?s)" if "state (th t) = THREAD_EXIT"
      using queue_states [OF sinv_queue [OF i cl], of t] that by auto
    have ni: "t \<noteq> idle ?s" if "state (th t) = THREAD_EXIT" using idl that by auto
    have run: "sched_put_last c ?s th t = Some (?s, th)" using True by (auto simp: sched_put_last_def)
    have "sinv (A - {c}) (sc[c := ?s]) th" using sinv_leave [OF i c nr] by simp
    moreover have "\<not> do_sleep (th t)" using nr sinv_do_sleep [OF i] by blast
    ultimately show ?thesis using that [OF run _ refl refl] nq ni by simp
  next
    case False
    then have st: "state (th t) = THREAD_RUNNING" "on_cpu (th t) = c" "t \<noteq> idle ?s" using cu by auto
    let ?th = "th(t := (th t)\<lparr>do_sleep := False, state := THREAD_SLEEP\<rparr>)"
    have r: "sinv (A - {c}) sc ?th" by (rule sinv_retire [OF i c st(1)])
    show ?thesis
    proof (cases "do_sleep (th t)")
      case True
      have run: "sched_put_last c ?s th t = Some (?s, ?th)" using True st by (simp add: sched_put_last_def)
      have "sinv (A - {c}) (sc[c := ?s]) ?th" using r by simp
      moreover have "switched (th u) (?th u)" for u using True st by (simp add: switched_def same_flags_def parked_def)
      ultimately show ?thesis using st by (intro that [OF run]) auto
    next
      case False
      then have eq: "th(t := (th t)\<lparr>do_sleep := False\<rparr>) = th" by (auto simp: fun_eq_iff)
      have run: "sched_put_last c ?s th t = scheduler_add_thread c ?s ?th t (prio (th t))"
        using False st add_thread_state [of th t c ?s "prio (th t)", OF st(1)] by (simp add: sched_put_last_def eq)
      have nq: "\<forall>d < length sc. t \<notin> set (order (sc ! d))"
        using queue_states [OF sinv_queue [OF i]] st(1) by fastforce
      have ni: "\<forall>d < length sc. t \<noteq> idle (sc ! d)" using sinv_idle [OF i] st(1) by fastforce
      have nc: "\<forall>d \<in> A - {c}. cur (sc ! d) \<noteq> Some t"
        using sinv_cur [OF r] ni by fastforce
      obtain s' k where s': "scheduler_add_thread c ?s ?th t (prio (th t)) = Some (s', queued c ?th t (prio (th t)) k)"
        "sinv (A - {c}) (sc[c := s']) (queued c ?th t (prio (th t)) k)" "idle s' = idle ?s" "exit_thread s' = exit_thread ?s"
        by (rule sinv_enqueue [OF r cl _ _ nq ni nc]) auto
      have "switched (th u) (queued c ?th t (prio (th t)) k u)" for u
        using False st by (simp add: switched_def same_flags_def parked_def queued_def)
      moreover have "queued c ?th t (prio (th t)) k u = th u" if "u \<noteq> t" for u using that by (simp add: queued_def)
      moreover have "sched_put_last c ?s th t = Some (s', queued c ?th t (prio (th t)) k)" unfolding run by (rule s'(1))
      moreover have "\<not> do_sleep (queued c ?th t (prio (th t)) k t)" by (simp add: queued_def)
      ultimately show ?thesis using st(1) by (intro that [OF _ s'(2-4)]) simp_all
    qed
  qed
qed

lemma schedule_inv:
  assumes i: "sys_inv y" and c: "c < length (scheds y)"
  obtains y' vas where "schedule c y = Some (y', vas)" "sys_inv y'" "length (scheds y') = length (scheds y)"
    "running y' = running y" "\<And>u. switched (threads y u) (threads y' u)"
    "\<And>d. d \<noteq> c \<Longrightarrow> d < length (scheds y) \<Longrightarrow> cur (scheds y' ! d) = cur (scheds y ! d)"
    "\<And>u. do_sleep (threads y' u) \<Longrightarrow> do_sleep (threads y u) \<and> cur (scheds y ! c) \<noteq> Some u"
proof -
  let ?n = "length (scheds y)" and ?sc = "scheds y" and ?th = "threads y"
  have si: "sinv {..<?n} ?sc ?th" using i by (simp add: sys_inv_def)
  obtain t where t: "cur (?sc ! c) = Some t" using sinv_cur [OF si, of c] c by auto
  obtain s1 th1 where p: "sched_put_last c (?sc ! c) ?th t = Some (s1, th1)" "sinv ({..<?n} - {c}) (?sc[c := s1]) th1"
    "idle s1 = idle (?sc ! c)" "exit_thread s1 = exit_thread (?sc ! c)" "\<And>u. switched (?th u) (th1 u)"
    "\<And>u. u \<noteq> t \<Longrightarrow> th1 u = ?th u" "state (?th t) = THREAD_EXIT \<Longrightarrow> t \<notin> set (order s1)"
    "state (?th t) = THREAD_EXIT \<Longrightarrow> t \<noteq> idle (?sc ! c)" "\<not> do_sleep (th1 t)"
    using sched_put_last_inv [OF si _ t] c by auto
  have c1: "c < length (?sc[c := s1])" using c by simp
  have nth1: "?sc[c := s1] ! c = s1" using c by simp
  obtain u s2 th2 where ch: "sched_choose s1 th1 = Some (u, s2, th2)"
    "sinv (insert c {..<?n}) (?sc[c := s1, c := s2\<lparr>cur := Some u\<rparr>]) th2" "idle s2 = idle s1"
    "exit_thread s2 = exit_thread s1" "\<And>v. v \<noteq> u \<Longrightarrow> th2 v = th1 v"
    "u = idle s1 \<and> th2 = th1 \<and> order s1 = [] \<or> u \<in> set (order s1) \<and> th2 = chosen th1 u"
    using sinv_choose [OF p(2) c1] unfolding nth1 by metis
  have A: "insert c {..<?n} = {..<?n}" using c by auto
  have si2: "sinv {..<?n} (?sc[c := s2\<lparr>cur := Some u\<rparr>]) th2" using ch(2) unfolding A by simp
  have ex0: "exit_thread s2 = None" using ch(4) p(4) sys_inv_exit [OF i c] by simp
  have sw2: "switched (th1 v) (th2 v)" for v
  proof (cases "u \<in> set (order s1) \<and> th2 = chosen th1 u")
    case True
    have "queue_inv c s1 th1" using sinv_queue [OF p(2) c1] nth1 by simp
    from queue_states [OF this, of u] True sinv_do_sleep [OF p(2), of u]
    have "\<not> parked (th1 u)" "state (th1 u) \<noteq> THREAD_EXIT" by (auto simp: parked_def)
    moreover have "\<not> do_sleep (th1 u)" using calculation by (simp add: parked_def)
    ultimately show ?thesis using True by (simp add: chosen_def switched_def same_flags_def parked_def)
  qed (use ch(6) in auto)
  have sw: "switched (?th v) (th2 v)" for v using p(5) sw2 switched_trans by blast
  have ds: "do_sleep (th2 v) = do_sleep (th1 v)" for v using ch(6) by (auto simp: chosen_def split: if_splits)
  have ds2: "do_sleep (?th v) \<and> cur (?sc ! c) \<noteq> Some v" if "do_sleep (th2 v)" for v
    using that ds [of v] p(6) [of v] p(9) t by (cases "v = t") auto
  have live: "state (th2 t) \<noteq> THREAD_EXIT" if "u = t"
  proof
    assume e: "state (th2 t) = THREAD_EXIT"
    then have "state (?th t) = THREAD_EXIT" using sw [of t] by (simp add: switched_def same_flags_def)
    with p(3,7,8) ch(6) that show False by auto
  qed
  define s3 where "s3 = (if u = idle s2 then s2\<lparr>cur := Some u, timer_on := False\<rparr> else sched_timer_start (s2\<lparr>cur := Some u\<rparr>))"
  have f3: "order s3 = order s2" "sched_ok s3 = sched_ok s2" "cur s3 = Some u" "idle s3 = idle s2" "exit_thread s3 = None"
    using ex0 by (auto simp: s3_def sched_timer_start_def)
  have si3: "sinv {..<?n} (?sc[c := s3]) th2"
    using sinv_sched_fields [OF si2, of c s3] c f3 by simp
  define y1 where "y1 = y\<lparr>threads := th2, scheds := ?sc[c := s3]\<rparr>"
  have i1: "sys_inv y1" unfolding y1_def using i si3 f3(5) by (intro sys_inv_upd)
  have cur1: "cur (scheds y1 ! d) = cur (?sc ! d)" if "d \<noteq> c" for d using that by (simp add: y1_def)
  let ?vas = "proc (th2 u) \<noteq> proc (th2 t) \<and> proc (th2 u) \<noteq> 0 \<or> state (th2 t) = THREAD_EXIT \<and> proc (th2 t) \<noteq> 0"
  have unf: "do_schedule c y = (if u = t then do {
        kassert (state (th2 t) \<noteq> THREAD_EXIT); Some (y\<lparr>threads := th2, scheds := ?sc[c := s3]\<rparr>, False) }
      else do {
        s \<leftarrow> (if state (th2 t) = THREAD_EXIT then do { kassert (exit_thread s3 = None); Some (s3\<lparr>exit_thread := Some t\<rparr>) }
             else Some s3);
        Some (y\<lparr>threads := th2, scheds := ?sc[c := s]\<rparr>, ?vas) })"
    using c t p(1) ch(1) by (simp add: do_schedule_def Let_def s3_def)
  show ?thesis
  proof (cases "u \<noteq> t \<and> state (th2 t) = THREAD_EXIT")
    case True
    define y2 where "y2 = y\<lparr>threads := th2, free_calls := free_calls y @ [t], scheds := ?sc[c := s3]\<rparr>"
    have e3: "s3\<lparr>exit_thread := None\<rparr> = s3" using f3(5) by (cases s3) simp
    have "schedule c y = Some (y2, ?vas)"
      using True unf c f3(5) by (simp add: schedule_def sched_exit_free_def y2_def e3)
    moreover have "sys_inv y2" using i1 by (simp add: y2_def y1_def sys_inv_def)
    ultimately show ?thesis
      by (rule that) (simp_all add: y2_def sw ds2)
  next
    case False
    have "\<exists>vas. do_schedule c y = Some (y1, vas)" using False unf live by (cases "u = t") (auto simp: y1_def)
    then obtain vas where d: "do_schedule c y = Some (y1, vas)" by blast
    have "schedule c y = Some (y1, vas)" using d c f3(5) by (simp add: schedule_def sched_exit_free_def y1_def)
    then show ?thesis using i1 by (rule that) (simp_all add: y1_def sw ds2)
  qed
qed

lemma sys_sinv: "sys_inv y \<Longrightarrow> sinv {..<length (scheds y)} (scheds y) (threads y)"
  by (simp add: sys_inv_def)

lemma sched_set_inactive_inv:
  assumes i: "sys_inv y" and c: "c < length (scheds y)" "cur (scheds y ! c) = Some t"
    and t: "state (threads y t) = THREAD_RUNNING" "\<not> interruptable (threads y t)"
  obtains y' where "sched_set_inactive c y may = Some y'" "sys_inv y'" "scheds y' = scheds y" "running y' = running y"
    "threads y' = (if may \<and> interrupted (threads y t) then threads y
      else (threads y)(t := (threads y t)\<lparr>interruptable := may, do_sleep := True\<rparr>))"
proof (cases "may \<and> interrupted (threads y t)")
  case True
  then have "sched_set_inactive c y may = Some y" using c t by (simp add: sched_set_inactive_def)
  with i True show ?thesis by (intro that [of y]) auto
next
  case False
  let ?y = "y\<lparr>threads := (threads y)(t := (threads y t)\<lparr>interruptable := may, do_sleep := True\<rparr>)\<rparr>"
  have "sched_set_inactive c y may = Some ?y" using False c t by (auto simp: sched_set_inactive_def Let_def)
  moreover have "sys_inv ?y" using i t(1) False by (intro sys_inv_flags) auto
  ultimately show ?thesis using False by (intro that [of ?y]) auto
qed

lemma ipi_preempt_same [simp]:
  "threads (ipi_preempt b i y) = threads y" "scheds (ipi_preempt b i y) = scheds y" "running (ipi_preempt b i y) = running y"
  by (simp_all add: ipi_preempt_def)

lemma sys_inv_ipi [simp]: "sys_inv (ipi_preempt b i y) = sys_inv y"
  by (simp add: sys_inv_def)

lemma same_cpus_ipi [simp]: "same_cpus y (ipi_preempt b i y') = same_cpus y y'"
  by (simp add: same_cpus_def)

lemma sched_wakeup_inv:
  assumes "sys_inv y" "c < length (scheds y)" "state (threads y t) \<noteq> THREAD_EXIT"
  obtains y' where "sched_wakeup c y t pr = Some y'" "sys_inv y'" "same_cpus y y'"
    "\<And>u. u \<noteq> t \<Longrightarrow> threads y' u = threads y u" "woken (threads y t) (threads y' t)"
proof -
  obtain y1 ipi where y1: "sched_wakeup_thread c y t pr = Some (y1, ipi)" "sys_inv y1" "same_cpus y y1"
    "\<And>u. u \<noteq> t \<Longrightarrow> threads y1 u = threads y u" "woken (threads y t) (threads y1 t)"
    by (rule sched_wakeup_thread_inv [OF assms, of pr]) blast
  then show ?thesis
    by (intro that [of "ipi_preempt (on_cpu (threads y t)) ipi y1"]) (auto simp: sched_wakeup_def)
qed

definition interrupted_by :: "thread \<Rightarrow> thread \<Rightarrow> bool" where
  "interrupted_by x x' \<longleftrightarrow> interrupted x' \<and> \<not> interruptable x' \<and> (state x' = THREAD_EXIT \<longleftrightarrow> state x = THREAD_EXIT) \<and>
     prio x' = prio x \<and> parked x' = (parked x \<and> (interrupted x \<or> \<not> interruptable x)) \<and> (do_sleep x' \<longrightarrow> do_sleep x)"

lemma sched_interrupt_inv:
  assumes i: "sys_inv y" and c: "c < length (scheds y)" and t: "state (threads y t) \<noteq> THREAD_EXIT"
  obtains y' where "sched_interrupt c y t pr k restart = Some y'" "sys_inv y'" "same_cpus y y'"
    "\<And>u. u \<noteq> t \<Longrightarrow> threads y' u = threads y u" "interrupted_by (threads y t) (threads y' t)"
proof -
  let ?x = "threads y t"
  define f where "f x = x\<lparr>intr := intr x OR k, restartsys := restartsys x \<or> restart, interrupted := True\<rparr>" for x :: thread
  have ff: "state (f x) = state x" "on_cpu (f x) = on_cpu x" "do_sleep (f x) = do_sleep x"
    "interruptable (f x) = interruptable x" "interrupted (f x)" "prio (f x) = prio x" for x
    by (simp_all add: f_def)
  show ?thesis
  proof (cases "\<not> interrupted ?x \<and> interruptable ?x")
    case True
    obtain y1 ipi where y1: "sched_wakeup_thread c y t pr = Some (y1, ipi)" "sys_inv y1" "same_cpus y y1"
      "\<And>u. u \<noteq> t \<Longrightarrow> threads y1 u = threads y u" "woken ?x (threads y1 t)"
      by (rule sched_wakeup_thread_inv [OF assms, of pr]) blast
    let ?y = "y1\<lparr>threads := (threads y1)(t := f (threads y1 t))\<rparr>"
    have "sys_inv ?y" using y1(2,5) ff by (intro sys_inv_flags) (auto simp: woken_def)
    moreover have "interrupted_by ?x (f (threads y1 t))"
      using y1(5) True t by (auto simp: interrupted_by_def woken_def parked_def ff split: if_splits)
    moreover have "same_cpus y ?y" using y1(3) by (simp add: same_cpus_def)
    ultimately show ?thesis
      using True y1 by (intro that [of "ipi_preempt (on_cpu ?x) ipi ?y"]) (auto simp: sched_interrupt_def Let_def f_def)
  next
    case False
    let ?y = "y\<lparr>threads := (threads y)(t := f ?x)\<rparr>"
    have ni: "\<not> interruptable ?x" using False sinv_intr [OF sys_sinv [OF i], of t] by auto
    have "sys_inv ?y" using i ff ni sinv_do_sleep [OF sys_sinv [OF i], of t] by (intro sys_inv_flags) auto
    moreover have "interrupted_by ?x (f ?x)" using ni by (simp add: interrupted_by_def parked_def ff)
    ultimately show ?thesis
      using False by (intro that [of "ipi_preempt (on_cpu ?x) False ?y"]) (auto simp: sched_interrupt_def Let_def f_def)
  qed
qed

lemma sched_best_min:
  assumes "sched_best xs i best = Some (b, n)"
  shows "(best = Some (b, n) \<or> i \<le> b \<and> b < i + length xs \<and> snd (xs ! (b - i)) \<and> n = nthread (fst (xs ! (b - i)))) \<and>
    (\<forall>m k. best = Some (m, k) \<longrightarrow> n \<le> k) \<and> (\<forall>j < length xs. snd (xs ! j) \<longrightarrow> n \<le> nthread (fst (xs ! j)))"
  using assms
proof (induction xs i best rule: sched_best.induct)
  case (1 i best)
  then show ?case by simp
next
  case (2 s run xs i best)
  let ?new = "run \<and> (case best of None \<Rightarrow> True | Some (_, n) \<Rightarrow> nthread s < n)"
  have shift: "(xs' # xs) ! (b - i) = xs ! (b - (i + 1))" if "i + 1 \<le> b" for xs' :: "scheduler \<times> bool"
  proof -
    have "b - i = Suc (b - (i + 1))" using that by simp
    then show ?thesis by (simp only: nth_Cons_Suc)
  qed
  have all: "(\<forall>j < length ((s, run) # xs). snd (((s, run) # xs) ! j) \<longrightarrow> n \<le> nthread (fst (((s, run) # xs) ! j))) \<longleftrightarrow>
      (run \<longrightarrow> n \<le> nthread s) \<and> (\<forall>j < length xs. snd (xs ! j) \<longrightarrow> n \<le> nthread (fst (xs ! j)))"
    by (auto simp: less_Suc_eq_0_disj)
  show ?case
  proof (cases ?new)
    case True
    with 2 have ih: "(Some (i, nthread s) = Some (b, n) \<or> i + 1 \<le> b \<and> b < i + 1 + length xs \<and> snd (xs ! (b - (i + 1))) \<and>
        n = nthread (fst (xs ! (b - (i + 1))))) \<and> n \<le> nthread s \<and>
      (\<forall>j < length xs. snd (xs ! j) \<longrightarrow> n \<le> nthread (fst (xs ! j)))" by auto
    with True show ?thesis unfolding all using shift by (auto split: option.splits)
  next
    case False
    with 2 have ih: "(best = Some (b, n) \<or> i + 1 \<le> b \<and> b < i + 1 + length xs \<and> snd (xs ! (b - (i + 1))) \<and>
        n = nthread (fst (xs ! (b - (i + 1))))) \<and> (\<forall>m k. best = Some (m, k) \<longrightarrow> n \<le> k) \<and>
      (\<forall>j < length xs. snd (xs ! j) \<longrightarrow> n \<le> nthread (fst (xs ! j)))" by auto
    with False show ?thesis unfolding all using shift by (auto split: option.splits)
  qed
qed

lemma sched_best_Some: "(\<exists>p \<in> set xs. snd p) \<or> best \<noteq> None \<Longrightarrow> sched_best xs i best \<noteq> None"
  by (induction xs i best rule: sched_best.induct) (auto split: option.splits)

definition fresh_thread :: "system \<Rightarrow> tref \<Rightarrow> bool" where
  "fresh_thread y t \<longleftrightarrow> state (threads y t) = THREAD_SPAWNED \<and>
     (\<forall>d < length (scheds y). t \<notin> set (order (scheds y ! d)) \<and> t \<noteq> idle (scheds y ! d) \<and> cur (scheds y ! d) \<noteq> Some t)"

lemma sched_add_thread_inv:
  assumes i: "sys_inv y" and c: "c < length (scheds y)" and r: "\<exists>d < length (scheds y). running y ! d"
    and f: "fresh_thread y t"
  obtains y' b where "sched_add_thread c y t = Some y'" "sys_inv y'" "b < length (scheds y)" "running y ! b"
    "t \<in> set (order (scheds y' ! b))" "\<forall>d < length (scheds y). running y ! d \<longrightarrow> nthread (scheds y ! b) \<le> nthread (scheds y ! d)"
    "same_cpus y y'" "\<And>u. u \<noteq> t \<Longrightarrow> threads y' u = threads y u"
    "interruptable (threads y' t) = interruptable (threads y t)"
proof -
  let ?n = "length (scheds y)" and ?zs = "zip (scheds y) (running y)"
  have len: "length (running y) = ?n" using i by (simp add: sys_inv_def)
  from r obtain d where d: "d < ?n" "running y ! d" by blast
  then have "?zs ! d \<in> set ?zs" "snd (?zs ! d)" using len by (auto intro: nth_mem simp del: nth_zip) (simp add: d)
  then have "\<exists>p \<in> set ?zs. snd p" by blast
  then obtain b k where bk: "sched_best ?zs 0 None = Some (b, k)"
    using sched_best_Some [of ?zs None 0] by auto
  note m = sched_best_min [OF bk]
  have b: "b < ?n" "running y ! b" "\<forall>d < ?n. running y ! d \<longrightarrow> nthread (scheds y ! b) \<le> nthread (scheds y ! d)"
    using m len by auto
  let ?th = "(threads y)(t := (threads y t)\<lparr>runq_idx := 255\<rparr>)"
  have si: "sinv {..<?n} (scheds y) ?th"
    by (rule sinv_flags [OF sys_sinv [OF i]])
      (use sinv_do_sleep [OF sys_sinv [OF i], of t] sinv_intr [OF sys_sinv [OF i], of t] in auto)
  have "\<forall>d < ?n. t \<notin> set (order (scheds y ! d))" "\<forall>d < ?n. t \<noteq> idle (scheds y ! d)"
    "\<forall>d \<in> {..<?n}. cur (scheds y ! d) \<noteq> Some t" "state (threads y t) = THREAD_SPAWNED"
    using f by (auto simp: fresh_thread_def)
  then obtain s' j where s': "scheduler_add_thread b (scheds y ! b) ?th t (prio (threads y t)) =
      Some (s', queued b ?th t (prio (threads y t)) j)"
    "sinv {..<?n} ((scheds y)[b := s']) (queued b ?th t (prio (threads y t)) j)" "t \<in> set (order s')"
    "cur s' = cur (scheds y ! b)" "idle s' = idle (scheds y ! b)" "exit_thread s' = exit_thread (scheds y ! b)"
    by - (rule sinv_enqueue [OF si b(1)], auto)
  let ?th1 = "queued b ?th t (prio (threads y t)) j"
  define s2 where "s2 = (if b = c then sched_timer_start s' else s')"
  have s2: "order s2 = order s'" "sched_ok s2 = sched_ok s'" "cur s2 = cur s'" "idle s2 = idle s'" "exit_thread s2 = exit_thread s'"
    by (auto simp: s2_def sched_timer_start_def)
  define ip where "ip = (\<not> timer_on s' \<and> b \<noteq> c)"
  let ?y = "y\<lparr>threads := ?th1, scheds := (scheds y)[b := s2], ipis := (if ip then ipis y @ [b] else ipis y)\<rparr>"
  have run: "sched_add_thread c y t = Some ?y"
    using bk b(1) s'(1) by (simp add: sched_add_thread_def Let_def s2_def ip_def)
  have "sinv {..<?n} ((scheds y)[b := s2]) ?th1"
    using sinv_sched_fields [OF s'(2), of b s2] b(1) s2 by simp
  then have "sys_inv (y\<lparr>threads := ?th1, scheds := (scheds y)[b := s2]\<rparr>)"
    using i s'(6) s2(5) sys_inv_exit [OF i b(1)] by (intro sys_inv_upd) auto
  then have "sys_inv ?y" by (simp add: sys_inv_def)
  moreover have "same_cpus y ?y"
    using s'(4) s2(3) b(1) by (auto simp: same_cpus_def intro: nth_upd_same [of cur])
  ultimately show ?thesis using that [OF run _ b(1,2) _ b(3)] s'(3) s2(1) b(1) by (simp add: queued_def)
qed

text \<open>\<^verbatim>\<open>thread_do_exit\<close> of \<^verbatim>\<open>kern/thread.c\<close>, which does not return to the thread.\<close>

definition thread_do_exit :: "nat \<Rightarrow> system \<Rightarrow> (system \<times> bool) panicking" where
  "thread_do_exit c y = do {
     s \<leftarrow> nth_opt (scheds y) c;
     t \<leftarrow> cur s;
     schedule c (y\<lparr>threads := (threads y)(t := (threads y t)\<lparr>state := THREAD_EXIT\<rparr>)\<rparr>) }"

lemma sinv_exit:
  assumes i: "sinv A sc th" and c: "c \<in> A" "cur (sc ! c) = Some t" and st: "state (th t) = THREAD_RUNNING" "\<not> do_sleep (th t)"
  shows "sinv A sc (th(t := (th t)\<lparr>state := THREAD_EXIT\<rparr>))"
proof -
  let ?th = "th(t := (th t)\<lparr>state := THREAD_EXIT\<rparr>)"
  have q: "queue_inv d (sc ! d) ?th" if d: "d < length sc" for d
  proof (rule queue_inv_frame [OF sinv_queue [OF i d]])
    fix u assume "u \<in> set (order (sc ! d))"
    then have "u \<noteq> t" using queue_states [OF sinv_queue [OF i d], of u] st(1) by auto
    then show "state (?th u) = state (th u) \<and> on_cpu (?th u) = on_cpu (th u)" by simp
  qed
  show ?thesis
    unfolding sinv_def
  proof (intro conjI)
    show "\<forall>d \<in> A. d < length sc \<and> (\<exists>u. cur (sc ! d) = Some u \<and> (u = idle (sc ! d) \<or>
        on_cpu (?th u) = d \<and> (state (?th u) = THREAD_RUNNING \<or> state (?th u) = THREAD_EXIT)))"
      using sinv_cur [OF i] by fastforce
    show "\<forall>d < length sc. state (?th (idle (sc ! d))) = THREAD_SPAWNED \<and>
        (\<forall>f < length sc. idle (sc ! d) \<notin> set (order (sc ! f)))"
      using sinv_idle [OF i] sinv_idle_queue [OF i] st(1) by auto
  qed (use q i st in \<open>auto simp: sinv_def\<close>)
qed

lemma sys_inv_exiting:
  assumes i: "sys_inv y" and c: "c < length (scheds y)" "cur (scheds y ! c) = Some t"
    and st: "state (threads y t) = THREAD_RUNNING" "\<not> do_sleep (threads y t)"
  shows "sys_inv (y\<lparr>threads := (threads y)(t := (threads y t)\<lparr>state := THREAD_EXIT\<rparr>)\<rparr>)"
  using i sinv_exit [OF sys_sinv [OF i] _ c(2) st] c(1) by (simp add: sys_inv_def)

lemma sched_pending_intr_inv:
  assumes i: "sys_inv y" and c: "c < length (scheds y)"
  obtains y' k t where "sched_pending_intr c y = Some (y', k)" "sys_inv y'" "cur (scheds y ! c) = Some t"
    "\<And>u. u \<noteq> t \<Longrightarrow> threads y' u = threads y u" "parked (threads y' t) = parked (threads y t)"
    "interruptable (threads y' t) = interruptable (threads y t)"
proof -
  obtain t where t: "cur (scheds y ! c) = Some t" using sinv_cur [OF sys_sinv [OF i], of c] c by auto
  let ?x = "threads y t"
  let ?y = "y\<lparr>threads := (threads y)(t := ?x\<lparr>interrupted := False, restartsys := False, intr := 0\<rparr>)\<rparr>"
  have "sys_inv ?y" using i sinv_do_sleep [OF sys_sinv [OF i], of t] by (intro sys_inv_flags) auto
  with i t c show ?thesis
    by (cases "interrupted ?x") (auto simp: sched_pending_intr_def Let_def parked_def intro: that)
qed

subsection \<open>All interleavings\<close>

text \<open>
  One step of the whole system: some processor performs a scheduler operation under the
  conditions its callers guarantee.
\<close>

inductive sched_step :: "system \<Rightarrow> system \<Rightarrow> bool" where
  spawn: "c < length (scheds y) \<Longrightarrow> fresh_thread y t \<Longrightarrow> sched_add_thread c y t = Some y' \<Longrightarrow> sched_step y y'"
| set_inactive: "c < length (scheds y) \<Longrightarrow> cur (scheds y ! c) = Some t \<Longrightarrow> state (threads y t) = THREAD_RUNNING \<Longrightarrow>
    sched_set_inactive c y may = Some y' \<Longrightarrow> sched_step y y'"
| wake: "c < length (scheds y) \<Longrightarrow> sched_wakeup c y t pr = Some y' \<Longrightarrow> sched_step y y'"
| interrupt: "c < length (scheds y) \<Longrightarrow> state (threads y t) \<noteq> THREAD_EXIT \<Longrightarrow>
    sched_interrupt c y t pr k restart = Some y' \<Longrightarrow> sched_step y y'"
| pending: "c < length (scheds y) \<Longrightarrow> sched_pending_intr c y = Some (y', k) \<Longrightarrow> sched_step y y'"
| switch: "c < length (scheds y) \<Longrightarrow> schedule c y = Some (y', vas) \<Longrightarrow> sched_step y y'"
| exit: "c < length (scheds y) \<Longrightarrow> cur (scheds y ! c) = Some t \<Longrightarrow> state (threads y t) = THREAD_RUNNING \<Longrightarrow>
    \<not> do_sleep (threads y t) \<Longrightarrow> thread_do_exit c y = Some (y', vas) \<Longrightarrow> sched_step y y'"

lemma sched_step_inv: "sched_step y y' \<Longrightarrow> sys_inv y \<Longrightarrow> sys_inv y'"
proof (induction rule: sched_step.induct)
  case (spawn c y t y')
  have len: "length (running y) = length (scheds y)" using spawn.prems by (simp add: sys_inv_def)
  obtain b k where "sched_best (zip (scheds y) (running y)) 0 None = Some (b, k)"
    using spawn.hyps(3) by (auto simp: sched_add_thread_def bind_eq_Some_conv)
  from sched_best_min [OF this] len have r: "\<exists>d < length (scheds y). running y ! d" by auto
  obtain z where "sched_add_thread c y t = Some z" "sys_inv z"
    by (rule sched_add_thread_inv [OF spawn.prems spawn.hyps(1) r spawn.hyps(2)])
  with spawn.hyps(3) show ?case by simp
next
  case (set_inactive c y t may y')
  have ni: "\<not> interruptable (threads y t)"
    using set_inactive.hyps by (auto simp: sched_set_inactive_def bind_eq_Some_conv Let_def)
  obtain z where "sched_set_inactive c y may = Some z" "sys_inv z"
    by (rule sched_set_inactive_inv [OF set_inactive.prems set_inactive.hyps(1-3) ni, of may])
  with set_inactive.hyps(4) show ?case by simp
next
  case (wake c y t pr y')
  have ne: "state (threads y t) \<noteq> THREAD_EXIT"
    using wake.hyps(2) by (auto simp: sched_wakeup_def sched_wakeup_thread_def bind_eq_Some_conv)
  obtain z where "sched_wakeup c y t pr = Some z" "sys_inv z"
    by (rule sched_wakeup_inv [OF wake.prems wake.hyps(1) ne, of pr])
  with wake.hyps(2) show ?case by simp
next
  case (interrupt c y t pr k restart y')
  obtain z where "sched_interrupt c y t pr k restart = Some z" "sys_inv z"
    by (rule sched_interrupt_inv [OF interrupt.prems interrupt.hyps(1,2), of pr k restart])
  with interrupt.hyps(3) show ?case by simp
next
  case (pending c y y' k)
  obtain z l where "sched_pending_intr c y = Some (z, l)" "sys_inv z"
    by (rule sched_pending_intr_inv [OF pending.prems pending.hyps(1)])
  with pending.hyps(2) show ?case by simp
next
  case (switch c y y' vas)
  obtain z v where "schedule c y = Some (z, v)" "sys_inv z" by (rule schedule_inv [OF switch.prems switch.hyps(1)])
  with switch.hyps(2) show ?case by simp
next
  case (exit c y t y' vas)
  let ?y = "y\<lparr>threads := (threads y)(t := (threads y t)\<lparr>state := THREAD_EXIT\<rparr>)\<rparr>"
  have i: "sys_inv ?y" by (rule sys_inv_exiting [OF exit.prems exit.hyps(1-4)])
  have c: "c < length (scheds ?y)" using exit.hyps(1) by simp
  obtain z v where "schedule c ?y = Some (z, v)" "sys_inv z" by (rule schedule_inv [OF i c])
  with exit.hyps show ?case by (simp add: thread_do_exit_def)
qed

lemma sched_steps_inv: "sched_step\<^sup>*\<^sup>* y y' \<Longrightarrow> sys_inv y \<Longrightarrow> sys_inv y'"
  by (induction rule: rtranclp_induct) (auto intro: sched_step_inv)

text \<open>The system after the boot of \<open>n\<close> processors: processor \<open>d\<close> runs its boot thread \<open>2 d + 1\<close> and has
  the idle thread \<open>2 d\<close>.\<close>

definition booted :: "nat \<Rightarrow> system" where
  "booted n = \<lparr> threads = (\<lambda>t. if odd t \<and> t div 2 < n then some_thread\<lparr>state := THREAD_RUNNING, on_cpu := t div 2\<rparr>
       else some_thread),
     scheds = map (\<lambda>d. scheduler_init (2 * d) (2 * d + 1)) [0..<n], running = replicate n True, ipis = [],
     free_calls = [] \<rparr>"

lemma booted_inv: "sys_inv (booted n)"
  by (auto simp: sys_inv_def sinv_def queue_inv_def booted_def scheduler_init_ok some_thread_def scheduler_init_def
      split: if_splits elim!: oddE) (auto simp flip: scheduler_init_def simp: scheduler_init_ok)

subsection \<open>Properties\<close>

text \<open>C20. On every number of processors and in every interleaving of spawning, sleeping, waking,
  interrupting, switching and exiting, a running thread is the current thread of its
  processor, a runnable thread is in the run queues of exactly its own processor and there
  exactly once, and a sleeping thread is in no run queue.\<close>

theorem sched_reachable_placement:
  assumes "sched_step\<^sup>*\<^sup>* (booted n) y"
  shows "(state (threads y t) = THREAD_RUNNING \<longrightarrow> cur (scheds y ! on_cpu (threads y t)) = Some t) \<and>
    (state (threads y t) = THREAD_RUNNABLE \<longrightarrow>
       (\<forall>d < length (scheds y). t \<in> set (order (scheds y ! d)) \<longleftrightarrow> d = on_cpu (threads y t)) \<and>
       on_cpu (threads y t) < length (scheds y)) \<and>
    (\<forall>d < length (scheds y). distinct (order (scheds y ! d)) \<and>
       (state (threads y t) = THREAD_SLEEP \<longrightarrow> t \<notin> set (order (scheds y ! d))))"
proof -
  have i: "sinv {..<length (scheds y)} (scheds y) (threads y)"
    by (rule sys_sinv [OF sched_steps_inv [OF assms booted_inv]])
  have q: "distinct (order (scheds y ! d)) \<and> (t \<in> set (order (scheds y ! d)) \<longrightarrow>
      state (threads y t) \<noteq> THREAD_SLEEP \<and> on_cpu (threads y t) = d)" if "d < length (scheds y)" for d
    using sinv_queue [OF i that] queue_states [OF sinv_queue [OF i that], of t] by (auto simp: queue_inv_def)
  show ?thesis using q sinv_running [OF i, of t] sinv_runnable [OF i, of t] by auto
qed

lemma booted_spawn: "\<exists>y. sched_step (booted 1) y"
proof -
  have f: "fresh_thread (booted 1) 7"
    by (simp add: fresh_thread_def booted_def scheduler_init_ok some_thread_def)
      (simp add: scheduler_init_def)
  have r: "\<exists>d < length (scheds (booted 1)). running (booted 1) ! d" and c: "0 < length (scheds (booted 1))"
    by (simp_all add: booted_def)
  obtain y where "sched_add_thread 0 (booted 1) 7 = Some y"
    by (rule sched_add_thread_inv [OF booted_inv c r f])
  then show ?thesis using sched_step.spawn [OF c f] by blast
qed

theorem sched_reachable_placement_witness:
  "\<exists>y. sched_step (booted 1) y \<and> (\<forall>d < length (scheds y). distinct (order (scheds y ! d)))"
proof -
  obtain y where y: "sched_step (booted 1) y" using booted_spawn by blast
  from sched_reachable_placement [OF r_into_rtranclp [of sched_step, OF y], of 7] y show ?thesis by blast
qed

text \<open>C21. A wakeup is never lost: waking a thread that has not exited succeeds whatever the other
  processors do, a sleeping thread is afterwards queued on its processor, a thread on its
  way to sleep is kept awake, and no other thread is touched.\<close>

theorem sched_wakeup_not_lost:
  assumes "sched_step\<^sup>*\<^sup>* (booted n) y" and "c < length (scheds y)" and "state (threads y t) \<noteq> THREAD_EXIT"
  shows "\<exists>y'. sched_wakeup c y t pr = Some y' \<and> \<not> do_sleep (threads y' t) \<and> state (threads y' t) \<noteq> THREAD_SLEEP \<and>
    (state (threads y t) = THREAD_SLEEP \<longrightarrow> t \<in> set (order (scheds y' ! on_cpu (threads y t)))) \<and>
    (\<forall>u. u \<noteq> t \<longrightarrow> threads y' u = threads y u)"
proof -
  have i: "sys_inv y" by (rule sched_steps_inv [OF assms(1) booted_inv])
  obtain y' where y': "sched_wakeup c y t pr = Some y'" "sys_inv y'" "\<And>u. u \<noteq> t \<Longrightarrow> threads y' u = threads y u"
      and w: "woken (threads y t) (threads y' t)"
    by (rule sched_wakeup_inv [OF i assms(2,3), of pr]) blast
  show ?thesis
    using y' w sinv_runnable [OF sys_sinv [OF y'(2)], of t] by (auto simp: woken_def)
qed

theorem sched_wakeup_not_lost_witness:
  "\<exists>y'. sched_wakeup 0 (booted 2) 3 SCHED_NORMAL = Some y' \<and> \<not> do_sleep (threads y' 3)"
  using sched_wakeup_not_lost [OF rtranclp.rtrancl_refl, of 0 2 3 SCHED_NORMAL]
  by (auto simp: booted_def some_thread_def)

end
