(* ===== verification/Wait.thy ===== *)
theory Wait
  imports Sched_Inv Time
begin

text \<open>
  Wait queues (\<^verbatim>\<open>kern/wait.c\<close>) on top of the scheduler. A waiter keeps the address of its thread
  and two flags in one word; the model has them as three fields. \<^verbatim>\<open>wait_sleep_timeout\<close> gives up
  the processor in its middle, so it is modelled by the three pieces between the points
  where other processors can act: the check for a pending interrupt, the critical section
  that announces the sleep, and what runs after \<^verbatim>\<open>schedule\<close> returned. The steps of
  \<open>wait_step\<close> interleave these pieces with wakeups, interrupts, timeouts and context
  switches on any number of processors.
\<close>

type_synonym wref = nat

record waiter =
  w_thread :: tref
  w_done :: bool
  w_sleep :: bool

record wsys =
  sys :: system
  wq :: "wref list"
  waiters :: "wref \<Rightarrow> waiter"

definition wait_prep :: "nat \<Rightarrow> wref \<Rightarrow> wsys \<Rightarrow> wsys panicking" where
  "wait_prep c w W = do {
     s \<leftarrow> nth_opt (scheds (sys W)) c;
     t \<leftarrow> cur s;
     kassert (w \<notin> set (wq W));
     Some (W\<lparr>waiters := (waiters W)(w := \<lparr> w_thread = t, w_done = False, w_sleep = False \<rparr>), wq := wq W @ [w]\<rparr>) }"

definition wait_abort :: "wref \<Rightarrow> wsys \<Rightarrow> wsys panicking" where
  "wait_abort w W =
     (if \<not> w_done (waiters W w) then do {
        kassert (w \<in> set (wq W));
        Some (W\<lparr>wq := remove1 w (wq W)\<rparr>) }
      else Some W)"

definition wait_timeout :: "nat \<Rightarrow> wref \<Rightarrow> wsys \<Rightarrow> wsys panicking" where
  "wait_timeout c w W = do {
     y \<leftarrow> sched_wakeup c (sys W) (w_thread (waiters W w)) SCHED_NORMAL;
     Some (W\<lparr>sys := y\<rparr>) }"

text \<open>The check before the sleep; \<open>Some e\<close> is the error the caller gets.\<close>

definition wait_sleep_check :: "nat \<Rightarrow> wref \<Rightarrow> bool \<Rightarrow> bool \<Rightarrow> wsys \<Rightarrow> (wsys \<times> errno option) panicking" where
  "wait_sleep_check c w may_intr timeout W = do {
     kassert (timeout \<longrightarrow> may_intr);
     e \<leftarrow> (if may_intr then sched_interrupted c (sys W) else Some None);
     (case e of
        None \<Rightarrow> Some (W, None)
      | Some e \<Rightarrow> do {
          W \<leftarrow> wait_abort w W;
          Some (W, Some e) }) }"

text \<open>The critical section; the result says whether the thread goes on to \<^verbatim>\<open>schedule\<close>.\<close>

definition wait_sleep_enter :: "nat \<Rightarrow> wref \<Rightarrow> bool \<Rightarrow> wsys \<Rightarrow> (wsys \<times> bool) panicking" where
  "wait_sleep_enter c w may_intr W =
     (if w_done (waiters W w) then Some (W, False)
      else do {
        let W = W\<lparr>waiters := (waiters W)(w := (waiters W w)\<lparr>w_sleep := True\<rparr>)\<rparr>;
        y \<leftarrow> sched_set_inactive c (sys W) may_intr;
        Some (W\<lparr>sys := y\<rparr>, True) })"

text \<open>After \<^verbatim>\<open>schedule\<close>: \<open>rem\<close> is what \<^verbatim>\<open>timer_stop\<close> returned when there is a timeout. The result has
  the error and the new value of the timeout.\<close>

definition wait_sleep_leave ::
  "nat \<Rightarrow> wref \<Rightarrow> bool \<Rightarrow> u64 option \<Rightarrow> wsys \<Rightarrow> (wsys \<times> errno option \<times> timespec option) panicking" where
  "wait_sleep_leave c w may_intr rem W =
     (if rem = Some 0 then do {
        W \<leftarrow> wait_abort w W;
        Some (W, Some ETIMEDOUT, Some \<lparr> tv_sec = 0, tv_nsec = 0 \<rparr>) }
      else do {
        let ts = map_option nsec_to_ts rem;
        e \<leftarrow> (if may_intr then sched_interrupted c (sys W) else Some None);
        (case e of
           None \<Rightarrow> do {
             kassert (w_done (waiters W w));
             Some (W, None, ts) }
         | Some e \<Rightarrow> do {
             W \<leftarrow> wait_abort w W;
             Some (W, Some e, ts) }) })"

definition wakeup_waiter :: "nat \<Rightarrow> wref \<Rightarrow> sched_prio \<Rightarrow> wsys \<Rightarrow> wsys panicking" where
  "wakeup_waiter c w pr W = do {
     kassert (\<not> w_done (waiters W w));
     kassert (w \<in> set (wq W));
     let W = W\<lparr>wq := remove1 w (wq W), waiters := (waiters W)(w := (waiters W w)\<lparr>w_done := True\<rparr>)\<rparr>;
     if w_sleep (waiters W w) then do {
       y \<leftarrow> sched_wakeup c (sys W) (w_thread (waiters W w)) pr;
       Some (W\<lparr>sys := y\<rparr>) }
     else Some W }"

fun wakeup_loop :: "nat \<Rightarrow> sched_prio \<Rightarrow> nat \<Rightarrow> wref list \<Rightarrow> wsys \<Rightarrow> wsys panicking" where
  "wakeup_loop c pr n [] W = Some W"
| "wakeup_loop c pr n (w # ws) W =
     (if n = 0 then Some W
      else do {
        W \<leftarrow> wakeup_waiter c w pr W;
        wakeup_loop c pr (n - 1) ws W })"

definition wakeup_num :: "nat \<Rightarrow> sched_prio \<Rightarrow> nat \<Rightarrow> wsys \<Rightarrow> wsys panicking" where
  "wakeup_num c pr n W = wakeup_loop c pr n (wq W) W"

definition wakeup :: "nat \<Rightarrow> sched_prio \<Rightarrow> wsys \<Rightarrow> wsys panicking" where
  "wakeup c pr W = wakeup_num c pr 4294967295 W"

text \<open>\<^verbatim>\<open>sleep_timespec\<close> and \<^verbatim>\<open>sys_nanosleep\<close> of \<^verbatim>\<open>kern/time.c\<close> around the sleep: \<open>sleep\<close> gives its
  result and the remaining time.\<close>

definition sleep_timespec :: "(timespec \<Rightarrow> errno option \<times> timespec) \<Rightarrow> timespec \<Rightarrow> errno option \<times> timespec" where
  "sleep_timespec sleep ts = (case sleep ts of
     (Some ETIMEDOUT, r) \<Rightarrow> (None, r)
   | (Some ERESTART, r) \<Rightarrow> (Some EINTR, r)
   | (e, r) \<Rightarrow> (e, r))"

definition sys_nanosleep ::
  "errno + timespec \<Rightarrow> (timespec \<Rightarrow> errno option \<times> timespec) \<Rightarrow> (timespec \<Rightarrow> errno option) \<Rightarrow> errno option" where
  "sys_nanosleep copied sleep copyout = (case copyin_ts copied of
     Inl e \<Rightarrow> Some e
   | Inr ts \<Rightarrow> (case sleep_timespec sleep ts of
       (Some EINTR, rem) \<Rightarrow> (case copyout rem of None \<Rightarrow> Some EINTR | Some e \<Rightarrow> Some e)
     | (e, _) \<Rightarrow> e))"

subsection \<open>Interleavings\<close>

text \<open>Where a thread is in its use of the queue: not waiting, prepared, past the check for
  interrupts, past the critical section, inside \<^verbatim>\<open>schedule\<close>. The flags are
  \<^verbatim>\<open>WAIT_INTERRUPTABLE\<close> and whether there is a timeout.\<close>

datatype phase =
    Idle
  | Prepared wref
  | Checked wref bool bool
  | Sleeping wref bool bool
  | Waiting wref bool bool

fun phase_waiter :: "phase \<Rightarrow> wref option" where
  "phase_waiter Idle = None"
| "phase_waiter (Prepared w) = Some w"
| "phase_waiter (Checked w _ _) = Some w"
| "phase_waiter (Sleeping w _ _) = Some w"
| "phase_waiter (Waiting w _ _) = Some w"

text \<open>\<open>fired w\<close> says that the timer of the sleep has called \<^verbatim>\<open>wait_timeout\<close>.\<close>

record wstate =
  ws :: wsys
  ph :: "tref \<Rightarrow> phase"
  fired :: "wref \<Rightarrow> bool"

definition runs :: "wstate \<Rightarrow> nat \<Rightarrow> tref \<Rightarrow> bool" where
  "runs st c t \<longleftrightarrow> c < length (scheds (sys (ws st))) \<and> cur (scheds (sys (ws st)) ! c) = Some t \<and>
     state (threads (sys (ws st)) t) = THREAD_RUNNING"

abbreviation set_sys :: "wstate \<Rightarrow> system \<Rightarrow> wstate" where
  "set_sys st y \<equiv> st\<lparr>ws := (ws st)\<lparr>sys := y\<rparr>\<rparr>"

text \<open>Every step is one of the functions above or of the scheduler, run by some processor. A thread
  takes the steps of its own sleep in their order; a waiter serves one sleep at a time; the
  timer of a sleep that has fired has no time left.\<close>

inductive wait_step :: "wstate \<Rightarrow> wstate \<Rightarrow> bool" where
  prep: "runs st c t \<Longrightarrow> ph st t = Idle \<Longrightarrow> \<forall>u. phase_waiter (ph st u) \<noteq> Some w \<Longrightarrow> wait_prep c w (ws st) = Some W \<Longrightarrow>
    wait_step st (st\<lparr>ws := W, ph := (ph st)(t := Prepared w), fired := (fired st)(w := False)\<rparr>)"
| abort: "runs st c t \<Longrightarrow> ph st t = Prepared w \<Longrightarrow> wait_abort w (ws st) = Some W \<Longrightarrow>
    wait_step st (st\<lparr>ws := W, ph := (ph st)(t := Idle)\<rparr>)"
| check: "runs st c t \<Longrightarrow> ph st t = Prepared w \<Longrightarrow> wait_sleep_check c w may tmo (ws st) = Some (W, e) \<Longrightarrow>
    wait_step st (st\<lparr>ws := W, ph := (ph st)(t := if e = None then Checked w may tmo else Idle)\<rparr>)"
| enter: "runs st c t \<Longrightarrow> ph st t = Checked w may tmo \<Longrightarrow> wait_sleep_enter c w may (ws st) = Some (W, sw) \<Longrightarrow>
    wait_step st (st\<lparr>ws := W, ph := (ph st)(t := if sw then Sleeping w may tmo else Idle)\<rparr>)"
| call: "runs st c t \<Longrightarrow> ph st t = Sleeping w may tmo \<Longrightarrow> schedule c (sys (ws st)) = Some (y, vas) \<Longrightarrow>
    wait_step st ((set_sys st y)\<lparr>ph := (ph st)(t := Waiting w may tmo)\<rparr>)"
| leave: "runs st c t \<Longrightarrow> ph st t = Waiting w may tmo \<Longrightarrow> (rem \<noteq> None) = tmo \<Longrightarrow> (fired st w \<longrightarrow> rem = Some 0) \<Longrightarrow>
    wait_sleep_leave c w may rem (ws st) = Some (W, e, ts) \<Longrightarrow>
    wait_step st (st\<lparr>ws := W, ph := (ph st)(t := Idle)\<rparr>)"
| wake: "c < length (scheds (sys (ws st))) \<Longrightarrow> wakeup_num c pr n (ws st) = Some W \<Longrightarrow> wait_step st (st\<lparr>ws := W\<rparr>)"
| timeout: "c < length (scheds (sys (ws st))) \<Longrightarrow> ph st t = Sleeping w may True \<or> ph st t = Waiting w may True \<Longrightarrow>
    wait_timeout c w (ws st) = Some W \<Longrightarrow> wait_step st (st\<lparr>ws := W, fired := (fired st)(w := True)\<rparr>)"
| interrupt: "c < length (scheds (sys (ws st))) \<Longrightarrow> state (threads (sys (ws st)) t) \<noteq> THREAD_EXIT \<Longrightarrow>
    sched_interrupt c (sys (ws st)) t pr k restart = Some y \<Longrightarrow> wait_step st (set_sys st y)"
| preempt: "c < length (scheds (sys (ws st))) \<Longrightarrow> schedule c (sys (ws st)) = Some (y, vas) \<Longrightarrow> wait_step st (set_sys st y)"
| pending: "runs st c t \<Longrightarrow> ph st t = Idle \<Longrightarrow> sched_pending_intr c (sys (ws st)) = Some (y, k) \<Longrightarrow> wait_step st (set_sys st y)"
| spawn: "c < length (scheds (sys (ws st))) \<Longrightarrow> fresh_thread (sys (ws st)) t \<Longrightarrow> ph st t = Idle \<Longrightarrow>
    sched_add_thread c (sys (ws st)) t = Some y \<Longrightarrow> wait_step st (set_sys st y)"
| exit: "runs st c t \<Longrightarrow> ph st t = Idle \<Longrightarrow> thread_do_exit c (sys (ws st)) = Some (y, vas) \<Longrightarrow> wait_step st (set_sys st y)"

subsection \<open>The invariant\<close>

definition sleep_ok :: "thread \<Rightarrow> waiter \<Rightarrow> bool \<Rightarrow> bool \<Rightarrow> bool \<Rightarrow> bool" where
  "sleep_ok x d f may tmo \<longleftrightarrow> w_sleep d \<and> (parked x \<longleftrightarrow> \<not> w_done d \<and> \<not> f \<and> \<not> (may \<and> interrupted x)) \<and>
     (interruptable x \<longleftrightarrow> parked x \<and> may) \<and> (f \<longrightarrow> tmo)"

fun phase_ok :: "phase \<Rightarrow> thread \<Rightarrow> (wref \<Rightarrow> waiter) \<Rightarrow> (wref \<Rightarrow> bool) \<Rightarrow> bool" where
  "phase_ok Idle x ds fs = (\<not> parked x \<and> \<not> interruptable x)"
| "phase_ok (Prepared w) x ds fs = (\<not> parked x \<and> \<not> interruptable x \<and> \<not> w_sleep (ds w) \<and> \<not> fs w)"
| "phase_ok (Checked w may tmo) x ds fs = (\<not> parked x \<and> \<not> interruptable x \<and> \<not> w_sleep (ds w) \<and> \<not> fs w)"
| "phase_ok (Sleeping w may tmo) x ds fs = sleep_ok x (ds w) (fs w) may tmo"
| "phase_ok (Waiting w may tmo) x ds fs = (sleep_ok x (ds w) (fs w) may tmo \<and> \<not> do_sleep x)"

definition winv :: "wstate \<Rightarrow> bool" where
  "winv st \<longleftrightarrow> sys_inv (sys (ws st)) \<and> distinct (wq (ws st)) \<and>
     (\<forall>w \<in> set (wq (ws st)). \<exists>t. phase_waiter (ph st t) = Some w) \<and>
     (\<forall>t w. phase_waiter (ph st t) = Some w \<longrightarrow> w_thread (waiters (ws st) w) = t \<and>
        (w \<in> set (wq (ws st)) \<longleftrightarrow> \<not> w_done (waiters (ws st) w)) \<and> state (threads (sys (ws st)) t) \<noteq> THREAD_EXIT) \<and>
     (\<forall>t. phase_ok (ph st t) (threads (sys (ws st)) t) (waiters (ws st)) (fired st))"

lemma winvD:
  assumes "winv st"
  shows winv_sys: "sys_inv (sys (ws st))" and winv_distinct: "distinct (wq (ws st))"
    and winv_queued: "w \<in> set (wq (ws st)) \<Longrightarrow> \<exists>t. phase_waiter (ph st t) = Some w"
    and winv_thread: "phase_waiter (ph st t) = Some w \<Longrightarrow> w_thread (waiters (ws st) w) = t"
    and winv_on: "phase_waiter (ph st t) = Some w \<Longrightarrow> w \<in> set (wq (ws st)) \<longleftrightarrow> \<not> w_done (waiters (ws st) w)"
    and winv_live: "phase_waiter (ph st t) = Some w \<Longrightarrow> state (threads (sys (ws st)) t) \<noteq> THREAD_EXIT"
    and winv_ok: "phase_ok (ph st t) (threads (sys (ws st)) t) (waiters (ws st)) (fired st)"
  using assms unfolding winv_def by blast+

lemma phase_ok_other:
  assumes "phase_ok p x ds fs" "\<And>v. phase_waiter p = Some v \<Longrightarrow> ds' v = ds v \<and> fs' v = fs v"
  shows "phase_ok p x ds' fs'"
  using assms by (cases p) auto

lemma phase_ok_switched:
  "phase_ok p x ds fs \<Longrightarrow> switched x x' \<Longrightarrow> (do_sleep x' \<Longrightarrow> do_sleep x) \<Longrightarrow> phase_ok p x' ds fs"
  by (cases p) (auto simp: sleep_ok_def switched_def same_flags_def)

lemma phase_ok_interrupted:
  "phase_ok p x ds fs \<Longrightarrow> interrupted_by x x' \<Longrightarrow> (interrupted x \<Longrightarrow> \<not> interruptable x) \<Longrightarrow> phase_ok p x' ds fs"
  by (cases p) (auto simp: sleep_ok_def interrupted_by_def)

text \<open>A step that changes only the scheduler.\<close>

lemma winv_set_sys:
  assumes "winv st" "sys_inv y"
    "\<And>t. phase_ok (ph st t) (threads y t) (waiters (ws st)) (fired st)"
    "\<And>t w. phase_waiter (ph st t) = Some w \<Longrightarrow> state (threads y t) \<noteq> THREAD_EXIT"
  shows "winv (set_sys st y)"
  using assms unfolding winv_def by simp

text \<open>A step of or for the thread \<open>t\<close> with its waiter \<open>w\<close>.\<close>

lemma winv_own:
  assumes i: "winv st" and own: "phase_waiter (ph st t) = Some w \<or> phase_waiter (ph st t) = None \<and> (\<forall>u. phase_waiter (ph st u) \<noteq> Some w)"
    and y: "sys_inv (sys (ws st'))" "\<And>u. u \<noteq> t \<Longrightarrow> threads (sys (ws st')) u = threads (sys (ws st)) u"
    and q: "distinct (wq (ws st'))" "\<And>v. v \<noteq> w \<Longrightarrow> v \<in> set (wq (ws st')) \<longleftrightarrow> v \<in> set (wq (ws st))"
    and d: "\<And>v. v \<noteq> w \<Longrightarrow> waiters (ws st') v = waiters (ws st) v \<and> fired st' v = fired st v"
    and p: "ph st' = (ph st)(t := p)" "phase_waiter p = Some w \<or> phase_waiter p = None \<and> w \<notin> set (wq (ws st'))"
    and n: "phase_waiter p = Some w \<Longrightarrow> w_thread (waiters (ws st') w) = t \<and>
      (w \<in> set (wq (ws st')) \<longleftrightarrow> \<not> w_done (waiters (ws st') w)) \<and> state (threads (sys (ws st')) t) \<noteq> THREAD_EXIT"
    and ok: "phase_ok p (threads (sys (ws st')) t) (waiters (ws st')) (fired st')"
  shows "winv st'"
proof -
  have oth: "v \<noteq> w" if "u \<noteq> t" "phase_waiter (ph st u) = Some v" for u v
    using own that winv_thread [OF i, of t w] winv_thread [OF i that(2)] by auto
  have tv: "v = w" if "phase_waiter (ph st t) = Some v" for v using own that by auto
  have a: "\<exists>u. phase_waiter (ph st' u) = Some v" if v: "v \<in> set (wq (ws st'))" for v
  proof (cases "v = w")
    case True
    with p v show ?thesis by (intro exI [of _ t]) auto
  next
    case False
    then obtain u where "phase_waiter (ph st u) = Some v" using winv_queued [OF i, of v] q(2) v by auto
    moreover have "u \<noteq> t" using calculation tv False by auto
    ultimately show ?thesis using p(1) by (intro exI [of _ u]) simp
  qed
  have b: "w_thread (waiters (ws st') v) = u \<and> (v \<in> set (wq (ws st')) \<longleftrightarrow> \<not> w_done (waiters (ws st') v)) \<and>
      state (threads (sys (ws st')) u) \<noteq> THREAD_EXIT" if pw: "phase_waiter (ph st' u) = Some v" for u v
  proof (cases "u = t")
    case True
    then have "v = w" "phase_waiter p = Some w" using pw p by auto
    then show ?thesis using n True by simp
  next
    case False
    then have "phase_waiter (ph st u) = Some v" using pw p(1) by simp
    with oth [OF False this] winv_thread [OF i this] winv_on [OF i this] winv_live [OF i this] q(2) d y(2) [OF False]
    show ?thesis by simp
  qed
  have c: "phase_ok (ph st' u) (threads (sys (ws st')) u) (waiters (ws st')) (fired st')" for u
  proof (cases "u = t")
    case False
    then show ?thesis
      using phase_ok_other [OF winv_ok [OF i, of u]] oth [OF False] d y(2) [OF False] p(1) by simp
  qed (use ok p(1) in simp)
  show ?thesis unfolding winv_def using y(1) q(1) a b c by blast
qed

lemma wait_abort_inv:
  assumes i: "winv st" and t: "phase_waiter (ph st t) = Some w" "\<not> parked (threads (sys (ws st)) t)" "\<not> interruptable (threads (sys (ws st)) t)"
  obtains W where "wait_abort w (ws st) = Some W" "winv (st\<lparr>ws := W, ph := (ph st)(t := Idle)\<rparr>)"
    "sys W = sys (ws st)" "w \<notin> set (wq W)"
proof -
  let ?W = "(ws st)\<lparr>wq := remove1 w (wq (ws st))\<rparr>"
  have dist: "distinct (wq (ws st))" by (rule winv_distinct [OF i])
  have ab: "wait_abort w (ws st) = Some ?W"
    using winv_on [OF i t(1)] by (auto simp: wait_abort_def remove1_idem)
  have "winv (st\<lparr>ws := ?W, ph := (ph st)(t := Idle)\<rparr>)"
    by (rule winv_own [OF i, of t w _ Idle]) (use winv_sys [OF i] dist t in \<open>auto simp: notin_set_remove1\<close>)
  then show ?thesis by (rule that [OF ab]) (use dist in simp_all)
qed

lemma phase_sleeping:
  assumes "phase_ok p x ds fs" "phase_waiter p = Some w" "w_sleep (ds w)"
  obtains may tmo where "p = Sleeping w may tmo \<or> p = Waiting w may tmo" "sleep_ok x (ds w) (fs w) may tmo"
  using assms by (cases p) auto

lemma phase_ok_woken:
  assumes "phase_ok p x ds fs" "phase_waiter p = Some w" "w_sleep (ds w)" "woken x x'" "w_sleep (ds' w)"
    "w_done (ds' w) \<or> fs' w" "fs' w \<Longrightarrow> fs w \<or> (\<exists>may. p = Sleeping w may True \<or> p = Waiting w may True)"
  shows "phase_ok p x' ds' fs'"
proof -
  obtain may tmo where p: "p = Sleeping w may tmo \<or> p = Waiting w may tmo" "sleep_ok x (ds w) (fs w) may tmo"
    by (rule phase_sleeping [OF assms(1-3)])
  have "\<not> parked x'" using assms(4) by (auto simp: woken_def parked_def)
  then show ?thesis using p assms(4-7) by (auto simp: sleep_ok_def woken_def)
qed

lemma wakeup_waiter_inv:
  assumes i: "winv st" and c: "c < length (scheds (sys (ws st)))" and w: "w \<in> set (wq (ws st))"
  obtains W where "wakeup_waiter c w pr (ws st) = Some W" "winv (st\<lparr>ws := W\<rparr>)" "wq W = remove1 w (wq (ws st))"
    "w_done (waiters W w)" "\<not> parked (threads (sys W) (w_thread (waiters W w)))" "w_thread (waiters W w) = w_thread (waiters (ws st) w)"
    "\<And>v. v \<noteq> w \<Longrightarrow> waiters W v = waiters (ws st) v" "length (scheds (sys W)) = length (scheds (sys (ws st)))"
    "\<And>u. u \<noteq> w_thread (waiters W w) \<Longrightarrow> threads (sys W) u = threads (sys (ws st)) u"
proof -
  obtain t where t: "phase_waiter (ph st t) = Some w" using winv_queued [OF i w] by blast
  have th: "w_thread (waiters (ws st) w) = t" and nd: "\<not> w_done (waiters (ws st) w)"
    and live: "state (threads (sys (ws st)) t) \<noteq> THREAD_EXIT"
    using winv_thread [OF i t] winv_on [OF i t] w winv_live [OF i t] by auto
  define W1 where "W1 = (ws st)\<lparr>wq := remove1 w (wq (ws st)), waiters := (waiters (ws st))(w := (waiters (ws st) w)\<lparr>w_done := True\<rparr>)\<rparr>"
  have W1: "sys W1 = sys (ws st)" "wq W1 = remove1 w (wq (ws st))" "w_done (waiters W1 w)" "w_thread (waiters W1 w) = t"
    "w_sleep (waiters W1 w) = w_sleep (waiters (ws st) w)" "\<And>v. v \<noteq> w \<Longrightarrow> waiters W1 v = waiters (ws st) v"
    using th by (simp_all add: W1_def)
  have run: "wakeup_waiter c w pr (ws st) = (if w_sleep (waiters W1 w) then do {
       y \<leftarrow> sched_wakeup c (sys W1) (w_thread (waiters W1 w)) pr; Some (W1\<lparr>sys := y\<rparr>) } else Some W1)"
    using nd w by (simp add: wakeup_waiter_def W1_def)
  have dist: "distinct (wq (ws st))" by (rule winv_distinct [OF i])
  show ?thesis
  proof (cases "w_sleep (waiters (ws st) w)")
    case True
    obtain y where y: "sched_wakeup c (sys (ws st)) t pr = Some y" "sys_inv y" "same_cpus (sys (ws st)) y"
        "\<And>u. u \<noteq> t \<Longrightarrow> threads y u = threads (sys (ws st)) u" and wk: "woken (threads (sys (ws st)) t) (threads y t)"
      by (rule sched_wakeup_inv [OF winv_sys [OF i] c live, of pr]) blast
    let ?W = "W1\<lparr>sys := y\<rparr>"
    have np: "\<not> parked (threads y t)" "state (threads y t) \<noteq> THREAD_EXIT" using wk live by (auto simp: woken_def parked_def)
    have pk: "phase_ok (ph st t) (threads y t) (waiters W1) (fired st)"
      by (rule phase_ok_woken [OF winv_ok [OF i] t True wk]) (use W1 True in auto)
    have "winv (st\<lparr>ws := ?W\<rparr>)"
      by (rule winv_own [OF i, of t w _ "ph st t"]) (use W1 y np pk t dist in \<open>auto simp: notin_set_remove1\<close>)
    moreover have "wakeup_waiter c w pr (ws st) = Some ?W" using run True W1 y(1) by simp
    ultimately show ?thesis using W1 np y(3,4) th by (intro that [of ?W]) (auto simp: same_cpus_def)
  next
    case False
    have ok: "phase_ok (ph st t) (threads (sys (ws st)) t) (waiters W1) (fired st)"
      and np: "\<not> parked (threads (sys (ws st)) t)"
      using winv_ok [OF i, of t] t W1(5) False by (cases "ph st t"; auto simp: sleep_ok_def)+
    have "winv (st\<lparr>ws := W1\<rparr>)"
      by (rule winv_own [OF i, of t w _ "ph st t"]) (use W1 ok live t dist winv_sys [OF i] in \<open>auto simp: notin_set_remove1\<close>)
    moreover have "wakeup_waiter c w pr (ws st) = Some W1" using run False W1 by simp
    ultimately show ?thesis using W1 np th by (intro that [of W1]) auto
  qed
qed

lemma queued_threads_differ:
  assumes "winv st" "v \<in> set (wq (ws st))" "w \<in> set (wq (ws st))" "v \<noteq> w"
  shows "w_thread (waiters (ws st) v) \<noteq> w_thread (waiters (ws st) w)"
proof -
  obtain t u where "phase_waiter (ph st t) = Some v" "phase_waiter (ph st u) = Some w"
    using winv_queued [OF assms(1)] assms(2,3) by blast
  then show ?thesis using winv_thread [OF assms(1)] assms(4) by fastforce
qed

lemma wakeup_loop_inv:
  assumes "winv st" "c < length (scheds (sys (ws st)))" "wq (ws st) = l"
  shows "\<exists>W. wakeup_loop c pr n l (ws st) = Some W \<and> winv (st\<lparr>ws := W\<rparr>) \<and> wq W = drop n l \<and>
    (\<forall>w \<in> set (take n l). w_done (waiters W w) \<and> \<not> parked (threads (sys W) (w_thread (waiters W w)))) \<and>
    (\<forall>w. w_thread (waiters W w) = w_thread (waiters (ws st) w)) \<and>
    (\<forall>u. u \<notin> (\<lambda>w. w_thread (waiters (ws st) w)) ` set (take n l) \<longrightarrow> threads (sys W) u = threads (sys (ws st)) u) \<and>
    (\<forall>w. w \<notin> set (take n l) \<longrightarrow> waiters W w = waiters (ws st) w)"
  using assms
proof (induction l arbitrary: n st)
  case Nil
  then show ?case by simp
next
  case (Cons w l)
  show ?case
  proof (cases n)
    case 0
    with Cons.prems show ?thesis by simp
  next
    case (Suc m)
    have dist: "w \<notin> set l" "distinct l" using winv_distinct [OF Cons.prems(1)] Cons.prems(3) by auto
    obtain W1 where W1: "wakeup_waiter c w pr (ws st) = Some W1" "winv (st\<lparr>ws := W1\<rparr>)" "wq W1 = remove1 w (wq (ws st))"
        "w_done (waiters W1 w)" "\<not> parked (threads (sys W1) (w_thread (waiters W1 w)))" "w_thread (waiters W1 w) = w_thread (waiters (ws st) w)"
        "\<And>v. v \<noteq> w \<Longrightarrow> waiters W1 v = waiters (ws st) v" "length (scheds (sys W1)) = length (scheds (sys (ws st)))"
        "\<And>u. u \<noteq> w_thread (waiters W1 w) \<Longrightarrow> threads (sys W1) u = threads (sys (ws st)) u"
      by (rule wakeup_waiter_inv [OF Cons.prems(1,2), of w pr]) (use Cons.prems(3) in auto)
    have l: "wq W1 = l" using W1(3) Cons.prems(3) by simp
    let ?st = "st\<lparr>ws := W1\<rparr>"
    have c1: "c < length (scheds (sys (ws ?st)))" "wq (ws ?st) = l" using W1(8) Cons.prems(2) l by simp_all
    obtain W where W: "wakeup_loop c pr m l W1 = Some W" "winv (st\<lparr>ws := W\<rparr>)" "wq W = drop m l"
        "\<forall>w \<in> set (take m l). w_done (waiters W w) \<and> \<not> parked (threads (sys W) (w_thread (waiters W w)))"
        "\<forall>w. w_thread (waiters W w) = w_thread (waiters W1 w)"
        "\<forall>u. u \<notin> (\<lambda>w. w_thread (waiters W1 w)) ` set (take m l) \<longrightarrow> threads (sys W) u = threads (sys W1) u"
        "\<forall>w. w \<notin> set (take m l) \<longrightarrow> waiters W w = waiters W1 w"
      using Cons.IH [OF W1(2) c1, of m] by auto
    have thr: "w_thread (waiters W1 v) = w_thread (waiters (ws st) v)" for v using W1(6,7) by (cases "v = w") auto
    have nw: "w \<notin> set (take m l)" using dist(1) by (meson in_set_takeD)
    have "w_thread (waiters W1 w) \<noteq> w_thread (waiters W1 v)" if "v \<in> set (take m l)" for v
    proof -
      have "v \<in> set l" using that by (rule in_set_takeD)
      then show ?thesis
        using queued_threads_differ [OF Cons.prems(1), of w v] Cons.prems(3) dist(1) unfolding thr by auto
    qed
    then have tw: "threads (sys W) (w_thread (waiters W1 w)) = threads (sys W1) (w_thread (waiters W1 w))" using W(6) by blast
    have hd: "w_done (waiters W w) \<and> \<not> parked (threads (sys W) (w_thread (waiters W w)))"
      using W(5,7) nw W1(4,5) tw by simp
    have fr: "threads (sys W) u = threads (sys (ws st)) u" if "u \<notin> (\<lambda>w. w_thread (waiters (ws st) w)) ` set (take n (w # l))" for u
      using that W(6) W1(9) Suc unfolding thr by auto
    show ?thesis
      using W hd fr Suc W1(1,7) thr Cons.prems(3) by (intro exI [of _ W]) simp
  qed
qed

lemma runsD:
  assumes "runs st c t"
  shows "c < length (scheds (sys (ws st)))" "cur (scheds (sys (ws st)) ! c) = Some t" "state (threads (sys (ws st)) t) = THREAD_RUNNING"
  using assms by (auto simp: runs_def)

lemma sched_interrupted_cur:
  assumes "runs st c t" "\<not> interruptable (threads (sys (ws st)) t)"
  shows "sched_interrupted c (sys (ws st)) = Some (if interrupted (threads (sys (ws st)) t)
    then Some (if restartsys (threads (sys (ws st)) t) then ERESTART else EINTR) else None)"
  using assms by (simp add: sched_interrupted_def runs_def Let_def)

lemma winv_idle:
  assumes i: "winv st" and t: "phase_waiter (ph st t) = Some w" "\<not> parked (threads (sys (ws st)) t)"
    "\<not> interruptable (threads (sys (ws st)) t)" and d: "w_done (waiters (ws st) w)"
  shows "winv (st\<lparr>ph := (ph st)(t := Idle)\<rparr>)"
proof -
  have "w \<notin> set (wq (ws st))" using winv_on [OF i t(1)] d by simp
  then show ?thesis
    by (intro winv_own [OF i, of t w _ Idle]) (use winv_sys [OF i] winv_distinct [OF i] t in auto)
qed

lemma wait_sleep_leave_inv:
  assumes i: "winv st" and r: "runs st c t" and p: "ph st t = Waiting w may tmo"
    and rem: "(rem \<noteq> None) = tmo" "fired st w \<longrightarrow> rem = Some 0"
  obtains W e ts where "wait_sleep_leave c w may rem (ws st) = Some (W, e, ts)" "winv (st\<lparr>ws := W, ph := (ph st)(t := Idle)\<rparr>)"
proof -
  let ?x = "threads (sys (ws st)) t"
  have pw: "phase_waiter (ph st t) = Some w" using p by simp
  have s: "sleep_ok ?x (waiters (ws st) w) (fired st w) may tmo" "\<not> do_sleep ?x" using winv_ok [OF i, of t] p by auto
  have np: "\<not> parked ?x" using runsD(3) [OF r] s(2) by (simp add: parked_def)
  have ni: "\<not> interruptable ?x" using s(1) np by (simp add: sleep_ok_def)
  obtain W where ab: "wait_abort w (ws st) = Some W" "winv (st\<lparr>ws := W, ph := (ph st)(t := Idle)\<rparr>)"
    by (rule wait_abort_inv [OF i pw np ni])
  note si = sched_interrupted_cur [OF r ni]
  show ?thesis
  proof (cases "rem = Some 0 \<or> may \<and> interrupted ?x")
    case True
    then have "\<exists>e ts. wait_sleep_leave c w may rem (ws st) = Some (W, e, ts)"
      using ab si by (auto simp: wait_sleep_leave_def)
    then show ?thesis using that [OF _ ab(2)] by blast
  next
    case False
    then have d: "w_done (waiters (ws st) w)" using s(1) np rem(2) by (auto simp: sleep_ok_def)
    have "wait_sleep_leave c w may rem (ws st) = Some (ws st, None, map_option nsec_to_ts rem)"
      using False d si by (auto simp: wait_sleep_leave_def)
    moreover have "winv (st\<lparr>ws := ws st, ph := (ph st)(t := Idle)\<rparr>)" using winv_idle [OF i pw np ni d] by simp
    ultimately show ?thesis by (rule that)
  qed
qed

lemma prepared_running:
  assumes i: "winv st" and p: "ph st t = Prepared w \<or> ph st t = Checked w may tmo"
  shows "phase_waiter (ph st t) = Some w" "\<not> parked (threads (sys (ws st)) t)" "\<not> interruptable (threads (sys (ws st)) t)"
    "\<not> w_sleep (waiters (ws st) w)" "\<not> fired st w"
  using winv_ok [OF i, of t] p by auto

lemma winv_switched:
  assumes i: "winv st" and y: "sys_inv y" "\<And>u. switched (threads (sys (ws st)) u) (threads y u)"
    "\<And>u. do_sleep (threads y u) \<Longrightarrow> do_sleep (threads (sys (ws st)) u)"
  shows "winv (set_sys st y)"
proof (rule winv_set_sys [OF i y(1)])
  show "phase_ok (ph st u) (threads y u) (waiters (ws st)) (fired st)" for u
    by (rule phase_ok_switched [OF winv_ok [OF i] y(2,3)])
  show "state (threads y u) \<noteq> THREAD_EXIT" if "phase_waiter (ph st u) = Some w" for u w
    using winv_live [OF i that] y(2) [of u] by (simp add: switched_def same_flags_def)
qed

lemma winv_idle_sys:
  assumes i: "winv st" and y: "sys_inv y" and t: "ph st t = Idle" "\<And>u. u \<noteq> t \<Longrightarrow> threads y u = threads (sys (ws st)) u"
    "\<not> parked (threads y t)" "\<not> interruptable (threads y t)"
  shows "winv (set_sys st y)"
proof (rule winv_set_sys [OF i y])
  show "phase_ok (ph st u) (threads y u) (waiters (ws st)) (fired st)" for u
    using winv_ok [OF i, of u] t by (cases "u = t") auto
  show "state (threads y u) \<noteq> THREAD_EXIT" if "phase_waiter (ph st u) = Some w" for u w
    using winv_live [OF i that] t(1) t(2) [of u] that by (cases "u = t") auto
qed

lemma winv_prep:
  assumes h: "runs st c t"
    "ph st t = Idle"
    "\<forall>u. phase_waiter (ph st u) \<noteq> Some w"
    "wait_prep c w (ws st) = Some W"
    and i: "winv st"
  shows "winv ((st\<lparr>ws := W, ph := (ph st)(t := Prepared w), fired := (fired st)(w := False)\<rparr>))"
proof -
  have W: "W = (ws st)\<lparr>waiters := (waiters (ws st))(w := \<lparr> w_thread = t, w_done = False, w_sleep = False \<rparr>), wq := wq (ws st) @ [w]\<rparr>"
    "w \<notin> set (wq (ws st))"
    using h(1,4) by (auto simp: wait_prep_def runs_def bind_eq_Some_conv)
  have ok: "\<not> parked (threads (sys (ws st)) t)" "\<not> interruptable (threads (sys (ws st)) t)"
    using winv_ok [OF i, of t] h(2) by auto
  show ?thesis
    by (rule winv_own [OF i, of t w _ "Prepared w"])
      (use W ok h runsD [OF h(1)] winv_sys [OF i] winv_distinct [OF i] in auto)
qed

lemma winv_abort:
  assumes h: "runs st c t"
    "ph st t = Prepared w"
    "wait_abort w (ws st) = Some W"
    and i: "winv st"
  shows "winv ((st\<lparr>ws := W, ph := (ph st)(t := Idle)\<rparr>))"
proof -
  note p = prepared_running [OF i disjI1 [OF h(2)]]
  obtain V where "wait_abort w (ws st) = Some V" "winv (st\<lparr>ws := V, ph := (ph st)(t := Idle)\<rparr>)"
    by (rule wait_abort_inv [OF i p(1-3)])
  with h(3) show ?thesis by simp
qed

lemma winv_check:
  assumes h: "runs st c t"
    "ph st t = Prepared w"
    "wait_sleep_check c w may tmo (ws st) = Some (W, e)"
    and i: "winv st"
  shows "winv ((st\<lparr>ws := W, ph := (ph st)(t := if e = None then Checked w may tmo else Idle)\<rparr>))"
proof -
  note p = prepared_running [OF i disjI1 [OF h(2)]]
  obtain V where V: "wait_abort w (ws st) = Some V" "winv (st\<lparr>ws := V, ph := (ph st)(t := Idle)\<rparr>)"
    by (rule wait_abort_inv [OF i p(1-3)])
  note si = sched_interrupted_cur [OF h(1) p(3)]
  show ?thesis
  proof (cases "may \<and> interrupted (threads (sys (ws st)) t)")
    case True
    then have "W = V" "e \<noteq> None" using h(3) si V(1) by (auto simp: wait_sleep_check_def bind_eq_Some_conv)
    then show ?thesis using V(2) by auto
  next
    case False
    then have we: "W = ws st" "e = None" using h(3) si by (auto simp: wait_sleep_check_def bind_eq_Some_conv split: if_splits)
    show ?thesis
      by (rule winv_own [OF i, of t w _ "Checked w may tmo"])
        (use we p winv_sys [OF i] winv_distinct [OF i] winv_thread [OF i p(1)]
          winv_on [OF i p(1)] winv_live [OF i p(1)] in auto)
  qed
qed

lemma winv_enter:
  assumes h: "runs st c t"
    "ph st t = Checked w may tmo"
    "wait_sleep_enter c w may (ws st) = Some (W, sw)"
    and i: "winv st"
  shows "winv ((st\<lparr>ws := W, ph := (ph st)(t := if sw then Sleeping w may tmo else Idle)\<rparr>))"
proof -
  note p = prepared_running [OF i disjI2 [OF h(2)]]
  let ?x = "threads (sys (ws st)) t"
  show ?thesis
  proof (cases "w_done (waiters (ws st) w)")
    case True
    then have "W = ws st" "\<not> sw" using h(3) by (auto simp: wait_sleep_enter_def)
    then show ?thesis using winv_idle [OF i p(1-3) True] by simp
  next
    case False
    obtain y where y: "sched_set_inactive c (sys (ws st)) may = Some y" "sys_inv y"
        "threads y = (if may \<and> interrupted ?x then threads (sys (ws st))
          else (threads (sys (ws st)))(t := ?x\<lparr>interruptable := may, do_sleep := True\<rparr>))"
      by (rule sched_set_inactive_inv [OF winv_sys [OF i] runsD [OF h(1)] p(3), of may])
    have W: "W = (ws st)\<lparr>waiters := (waiters (ws st))(w := (waiters (ws st) w)\<lparr>w_sleep := True\<rparr>), sys := y\<rparr>" "sw"
      using h(3) False y(1) by (auto simp: wait_sleep_enter_def Let_def bind_eq_Some_conv)
    have live: "state (threads y t) \<noteq> THREAD_EXIT" using y(3) runsD(3) [OF h(1)] by auto
    have "sleep_ok (threads y t) ((waiters (ws st) w)\<lparr>w_sleep := True\<rparr>) (fired st w) may tmo"
      using y(3) p False by (auto simp: sleep_ok_def parked_def)
    then show ?thesis
      by (intro winv_own [OF i, of t w _ "Sleeping w may tmo"])
        (use W y p live winv_distinct [OF i] winv_thread [OF i p(1)]
          winv_on [OF i p(1)] in auto)
  qed
qed

lemma winv_call:
  assumes h: "runs st c t"
    "ph st t = Sleeping w may tmo"
    "schedule c (sys (ws st)) = Some (y, vas)"
    and i: "winv st"
  shows "winv (((set_sys st y)\<lparr>ph := (ph st)(t := Waiting w may tmo)\<rparr>))"
proof -
  obtain z v where z: "schedule c (sys (ws st)) = Some (z, v)" "sys_inv z"
      "\<And>u. switched (threads (sys (ws st)) u) (threads z u)"
      "\<And>u. do_sleep (threads z u) \<Longrightarrow> do_sleep (threads (sys (ws st)) u) \<and> cur (scheds (sys (ws st)) ! c) \<noteq> Some u"
    by (rule schedule_inv [OF winv_sys [OF i] runsD(1) [OF h(1)]]) blast
  have y: "y = z" using z(1) h(3) by simp
  have w1: "winv (set_sys st z)" by (rule winv_switched [OF i z(2,3)]) (use z(4) in blast)
  have p: "phase_waiter (ph st t) = Some w" using h(2) by simp
  have ok: "phase_ok (Waiting w may tmo) (threads z t) (waiters (ws st)) (fired st)"
    using winv_ok [OF w1, of t] h(2) z(4) [of t] runsD(2) [OF h(1)] by auto
  show ?thesis unfolding y
    by (rule winv_own [OF w1, of t w _ "Waiting w may tmo"])
      (use p ok winv_sys [OF w1] winv_distinct [OF w1] winv_thread [OF w1, of t w] winv_on [OF w1, of t w]
        winv_live [OF w1, of t w] in auto)
qed

lemma winv_leave:
  assumes h: "runs st c t"
    "ph st t = Waiting w may tmo"
    "(rem \<noteq> None) = tmo"
    "(fired st w \<longrightarrow> rem = Some 0)"
    "wait_sleep_leave c w may rem (ws st) = Some (W, e, ts)"
    and i: "winv st"
  shows "winv ((st\<lparr>ws := W, ph := (ph st)(t := Idle)\<rparr>))"
proof -
  obtain V f us where "wait_sleep_leave c w may rem (ws st) = Some (V, f, us)" "winv (st\<lparr>ws := V, ph := (ph st)(t := Idle)\<rparr>)"
    by (rule wait_sleep_leave_inv [OF i h(1-4)])
  with h(5) show ?thesis by simp
qed

lemma winv_wake:
  assumes h: "c < length (scheds (sys (ws st)))"
    "wakeup_num c pr n (ws st) = Some W"
    and i: "winv st"
  shows "winv (st\<lparr>ws := W\<rparr>)"
proof -
  from wakeup_loop_inv [OF i h(1) refl, of pr n] h(2) show ?thesis
    by (auto simp: wakeup_num_def)
qed

lemma winv_timeout:
  assumes h: "c < length (scheds (sys (ws st)))"
    "ph st t = Sleeping w may True \<or> ph st t = Waiting w may True"
    "wait_timeout c w (ws st) = Some W"
    and i: "winv st"
  shows "winv ((st\<lparr>ws := W, fired := (fired st)(w := True)\<rparr>))"
proof -
  have p: "phase_waiter (ph st t) = Some w" using h(2) by auto
  have sl: "w_sleep (waiters (ws st) w)" using winv_ok [OF i, of t] h(2) by (auto simp: sleep_ok_def)
  have th: "w_thread (waiters (ws st) w) = t" by (rule winv_thread [OF i p])
  obtain y where y: "sched_wakeup c (sys (ws st)) t SCHED_NORMAL = Some y" "sys_inv y"
      "\<And>u. u \<noteq> t \<Longrightarrow> threads y u = threads (sys (ws st)) u" and wk: "woken (threads (sys (ws st)) t) (threads y t)"
    by (rule sched_wakeup_inv [OF winv_sys [OF i] h(1) winv_live [OF i p], of SCHED_NORMAL]) blast
  have W: "W = (ws st)\<lparr>sys := y\<rparr>" using h(3) y(1) th by (simp add: wait_timeout_def)
  have live: "state (threads y t) \<noteq> THREAD_EXIT" using wk winv_live [OF i p] by (auto simp: woken_def)
  have ok: "phase_ok (ph st t) (threads y t) (waiters (ws st)) ((fired st)(w := True))"
    by (rule phase_ok_woken [OF winv_ok [OF i] p sl wk]) (use sl h(2) in auto)
  show ?thesis
    by (rule winv_own [OF i, of t w _ "ph st t"])
      (use W y ok p live th winv_distinct [OF i] winv_on [OF i p] in auto)
qed

lemma winv_interrupt:
  assumes h: "c < length (scheds (sys (ws st)))"
    "state (threads (sys (ws st)) t) \<noteq> THREAD_EXIT"
    "sched_interrupt c (sys (ws st)) t pr k restart = Some y"
    and i: "winv st"
  shows "winv (set_sys st y)"
proof -
  obtain z where z: "sched_interrupt c (sys (ws st)) t pr k restart = Some z" "sys_inv z"
      "\<And>u. u \<noteq> t \<Longrightarrow> threads z u = threads (sys (ws st)) u" and ib: "interrupted_by (threads (sys (ws st)) t) (threads z t)"
    by (rule sched_interrupt_inv [OF winv_sys [OF i] h(1,2), of pr k restart]) blast
  have y: "y = z" using z(1) h(3) by simp
  have nx: "interrupted (threads (sys (ws st)) t) \<Longrightarrow> \<not> interruptable (threads (sys (ws st)) t)"
    by (rule sinv_intr [OF sys_sinv [OF winv_sys [OF i]]])
  have ok: "phase_ok (ph st u) (threads z u) (waiters (ws st)) (fired st)" for u
    using phase_ok_interrupted [OF winv_ok [OF i, of t] ib nx] winv_ok [OF i, of u] z(3) [of u]
    by (cases "u = t") auto
  have live: "state (threads z u) \<noteq> THREAD_EXIT" if "phase_waiter (ph st u) = Some w" for u w
    using winv_live [OF i that] z(3) [of u] ib by (cases "u = t") (auto simp: interrupted_by_def)
  show ?thesis unfolding y by (rule winv_set_sys [OF i z(2) ok live])
qed

lemma winv_preempt:
  assumes h: "c < length (scheds (sys (ws st)))"
    "schedule c (sys (ws st)) = Some (y, vas)"
    and i: "winv st"
  shows "winv (set_sys st y)"
proof -
  obtain z v where z: "schedule c (sys (ws st)) = Some (z, v)" "sys_inv z"
      "\<And>u. switched (threads (sys (ws st)) u) (threads z u)"
      "\<And>u. do_sleep (threads z u) \<Longrightarrow> do_sleep (threads (sys (ws st)) u) \<and> cur (scheds (sys (ws st)) ! c) \<noteq> Some u"
    by (rule schedule_inv [OF winv_sys [OF i] h(1)]) blast
  have y: "y = z" using z(1) h(2) by simp
  show ?thesis unfolding y by (rule winv_switched [OF i z(2,3)]) (use z(4) in blast)
qed

lemma winv_pending:
  assumes h: "runs st c t"
    "ph st t = Idle"
    "sched_pending_intr c (sys (ws st)) = Some (y, k)"
    and i: "winv st"
  shows "winv (set_sys st y)"
proof -
  obtain z l u where z: "sched_pending_intr c (sys (ws st)) = Some (z, l)" "sys_inv z" "cur (scheds (sys (ws st)) ! c) = Some u"
      "\<And>v. v \<noteq> u \<Longrightarrow> threads z v = threads (sys (ws st)) v" "parked (threads z u) = parked (threads (sys (ws st)) u)"
      "interruptable (threads z u) = interruptable (threads (sys (ws st)) u)"
    by (rule sched_pending_intr_inv [OF winv_sys [OF i] runsD(1) [OF h(1)]]) blast
  have y: "y = z" and u: "u = t" using z(1,3) h(3) runsD(2) [OF h(1)] by simp_all
  show ?thesis unfolding y
    by (rule winv_idle_sys [OF i z(2) h(2)]) (use z(4-6) u winv_ok [OF i, of t] h(2) in auto)
qed

lemma winv_spawn:
  assumes h: "c < length (scheds (sys (ws st)))"
    "fresh_thread (sys (ws st)) t"
    "ph st t = Idle"
    "sched_add_thread c (sys (ws st)) t = Some y"
    and i: "winv st"
  shows "winv (set_sys st y)"
proof -
  have len: "length (running (sys (ws st))) = length (scheds (sys (ws st)))" using winv_sys [OF i] by (simp add: sys_inv_def)
  obtain b k where "sched_best (zip (scheds (sys (ws st))) (running (sys (ws st)))) 0 None = Some (b, k)"
    using h(4) by (auto simp: sched_add_thread_def bind_eq_Some_conv)
  from sched_best_min [OF this] len have r: "\<exists>d < length (scheds (sys (ws st))). running (sys (ws st)) ! d" by auto
  obtain z b where z: "sched_add_thread c (sys (ws st)) t = Some z" "sys_inv z" "same_cpus (sys (ws st)) z"
      "b < length (scheds (sys (ws st)))" "t \<in> set (order (scheds z ! b))"
      "\<And>u. u \<noteq> t \<Longrightarrow> threads z u = threads (sys (ws st)) u" "interruptable (threads z t) = interruptable (threads (sys (ws st)) t)"
    by (rule sched_add_thread_inv [OF winv_sys [OF i] h(1) r h(2)]) blast
  have y: "y = z" using z(1) h(4) by simp
  have "b < length (scheds z)" using z(3,4) by (simp add: same_cpus_def)
  then have "\<not> parked (threads z t)"
    using queue_states [OF sinv_queue [OF sys_sinv [OF z(2)]] z(5)] sinv_do_sleep [OF sys_sinv [OF z(2)], of t]
    by (auto simp: parked_def)
  then show ?thesis unfolding y
    by (intro winv_idle_sys [OF i z(2) h(3)]) (use z(6,7) winv_ok [OF i, of t] h(3) in auto)
qed

lemma winv_exit:
  assumes h: "runs st c t"
    "ph st t = Idle"
    "thread_do_exit c (sys (ws st)) = Some (y, vas)"
    and i: "winv st"
  shows "winv (set_sys st y)"
proof -
  let ?y = "(sys (ws st))\<lparr>threads := (threads (sys (ws st)))(t := (threads (sys (ws st)) t)\<lparr>state := THREAD_EXIT\<rparr>)\<rparr>"
  have ok: "\<not> parked (threads (sys (ws st)) t)" "\<not> interruptable (threads (sys (ws st)) t)"
    using winv_ok [OF i, of t] h(2) by auto
  have si: "sys_inv ?y"
    by (rule sys_inv_exiting [OF winv_sys [OF i] runsD [OF h(1)]]) (use ok(1) in \<open>simp add: parked_def\<close>)
  have w1: "winv (set_sys st ?y)"
    by (rule winv_idle_sys [OF i si h(2)]) (use ok in \<open>auto simp: parked_def\<close>)
  have c: "c < length (scheds ?y)" using runsD(1) [OF h(1)] by simp
  obtain z v where z: "schedule c ?y = Some (z, v)" "sys_inv z" "\<And>u. switched (threads ?y u) (threads z u)"
      "\<And>u. do_sleep (threads z u) \<Longrightarrow> do_sleep (threads ?y u) \<and> cur (scheds ?y ! c) \<noteq> Some u"
    by (rule schedule_inv [OF si c]) blast
  have y: "y = z" using z(1) h(3) runsD [OF h(1)] by (simp add: thread_do_exit_def)
  have "winv (set_sys (set_sys st ?y) z)"
    by (rule winv_switched [OF w1 z(2)]) (use z(3,4) in auto)
  then show ?thesis unfolding y by simp
qed

lemma wait_step_inv: "wait_step st st' \<Longrightarrow> winv st \<Longrightarrow> winv st'"
proof (induction rule: wait_step.induct)
  case prep
  then show ?case by (rule winv_prep)
next
  case abort
  then show ?case by (rule winv_abort)
next
  case check
  then show ?case by (rule winv_check)
next
  case enter
  then show ?case by (rule winv_enter)
next
  case call
  then show ?case by (rule winv_call)
next
  case leave
  then show ?case by (rule winv_leave)
next
  case wake
  then show ?case by (rule winv_wake)
next
  case timeout
  then show ?case by (rule winv_timeout)
next
  case interrupt
  then show ?case by (rule winv_interrupt)
next
  case preempt
  then show ?case by (rule winv_preempt)
next
  case pending
  then show ?case by (rule winv_pending)
next
  case spawn
  then show ?case by (rule winv_spawn)
next
  case exit
  then show ?case by (rule winv_exit)
qed

lemma wait_steps_inv: "wait_step\<^sup>*\<^sup>* st st' \<Longrightarrow> winv st \<Longrightarrow> winv st'"
  by (induction rule: rtranclp_induct) (auto intro: wait_step_inv)

definition wait_start :: "nat \<Rightarrow> wstate" where
  "wait_start n = \<lparr> ws = \<lparr> sys = booted n, wq = [], waiters = (\<lambda>_. \<lparr> w_thread = 0, w_done = False, w_sleep = False \<rparr>) \<rparr>,
     ph = (\<lambda>_. Idle), fired = (\<lambda>_. False) \<rparr>"

lemma wait_start_inv: "winv (wait_start n)"
  using booted_inv [of n] by (simp add: winv_def wait_start_def) (simp add: booted_def some_thread_def parked_def)

lemmas wait_reachable = wait_steps_inv [OF _ wait_start_inv]

subsection \<open>Properties\<close>

text \<open>C27. No wakeup is lost. In every interleaving, a thread that has announced its sleep is kept off
  the processor only while its waiter is still on the queue and neither the timeout nor, for
  an interruptible sleep, an interrupt has come; so a wakeup between the preparation and the
  sleep, or during either, is never missed. And when the thread runs again, the code after
  \<^verbatim>\<open>schedule\<close> finishes: its assertion that the wait is done holds.\<close>

theorem wait_no_lost_wakeup:
  assumes "wait_step\<^sup>*\<^sup>* (wait_start n) st" and "ph st t = Sleeping w may tmo \<or> ph st t = Waiting w may tmo"
  shows "(do_sleep (threads (sys (ws st)) t) \<or> state (threads (sys (ws st)) t) = THREAD_SLEEP \<longleftrightarrow>
      w \<in> set (wq (ws st)) \<and> \<not> fired st w \<and> \<not> (may \<and> interrupted (threads (sys (ws st)) t))) \<and>
    (\<forall>c rem. runs st c t \<and> ph st t = Waiting w may tmo \<and> (rem \<noteq> None) = tmo \<and> (fired st w \<longrightarrow> rem = Some 0) \<longrightarrow>
      (\<exists>r. wait_sleep_leave c w may rem (ws st) = Some r))"
proof (intro conjI allI impI)
  have i: "winv st" by (rule wait_reachable [OF assms(1)])
  have p: "phase_waiter (ph st t) = Some w" using assms(2) by auto
  have "sleep_ok (threads (sys (ws st)) t) (waiters (ws st) w) (fired st w) may tmo"
    using winv_ok [OF i, of t] assms(2) by auto
  then show "do_sleep (threads (sys (ws st)) t) \<or> state (threads (sys (ws st)) t) = THREAD_SLEEP \<longleftrightarrow>
      w \<in> set (wq (ws st)) \<and> \<not> fired st w \<and> \<not> (may \<and> interrupted (threads (sys (ws st)) t))"
    using winv_on [OF i p] by (simp add: sleep_ok_def parked_def)
  fix c and rem :: "u64 option"
  assume r: "runs st c t \<and> ph st t = Waiting w may tmo \<and> (rem \<noteq> None) = tmo \<and> (fired st w \<longrightarrow> rem = Some 0)"
  then show "\<exists>r. wait_sleep_leave c w may rem (ws st) = Some r"
    using wait_sleep_leave_inv [OF i, of c t w may tmo rem] by blast
qed

text \<open>C28. \<^verbatim>\<open>wakeup_num\<close> always succeeds, takes the first \<open>n\<close> waiters off the queue in their order and
  wakes them: their threads are awake and their waits done; the other waiters are untouched.\<close>

theorem wakeup_num_wakes_first:
  assumes "wait_step\<^sup>*\<^sup>* (wait_start k) st" and "c < length (scheds (sys (ws st)))"
  shows "\<exists>W. wakeup_num c pr n (ws st) = Some W \<and> wq W = drop n (wq (ws st)) \<and>
    (\<forall>w \<in> set (take n (wq (ws st))). w_done (waiters W w) \<and> \<not> do_sleep (threads (sys W) (w_thread (waiters W w))) \<and>
       state (threads (sys W) (w_thread (waiters W w))) \<noteq> THREAD_SLEEP) \<and>
    (\<forall>w. w \<notin> set (take n (wq (ws st))) \<longrightarrow> waiters W w = waiters (ws st) w)"
  using wakeup_loop_inv [OF wait_reachable [OF assms(1)] assms(2) refl, of pr n]
  by (auto simp: wakeup_num_def parked_def)

text \<open>The boot thread of a machine with one processor goes to sleep.\<close>

lemma booted_cur: "runs (wait_start 1) 0 1"
  by (simp add: runs_def wait_start_def booted_def scheduler_init_def)

lemma boot_thread_sleeps:
  obtains st where "wait_step\<^sup>*\<^sup>* (wait_start 1) st" "ph st 1 = Sleeping 5 True False" "wq (ws st) = [5]"
    "length (scheds (sys (ws st))) = 1"
proof -
  let ?s0 = "wait_start 1"
  define W1 where "W1 = (ws ?s0)\<lparr>waiters := (waiters (ws ?s0))(5 := \<lparr> w_thread = 1, w_done = False, w_sleep = False \<rparr>), wq := [5]\<rparr>"
  define s1 where "s1 = ?s0\<lparr>ws := W1, ph := (ph ?s0)(1 := Prepared 5), fired := (fired ?s0)(5 := False)\<rparr>"
  have p1: "wait_prep 0 5 (ws ?s0) = Some W1"
    by (simp add: wait_prep_def W1_def wait_start_def booted_def scheduler_init_def)
  have st1: "wait_step ?s0 s1"
    unfolding s1_def by (rule wait_step.prep [OF booted_cur _ _ p1]) (simp_all add: wait_start_def)
  have sys1: "sys (ws s1) = booted 1" by (simp add: s1_def W1_def wait_start_def)
  have r1: "runs s1 0 1" using booted_cur by (simp add: runs_def sys1) (simp add: wait_start_def)
  have x1: "\<not> interrupted (threads (booted 1) 1)" "\<not> interruptable (threads (booted 1) 1)"
    by (simp_all add: booted_def some_thread_def)
  define s2 where "s2 = s1\<lparr>ws := W1, ph := (ph s1)(1 := Checked 5 True False)\<rparr>"
  have c1: "wait_sleep_check 0 5 True False (ws s1) = Some (W1, None)"
    using sched_interrupted_cur [OF r1] x1 by (simp add: wait_sleep_check_def sys1) (simp add: s1_def)
  have st2: "wait_step s1 s2"
    using wait_step.check [OF r1 _ c1] by (simp add: s2_def s1_def)
  have sys2: "sys (ws s2) = booted 1" by (simp add: s2_def W1_def wait_start_def)
  have r2: "runs s2 0 1" using r1 by (simp add: runs_def sys1 sys2)
  obtain y where y: "sched_set_inactive 0 (booted 1) True = Some y" "scheds y = scheds (booted 1)"
    using sched_set_inactive_inv [OF booted_inv, of 0 1 1 True] r2 x1 by (auto simp: runs_def sys2)
  define W3 where "W3 = W1\<lparr>waiters := (waiters W1)(5 := (waiters W1 5)\<lparr>w_sleep := True\<rparr>), sys := y\<rparr>"
  define s3 where "s3 = s2\<lparr>ws := W3, ph := (ph s2)(1 := Sleeping 5 True False)\<rparr>"
  have e2: "wait_sleep_enter 0 5 True (ws s2) = Some (W3, True)"
    using y(1) by (simp add: wait_sleep_enter_def s2_def W3_def W1_def wait_start_def Let_def)
  have st3: "wait_step s2 s3"
    using wait_step.enter [OF r2 _ e2, of False] by (simp add: s3_def s2_def)
  have "wait_step\<^sup>*\<^sup>* ?s0 s3"
    by (rule rtranclp.rtrancl_into_rtrancl [OF rtranclp.rtrancl_into_rtrancl [OF r_into_rtranclp [of wait_step, OF st1] st2] st3])
  then show ?thesis
    by (rule that) (simp_all add: s3_def W3_def W1_def y(2) booted_def)
qed

theorem wait_no_lost_wakeup_witness:
  "\<exists>st. wait_step\<^sup>*\<^sup>* (wait_start 1) st \<and> ph st 1 = Sleeping 5 True False \<and>
     (do_sleep (threads (sys (ws st)) 1) \<or> state (threads (sys (ws st)) 1) = THREAD_SLEEP \<longleftrightarrow>
      \<not> fired st 5 \<and> \<not> interrupted (threads (sys (ws st)) 1))"
proof -
  obtain st where st: "wait_step\<^sup>*\<^sup>* (wait_start 1) st" "ph st 1 = Sleeping 5 True False" "wq (ws st) = [5]"
    by (rule boot_thread_sleeps)
  show ?thesis
    using st wait_no_lost_wakeup [OF st(1) disjI1 [OF st(2)]] by (intro exI [of _ st]) simp
qed

theorem wakeup_num_wakes_first_witness:
  "\<exists>st W. wait_step\<^sup>*\<^sup>* (wait_start 1) st \<and> wakeup_num 0 SCHED_NORMAL 1 (ws st) = Some W \<and> wq W = [] \<and> w_done (waiters W 5)"
proof -
  obtain st where st: "wait_step\<^sup>*\<^sup>* (wait_start 1) st" "wq (ws st) = [5]" "length (scheds (sys (ws st))) = 1"
    by (rule boot_thread_sleeps)
  show ?thesis
    using st wakeup_num_wakes_first [OF st(1), of 0 SCHED_NORMAL 1] by (intro exI [of _ st]) auto
qed

end
