(* ===== verification/Spec2Isabelle.thy ===== *)
theory Spec2Isabelle
  imports Bitset Cbuf Phys_Props Rbtree_Erase Snprintf_Props Signal Timekeep Timer Wait
begin

text \<open>
  A verification development for the elos kernel (\<^verbatim>\<open>src/kernel\<close>).

  Theories.
  \<^item> \<open>Prelude\<close>: integer types, error numbers, bit and alignment macros, array and memory access.
  \<^item> \<open>Interfaces\<close>: the contracts between components, as locales.
  \<^item> \<open>Bitset\<close>: \<^verbatim>\<open>lib/bitset.c\<close>.
  \<^item> \<open>Cbuf\<close>: \<^verbatim>\<open>lib/cbuf.c\<close>.
\<close>

end
